(* ===== verification/Prelude.thy ===== *)
theory Prelude
  imports Main "HOL-Library.Word" "HOL-Library.Multiset"
begin

section \<open>Shared types, automation and generic lemmas\<close>

text \<open>
  Types and facts that every component of the development uses.  Machine integers are words of
  the source's width, C strings are lists of bytes without their terminating zero, and a computation
  that can fault (a \<^verbatim>\<open>NULL\<close> dereference, a failed \<^verbatim>\<open>assert\<close>, an access outside a buffer) returns
  an \<open>option\<close> whose \<open>None\<close> is the fault, or a value of the component's own result type.
  The collections below gather the rewrite rules that carry the component proofs:
  \<open>tree_order\<close> (what an operation does to the in-order sequence), \<open>tree_balance\<close> (what it does to
  heights and balance), \<open>codec_len\<close> (lengths of encoded data) and \<open>byte_ops\<close> (bytes and blocks).
\<close>

named_theorems tree_order
named_theorems tree_balance
named_theorems codec_len
named_theorems byte_ops

type_synonym u8 = "8 word"
type_synonym u16 = "16 word"
type_synonym u32 = "32 word"
type_synonym u64 = "64 word"
type_synonym bytes = "8 word list"
type_synonym addr = nat

subsection \<open>Options as faulting computations\<close>

lemma bind_eq_Some_iff: "Option.bind m f = Some y \<longleftrightarrow> (\<exists>x. m = Some x \<and> f x = Some y)"
  by (cases m) auto

lemma Some_eq_bind_iff: "Some y = Option.bind m f \<longleftrightarrow> (\<exists>x. m = Some x \<and> f x = Some y)"
  by (cases m) auto

lemmas bind_Some_iff = bind_eq_Some_iff Some_eq_bind_iff

text \<open>A faulting operation applied to each element in turn.\<close>

fun fold_opt :: "('t \<Rightarrow> 'a \<Rightarrow> 't option) \<Rightarrow> 't \<Rightarrow> 'a list \<Rightarrow> 't option" where
  "fold_opt f t [] = Some t"
| "fold_opt f t (a # as) = Option.bind (f t a) (\<lambda>t'. fold_opt f t' as)"

subsection \<open>Lists\<close>

lemma distinct_split_unique:
  assumes "distinct (xs @ a # ys)" and "xs @ a # ys = us @ a # vs"
  shows "us = xs \<and> vs = ys"
proof -
  have "distinct (us @ a # vs)" using assms by simp
  then have "a \<notin> set us" "a \<notin> set vs" by auto
  moreover have "a \<notin> set xs" using assms(1) by auto
  moreover have "a \<notin> set ys" using assms(1) by auto
  ultimately show ?thesis using assms(2) by (metis append_Cons_eq_iff)
qed

lemma in_set_splitE:
  assumes "x \<in> set xs"
  obtains us vs where "xs = us @ x # vs"
  using assms by (auto simp: in_set_conv_decomp)

subsection \<open>Integers in memory\<close>

text \<open>Little-endian storage: copying up to 8 bytes into a zeroed integer, and an integer into bytes.\<close>

fun le_val :: "bytes \<Rightarrow> nat" where
  "le_val [] = 0"
| "le_val (b # bs) = unat b + 256 * le_val bs"

fun le_bytes :: "nat \<Rightarrow> nat \<Rightarrow> bytes" where
  "le_bytes 0 v = []"
| "le_bytes (Suc n) v = word_of_nat v # le_bytes n (v div 256)"

lemma length_le_bytes [simp, codec_len]: "length (le_bytes n v) = n"
  by (induction n arbitrary: v) auto

lemma le_val_bytes [simp]: "v < 256 ^ n \<Longrightarrow> le_val (le_bytes n v) = v"
proof (induction n arbitrary: v)
  case (Suc n)
  have "v div 256 < 256 ^ n" using Suc.prems by (simp add: less_mult_imp_div_less mult.commute)
  with Suc.IH show ?case by (simp add: unat_of_nat take_bit_eq_mod)
qed simp

lemma unat_u64 [simp]: "unat (x :: u64) < 256 ^ 8"
  using unsigned_less [of x, where ?'a = nat] by simp

lemma unat_u8 [simp]: "unat (b :: u8) < 256"
  using unsigned_less [of b, where ?'a = nat] by simp

lemma le_val_less [simp]: "le_val bs < 256 ^ length bs"
proof (induction bs)
  case (Cons b bs)
  have "unat b + 256 * le_val bs < 256 * (le_val bs + 1)" using unat_u8 [of b] by simp
  also have "\<dots> \<le> 256 * 256 ^ length bs" using Cons by (intro mult_le_mono2) simp
  finally show ?case by simp
qed simp

lemma le_bytes_val [simp]: "length bs = n \<Longrightarrow> le_bytes n (le_val bs) = bs"
proof (induction bs arbitrary: n)
  case (Cons b bs)
  have "(unat b + 256 * le_val bs) div 256 = le_val bs" using unat_u8 [of b] by simp
  moreover have "(word_of_nat (unat b + 256 * le_val bs) :: u8) = b"
  proof -
    have "(256 :: u8) = 0" by code_simp
    then have "256 * x = 0" for x :: u8 by (metis mult_zero_left)
    then show ?thesis by simp
  qed
  ultimately show ?case using Cons by auto
qed simp

subsection \<open>Transition systems\<close>

text \<open>
  The contract of a component that is driven by steps: a predicate that holds of the initial states
  and is kept by every step holds of every reachable state.  It is interpreted for each component
  with a step relation.
\<close>

inductive reachable_from :: "('s \<Rightarrow> bool) \<Rightarrow> ('s \<Rightarrow> 's \<Rightarrow> bool) \<Rightarrow> 's \<Rightarrow> bool"
  for init :: "'s \<Rightarrow> bool" and step :: "'s \<Rightarrow> 's \<Rightarrow> bool" where
  reach_init: "init s \<Longrightarrow> reachable_from init step s"
| reach_step: "reachable_from init step s \<Longrightarrow> step s t \<Longrightarrow> reachable_from init step t"

locale inductive_invariant =
  fixes init :: "'s \<Rightarrow> bool" and step :: "'s \<Rightarrow> 's \<Rightarrow> bool" and inv :: "'s \<Rightarrow> bool"
  assumes inv_init: "init s \<Longrightarrow> inv s"
    and inv_step: "inv s \<Longrightarrow> step s t \<Longrightarrow> inv t"
begin

lemma reachable_inv: "reachable_from init step s \<Longrightarrow> inv s"
  by (induction rule: reachable_from.induct) (auto intro: inv_init inv_step)

end

end
