(* ===== verification/Ptree.thy ===== *)
theory Ptree
  imports Prelude
begin

section \<open>The intrusive AVL tree (\<open>ptree.c\<close>, \<open>ptree.h\<close>)\<close>

text \<open>
  Every ordered collection of the client is built on \<^verbatim>\<open>psync_tree\<close>: nodes embedded in the objects
  they order, with left, right and parent pointers and a stored height.  A tree value below is the
  structure reached from a \<^verbatim>\<open>psync_tree *\<close>; an element is the node's identity (its address), so
  the payload of a node is kept elsewhere, as in the code.  A pointer into a tree is a location: the
  chain of parents (a list of crumbs, innermost first) together with the subtree below.  Reading
  \<^verbatim>\<open>e->parent\<close> is taking the first crumb, and \<^verbatim>\<open>e == tree\<close> is the empty chain.
  An operation returns \<open>None\<close> where the C code would dereference \<^verbatim>\<open>NULL\<close> or fail an \<^verbatim>\<open>assert\<close>;
  the theorems show that this does not happen on a balanced tree.
\<close>

subsection \<open>Nodes, heights and locations\<close>

datatype 'a ptree = PNull | PNode "'a ptree" 'a int "'a ptree"

datatype 'a crumb = InLeft 'a int "'a ptree" | InRight "'a ptree" 'a int

type_synonym 'a loc = "'a crumb list \<times> 'a ptree"

fun psync_tree_height :: "'a ptree \<Rightarrow> int" where
  "psync_tree_height PNull = 0"
| "psync_tree_height (PNode l x h r) = h"

definition psync_tree_init_node :: "'a \<Rightarrow> 'a ptree" where
  "psync_tree_init_node x = PNode PNull x 1 PNull"

fun plug1 :: "'a crumb \<Rightarrow> 'a ptree \<Rightarrow> 'a ptree" where
  "plug1 (InLeft x h r) t = PNode t x h r"
| "plug1 (InRight l x h) t = PNode l x h t"

fun plug :: "'a crumb list \<Rightarrow> 'a ptree \<Rightarrow> 'a ptree" where
  "plug [] t = t"
| "plug (c # cs) t = plug cs (plug1 c t)"

definition psync_tree_max :: "int \<Rightarrow> int \<Rightarrow> int" where
  "psync_tree_max a b = (if a > b then a else b)"

fun psync_tree_recalc_height :: "'a ptree \<Rightarrow> 'a ptree" where
  "psync_tree_recalc_height PNull = PNull"
| "psync_tree_recalc_height (PNode l x h r) =
     PNode l x (psync_tree_max (psync_tree_height l) (psync_tree_height r) + 1) r"

subsection \<open>Rotations\<close>

fun psync_tree_rotate_left :: "'a ptree \<Rightarrow> 'a ptree option" where
  "psync_tree_rotate_left (PNode a x h (PNode b y h2 c)) =
     (let e = (if b \<noteq> PNull then psync_tree_recalc_height (PNode a x h b)
               else PNode a x (psync_tree_height a + 1) b)
      in Some (psync_tree_recalc_height (PNode e y h2 c)))"
| "psync_tree_rotate_left _ = None"

fun psync_tree_rotate_right :: "'a ptree \<Rightarrow> 'a ptree option" where
  "psync_tree_rotate_right (PNode (PNode a y h2 b) x h c) =
     (let e = (if b \<noteq> PNull then psync_tree_recalc_height (PNode b x h c)
               else PNode b x (psync_tree_height c + 1) c)
      in Some (psync_tree_recalc_height (PNode a y h2 e)))"
| "psync_tree_rotate_right _ = None"

text \<open>The two rebalancing steps that \<open>psync_tree_go_up_rebalance_add\<close> and \<open>_del\<close> share, for a node whose
  left (right) side is two levels taller.\<close>

fun rebalance_left_heavy :: "'a ptree \<Rightarrow> 'a ptree option" where
  "rebalance_left_heavy (PNode (PNode ll y hl lr) x h r) =
     (if psync_tree_height lr > psync_tree_height ll
      then Option.bind (psync_tree_rotate_left (PNode ll y hl lr))
             (\<lambda>l. psync_tree_rotate_right (PNode l x h r))
      else psync_tree_rotate_right (PNode (PNode ll y hl lr) x h r))"
| "rebalance_left_heavy _ = None"

fun rebalance_right_heavy :: "'a ptree \<Rightarrow> 'a ptree option" where
  "rebalance_right_heavy (PNode l x h (PNode rl y hr rr)) =
     (if psync_tree_height rl > psync_tree_height rr
      then Option.bind (psync_tree_rotate_right (PNode rl y hr rr))
             (\<lambda>r. psync_tree_rotate_left (PNode l x h r))
      else psync_tree_rotate_left (PNode l x h (PNode rl y hr rr)))"
| "rebalance_right_heavy _ = None"

subsection \<open>Walking up after an insertion or a removal\<close>

fun psync_tree_go_up_rebalance_add :: "'a crumb list \<Rightarrow> 'a ptree \<Rightarrow> 'a ptree option" where
  "psync_tree_go_up_rebalance_add path PNull = None"
| "psync_tree_go_up_rebalance_add path (PNode l x h r) =
     (let lheight = psync_tree_height l; rheight = psync_tree_height r; dheight = lheight - rheight
      in if dheight = 0 then Some (plug path (PNode l x h r))
         else if dheight = 1 \<or> dheight = - 1
         then (let e = PNode l x (rheight + (dheight + 1) div 2 + 1) r
               in case path of
                    [] \<Rightarrow> Some e
                  | c # cs \<Rightarrow> psync_tree_go_up_rebalance_add cs (plug1 c e))
         else if dheight = 2
         then map_option (plug path) (rebalance_left_heavy (PNode l x h r))
         else if dheight = - 2
         then map_option (plug path) (rebalance_right_heavy (PNode l x h r))
         else None)"

fun psync_tree_go_up_rebalance_del :: "'a crumb list \<Rightarrow> 'a ptree \<Rightarrow> 'a ptree option" where
  "psync_tree_go_up_rebalance_del path PNull = None"
| "psync_tree_go_up_rebalance_del path (PNode l x h r) =
     (let lheight = psync_tree_height l; rheight = psync_tree_height r; dheight = lheight - rheight
      in if dheight = 0
         then (let e = PNode l x (rheight + 1) r
               in case path of
                    [] \<Rightarrow> Some e
                  | c # cs \<Rightarrow> psync_tree_go_up_rebalance_del cs (plug1 c e))
         else if dheight = 1 \<or> dheight = - 1 then Some (plug path (PNode l x h r))
         else if dheight = 2
         then Option.bind (rebalance_left_heavy (PNode l x h r))
                (\<lambda>e. case path of
                       [] \<Rightarrow> Some e
                     | c # cs \<Rightarrow> psync_tree_go_up_rebalance_del cs (plug1 c e))
         else if dheight = - 2
         then Option.bind (rebalance_right_heavy (PNode l x h r))
                (\<lambda>e. case path of
                       [] \<Rightarrow> Some e
                     | c # cs \<Rightarrow> psync_tree_go_up_rebalance_del cs (plug1 c e))
         else None)"

subsection \<open>Iteration\<close>

text \<open>\<open>go_left\<close> and \<open>go_right\<close> are the loops \<^verbatim>\<open>while (node->left) node=node->left\<close> and its mirror image,
  \<open>go_leaf\<close> the loop of the \<open>_safe\<close> functions, which descends to a leaf, left first.\<close>

fun go_left :: "'a crumb list \<Rightarrow> 'a ptree \<Rightarrow> 'a loc" where
  "go_left path (PNode (PNode ll y hl lr) x h r) = go_left (InLeft x h r # path) (PNode ll y hl lr)"
| "go_left path t = (path, t)"

fun go_right :: "'a crumb list \<Rightarrow> 'a ptree \<Rightarrow> 'a loc" where
  "go_right path (PNode l x h (PNode rl y hr rr)) = go_right (InRight l x h # path) (PNode rl y hr rr)"
| "go_right path t = (path, t)"

fun go_leaf :: "'a crumb list \<Rightarrow> 'a ptree \<Rightarrow> 'a loc" where
  "go_leaf path (PNode (PNode ll y hl lr) x h r) = go_leaf (InLeft x h r # path) (PNode ll y hl lr)"
| "go_leaf path (PNode PNull x h (PNode rl y hr rr)) = go_leaf (InRight PNull x h # path) (PNode rl y hr rr)"
| "go_leaf path t = (path, t)"

definition psync_tree_get_first :: "'a ptree \<Rightarrow> 'a loc option" where
  "psync_tree_get_first t = (if t = PNull then None else Some (go_left [] t))"

definition psync_tree_get_last :: "'a ptree \<Rightarrow> 'a loc option" where
  "psync_tree_get_last t = (if t = PNull then None else Some (go_right [] t))"

text \<open>Climbing while the node is its parent's right (left) child, then one more step up.\<close>

fun up_from_right :: "'a loc \<Rightarrow> 'a loc option" where
  "up_from_right ([], t) = None"
| "up_from_right (InLeft x h r # cs, t) = Some (cs, PNode t x h r)"
| "up_from_right (InRight l x h # cs, t) = up_from_right (cs, PNode l x h t)"

fun up_from_left :: "'a loc \<Rightarrow> 'a loc option" where
  "up_from_left ([], t) = None"
| "up_from_left (InRight l x h # cs, t) = Some (cs, PNode l x h t)"
| "up_from_left (InLeft x h r # cs, t) = up_from_left (cs, PNode t x h r)"

fun psync_tree_get_next :: "'a loc \<Rightarrow> 'a loc option" where
  "psync_tree_get_next (path, PNode l x h (PNode rl y hr rr)) =
     Some (go_left (InRight l x h # path) (PNode rl y hr rr))"
| "psync_tree_get_next (path, t) = up_from_right (path, t)"

fun psync_tree_get_prev :: "'a loc \<Rightarrow> 'a loc option" where
  "psync_tree_get_prev (path, PNode (PNode ll y hl lr) x h r) =
     Some (go_right (InLeft x h r # path) (PNode ll y hl lr))"
| "psync_tree_get_prev (path, t) = up_from_left (path, t)"

definition psync_tree_get_first_safe :: "'a ptree \<Rightarrow> 'a loc option" where
  "psync_tree_get_first_safe t = (if t = PNull then None else Some (go_leaf [] t))"

fun psync_tree_get_next_safe :: "'a loc \<Rightarrow> 'a loc option" where
  "psync_tree_get_next_safe ([], t) = None"
| "psync_tree_get_next_safe (InRight l x h # cs, t) = Some (cs, PNode l x h t)"
| "psync_tree_get_next_safe (InLeft x h PNull # cs, t) = Some (cs, PNode t x h PNull)"
| "psync_tree_get_next_safe (InLeft x h r # cs, t) = Some (go_leaf (InRight t x h # cs) r)"

text \<open>The node a location points at, and the location of a node that is in the tree.\<close>

fun loc_node :: "'a loc \<Rightarrow> 'a option" where
  "loc_node (path, PNull) = None"
| "loc_node (path, PNode l x h r) = Some x"

fun locate :: "'a \<Rightarrow> 'a crumb list \<Rightarrow> 'a ptree \<Rightarrow> 'a loc option" where
  "locate a path PNull = None"
| "locate a path (PNode l x h r) =
     (if x = a then Some (path, PNode l x h r)
      else case locate a (InLeft x h r # path) l of
             Some p \<Rightarrow> Some p
           | None \<Rightarrow> locate a (InRight l x h # path) r)"

text \<open>The neighbours of a node given by its identity, and the two ends, as the clients use them.\<close>

definition next_node :: "'a ptree \<Rightarrow> 'a \<Rightarrow> 'a option" where
  "next_node t a = Option.bind (locate a [] t) (\<lambda>p. Option.bind (psync_tree_get_next p) loc_node)"

definition prev_node :: "'a ptree \<Rightarrow> 'a \<Rightarrow> 'a option" where
  "prev_node t a = Option.bind (locate a [] t) (\<lambda>p. Option.bind (psync_tree_get_prev p) loc_node)"

definition first_node :: "'a ptree \<Rightarrow> 'a option" where
  "first_node t = Option.bind (psync_tree_get_first t) loc_node"

definition last_node :: "'a ptree \<Rightarrow> 'a option" where
  "last_node t = Option.bind (psync_tree_get_last t) loc_node"

text \<open>The \<^verbatim>\<open>psync_tree_for_each\<close> loops as the list of nodes they visit, at most \<open>n\<close> of them.\<close>

fun visit_next :: "nat \<Rightarrow> 'a loc option \<Rightarrow> 'a list" where
  "visit_next 0 p = []"
| "visit_next (Suc n) None = []"
| "visit_next (Suc n) (Some p) =
     (case loc_node p of None \<Rightarrow> [] | Some x \<Rightarrow> x # visit_next n (psync_tree_get_next p))"

fun visit_next_safe :: "nat \<Rightarrow> 'a loc option \<Rightarrow> 'a list" where
  "visit_next_safe 0 p = []"
| "visit_next_safe (Suc n) None = []"
| "visit_next_safe (Suc n) (Some p) =
     (case loc_node p of None \<Rightarrow> [] | Some x \<Rightarrow> x # visit_next_safe n (psync_tree_get_next_safe p))"

fun psync_tree_count :: "'a ptree \<Rightarrow> nat" where
  "psync_tree_count PNull = 0"
| "psync_tree_count (PNode l x h r) = Suc (psync_tree_count l + psync_tree_count r)"

definition psync_tree_for_each :: "'a ptree \<Rightarrow> 'a list" where
  "psync_tree_for_each t = visit_next (psync_tree_count t) (psync_tree_get_first t)"

definition psync_tree_for_each_element_call_safe :: "'a ptree \<Rightarrow> 'a list" where
  "psync_tree_for_each_element_call_safe t =
     visit_next_safe (psync_tree_count t) (psync_tree_get_first_safe t)"

subsection \<open>Adding a node next to another one, or in an empty slot\<close>

text \<open>\<open>psync_tree_get_added_at\<close> is called once the new node has been linked into the slot \<open>path\<close>.\<close>

fun psync_tree_get_added_at :: "'a crumb list \<Rightarrow> 'a \<Rightarrow> 'a ptree option" where
  "psync_tree_get_added_at [] new = Some (psync_tree_init_node new)"
| "psync_tree_get_added_at (c # cs) new =
     psync_tree_go_up_rebalance_add cs (plug1 c (psync_tree_init_node new))"

fun add_after_loc :: "'a loc \<Rightarrow> 'a \<Rightarrow> 'a ptree option" where
  "add_after_loc (path, PNull) new = None"
| "add_after_loc (path, PNode l x h PNull) new =
     psync_tree_go_up_rebalance_add path (PNode l x h (psync_tree_init_node new))"
| "add_after_loc (path, PNode l x h r) new =
     (case go_left (InRight l x h # path) r of
        (path', PNode rl y hr rr) \<Rightarrow>
          psync_tree_go_up_rebalance_add path' (PNode (psync_tree_init_node new) y hr rr)
      | (path', PNull) \<Rightarrow> None)"

fun add_before_loc :: "'a loc \<Rightarrow> 'a \<Rightarrow> 'a ptree option" where
  "add_before_loc (path, PNull) new = None"
| "add_before_loc (path, PNode PNull x h r) new =
     psync_tree_go_up_rebalance_add path (PNode (psync_tree_init_node new) x h r)"
| "add_before_loc (path, PNode l x h r) new =
     (case go_right (InLeft x h r # path) l of
        (path', PNode ll y hl lr) \<Rightarrow>
          psync_tree_go_up_rebalance_add path' (PNode ll y hl (psync_tree_init_node new))
      | (path', PNull) \<Rightarrow> None)"

text \<open>The node argument is a pointer that may be \<^verbatim>\<open>NULL\<close>; a pointer to a node that is not in the
  tree is a fault.\<close>

definition psync_tree_get_add_after :: "'a ptree \<Rightarrow> 'a option \<Rightarrow> 'a \<Rightarrow> 'a ptree option" where
  "psync_tree_get_add_after tree node new =
     (if tree = PNull then Some (psync_tree_init_node new)
      else case node of
             None \<Rightarrow> Option.bind (psync_tree_get_first tree) (\<lambda>p. add_before_loc p new)
           | Some a \<Rightarrow> Option.bind (locate a [] tree) (\<lambda>p. add_after_loc p new))"

definition psync_tree_get_add_before :: "'a ptree \<Rightarrow> 'a option \<Rightarrow> 'a \<Rightarrow> 'a ptree option" where
  "psync_tree_get_add_before tree node new =
     (if tree = PNull then Some (psync_tree_init_node new)
      else case node of
             None \<Rightarrow> Option.bind (psync_tree_get_last tree) (\<lambda>p. add_after_loc p new)
           | Some a \<Rightarrow> Option.bind (locate a [] tree) (\<lambda>p. add_before_loc p new))"

text \<open>The search of \<open>psync_tree_get_add\<close>: left where the new node compares smaller, right otherwise.\<close>

fun get_add_search :: "('a \<Rightarrow> 'a \<Rightarrow> int) \<Rightarrow> 'a \<Rightarrow> 'a crumb list \<Rightarrow> 'a ptree \<Rightarrow> 'a ptree option" where
  "get_add_search cmp new path PNull = None"
| "get_add_search cmp new path (PNode l x h r) =
     (if cmp new x < 0
      then (if l \<noteq> PNull then get_add_search cmp new (InLeft x h r # path) l
            else add_before_loc (path, PNode l x h r) new)
      else (if r \<noteq> PNull then get_add_search cmp new (InRight l x h # path) r
            else add_after_loc (path, PNode l x h r) new))"

definition psync_tree_get_add :: "('a \<Rightarrow> 'a \<Rightarrow> int) \<Rightarrow> 'a ptree \<Rightarrow> 'a \<Rightarrow> 'a ptree option" where
  "psync_tree_get_add cmp tree new =
     (if tree = PNull then psync_tree_get_add_after tree None new
      else get_add_search cmp new [] tree)"

subsection \<open>Removing a node\<close>

fun psync_tree_replace_me_with :: "'a crumb list \<Rightarrow> 'a ptree \<Rightarrow> 'a ptree option" where
  "psync_tree_replace_me_with (c # cs) repl = psync_tree_go_up_rebalance_del cs (plug1 c repl)"
| "psync_tree_replace_me_with [] PNull = Some PNull"
| "psync_tree_replace_me_with [] repl = psync_tree_go_up_rebalance_del [] repl"

text \<open>With two children the node \<open>el\<close> next to it (the last of the left side when that is taller, else
  the first of the right side) is unlinked and takes its place, with its height; rebalancing starts
  from the former parent of \<open>el\<close>, which may be \<open>el\<close> itself.  The slot of \<open>el\<close> has a parent, so
  \<open>psync_tree_replace_me_with\<close> on it is the link of the child and the call of
  \<open>psync_tree_go_up_rebalance_del\<close> that end the C function.\<close>

fun del_loc :: "'a loc \<Rightarrow> 'a ptree option" where
  "del_loc (path, PNull) = None"
| "del_loc (path, PNode l x h r) =
     (if l = PNull \<and> r = PNull then psync_tree_replace_me_with path PNull
      else if l = PNull then psync_tree_replace_me_with path r
      else if r = PNull then psync_tree_replace_me_with path l
      else if psync_tree_height l > psync_tree_height r
      then (case go_right [] l of
              (inner, PNode ll el hel lr) \<Rightarrow>
                psync_tree_replace_me_with (inner @ InLeft el h r # path) ll
            | (inner, PNull) \<Rightarrow> None)
      else (case go_left [] r of
              (inner, PNode rl el hel rr) \<Rightarrow>
                psync_tree_replace_me_with (inner @ InRight l el h # path) rr
            | (inner, PNull) \<Rightarrow> None))"

definition psync_tree_get_del :: "'a ptree \<Rightarrow> 'a \<Rightarrow> 'a ptree option" where
  "psync_tree_get_del tree node = Option.bind (locate node [] tree) del_loc"

subsection \<open>The sequence a tree stands for\<close>

fun inorder :: "'a ptree \<Rightarrow> 'a list" where
  "inorder PNull = []"
| "inorder (PNode l x h r) = inorder l @ x # inorder r"

fun postorder :: "'a ptree \<Rightarrow> 'a list" where
  "postorder PNull = []"
| "postorder (PNode l x h r) = postorder l @ postorder r @ [x]"

text \<open>What lies before and after a slot.\<close>

fun crumb_before :: "'a crumb \<Rightarrow> 'a list" where
  "crumb_before (InLeft x h r) = []"
| "crumb_before (InRight l x h) = inorder l @ [x]"

fun crumb_after :: "'a crumb \<Rightarrow> 'a list" where
  "crumb_after (InLeft x h r) = x # inorder r"
| "crumb_after (InRight l x h) = []"

fun path_before :: "'a crumb list \<Rightarrow> 'a list" where
  "path_before [] = []"
| "path_before (c # cs) = path_before cs @ crumb_before c"

fun path_after :: "'a crumb list \<Rightarrow> 'a list" where
  "path_after [] = []"
| "path_after (c # cs) = crumb_after c @ path_after cs"

lemma inorder_plug1 [tree_order, simp]: "inorder (plug1 c t) = crumb_before c @ inorder t @ crumb_after c"
  by (cases c) auto

lemma inorder_plug [tree_order, simp]: "inorder (plug cs t) = path_before cs @ inorder t @ path_after cs"
  by (induction cs t rule: plug.induct) auto

lemma path_before_append [simp]: "path_before (cs @ ds) = path_before ds @ path_before cs"
  by (induction cs) auto

lemma path_after_append [simp]: "path_after (cs @ ds) = path_after cs @ path_after ds"
  by (induction cs) auto

lemma inorder_recalc [tree_order, simp]: "inorder (psync_tree_recalc_height t) = inorder t"
  by (cases t) auto

lemma inorder_init_node [tree_order, simp]: "inorder (psync_tree_init_node x) = [x]"
  by (simp add: psync_tree_init_node_def)

lemma inorder_rotate_left: "psync_tree_rotate_left t = Some t' \<Longrightarrow> inorder t' = inorder t"
  by (auto elim!: psync_tree_rotate_left.elims simp: Let_def split: if_splits)

lemma inorder_rotate_right: "psync_tree_rotate_right t = Some t' \<Longrightarrow> inorder t' = inorder t"
  by (auto elim!: psync_tree_rotate_right.elims simp: Let_def split: if_splits)

lemma inorder_left_heavy: "rebalance_left_heavy t = Some t' \<Longrightarrow> inorder t' = inorder t"
  by (erule rebalance_left_heavy.elims)
     (auto simp: bind_Some_iff dest!: inorder_rotate_left inorder_rotate_right split: if_splits)

lemma inorder_right_heavy: "rebalance_right_heavy t = Some t' \<Longrightarrow> inorder t' = inorder t"
  by (erule rebalance_right_heavy.elims)
     (auto simp: bind_Some_iff dest!: inorder_rotate_left inorder_rotate_right split: if_splits)

lemmas inorder_rotations = inorder_rotate_left inorder_rotate_right
  inorder_left_heavy inorder_right_heavy

lemma inorder_go_up_add:
  "psync_tree_go_up_rebalance_add cs t = Some t' \<Longrightarrow> inorder t' = inorder (plug cs t)"
proof (induction cs arbitrary: t)
  case Nil
  then show ?case
    by (cases t) (auto simp: Let_def dest!: inorder_left_heavy inorder_right_heavy split: if_splits)
next
  case (Cons c cs)
  then show ?case
    by (cases t) (auto simp: Let_def dest!: inorder_left_heavy inorder_right_heavy split: if_splits)
qed

lemma inorder_go_up_del:
  "psync_tree_go_up_rebalance_del cs t = Some t' \<Longrightarrow> inorder t' = inorder (plug cs t)"
proof (induction cs arbitrary: t)
  case Nil
  then show ?case
    by (cases t) (auto simp: Let_def dest!: inorder_left_heavy inorder_right_heavy split: if_splits)
next
  case (Cons c cs)
  then show ?case
    by (cases t) (auto simp: Let_def bind_Some_iff dest!: inorder_left_heavy inorder_right_heavy split: if_splits)
qed

subsection \<open>Balance\<close>

text \<open>The invariant the module keeps: heights are stored correctly and the two sides of a node differ
  by at most one level.\<close>

fun avl :: "'a ptree \<Rightarrow> bool" where
  "avl PNull = True"
| "avl (PNode l x h r) =
     (avl l \<and> avl r \<and> h = max (psync_tree_height l) (psync_tree_height r) + 1
      \<and> \<bar>psync_tree_height l - psync_tree_height r\<bar> \<le> 1)"

text \<open>A slot that is balanced once a tree of height \<open>k\<close> is put in it.\<close>

fun path_avl :: "'a crumb list \<Rightarrow> int \<Rightarrow> bool" where
  "path_avl [] k = True"
| "path_avl (InLeft x h r # cs) k =
     (avl r \<and> h = max k (psync_tree_height r) + 1 \<and> \<bar>k - psync_tree_height r\<bar> \<le> 1 \<and> path_avl cs h)"
| "path_avl (InRight l x h # cs) k =
     (avl l \<and> h = max (psync_tree_height l) k + 1 \<and> \<bar>psync_tree_height l - k\<bar> \<le> 1 \<and> path_avl cs h)"

lemma psync_tree_max_eq [simp]: "psync_tree_max a b = max a b"
  by (simp add: psync_tree_max_def)

lemma height_nonneg: "avl t \<Longrightarrow> 0 \<le> psync_tree_height t"
  by (induction t) auto

lemma height_pos: "avl (PNode l x h r) \<Longrightarrow> 0 < h"
  using height_nonneg [of l] by auto

lemma height_0_iff: "avl t \<Longrightarrow> psync_tree_height t = 0 \<longleftrightarrow> t = PNull"
  using height_pos by (cases t) force+

lemma avl_init_node [tree_balance, simp]:
  "avl (psync_tree_init_node x)" "psync_tree_height (psync_tree_init_node x) = 1"
  by (simp_all add: psync_tree_init_node_def)

lemma avl_plug_iff [tree_balance]: "avl (plug cs t) \<longleftrightarrow> avl t \<and> path_avl cs (psync_tree_height t)"
proof (induction cs arbitrary: t)
  case Nil
  show ?case by simp
next
  case (Cons c cs)
  then show ?case by (cases c) auto
qed

fun lean :: "'a ptree \<Rightarrow> bool" where
  "lean PNull = False"
| "lean (PNode l x h r) = (psync_tree_height l \<noteq> psync_tree_height r)"

text \<open>The heart of the module: a node that is two levels too tall on one side comes out balanced, and
  one level lower exactly when its taller child was not itself level.\<close>

lemma left_heavy_avl:
  assumes "avl l" "avl r" "psync_tree_height l = psync_tree_height r + 2"
  shows "\<exists>t. rebalance_left_heavy (PNode l x h r) = Some t \<and> avl t
           \<and> psync_tree_height t = (if lean l then psync_tree_height l else psync_tree_height l + 1)"
proof -
  obtain ll y hl lr where l: "l = PNode ll y hl lr"
    using assms height_nonneg [of r] by (cases l) auto
  show ?thesis
  proof (cases "psync_tree_height lr > psync_tree_height ll")
    case True
    then obtain a z hz b where lr: "lr = PNode a z hz b"
      using assms l height_nonneg [of ll] by (cases lr) auto
    show ?thesis
      using assms True height_nonneg [of r] height_nonneg [of a] height_nonneg [of b]
      by (auto simp: l lr Let_def height_0_iff)
  next
    case False
    then show ?thesis
      using assms height_nonneg [of r] height_nonneg [of lr] by (auto simp: l Let_def)
  qed
qed

lemma right_heavy_avl:
  assumes "avl l" "avl r" "psync_tree_height r = psync_tree_height l + 2"
  shows "\<exists>t. rebalance_right_heavy (PNode l x h r) = Some t \<and> avl t
           \<and> psync_tree_height t = (if lean r then psync_tree_height r else psync_tree_height r + 1)"
proof -
  obtain rl y hr rr where r: "r = PNode rl y hr rr"
    using assms height_nonneg [of l] by (cases r) auto
  show ?thesis
  proof (cases "psync_tree_height rl > psync_tree_height rr")
    case True
    then obtain a z hz b where rl: "rl = PNode a z hz b"
      using assms r height_nonneg [of rr] by (cases rl) auto
    show ?thesis
      using assms True height_nonneg [of l] height_nonneg [of a] height_nonneg [of b]
      by (auto simp: r rl Let_def height_0_iff)
  next
    case False
    then show ?thesis
      using assms height_nonneg [of l] height_nonneg [of rl] by (auto simp: r Let_def)
  qed
qed

text \<open>A node one of whose children may have grown by one level since its height \<open>h\<close> was stored.  Where
  the growth makes it unbalanced the taller child is not level, which is what insertion ensures.\<close>

definition grown :: "'a ptree \<Rightarrow> int \<Rightarrow> 'a ptree \<Rightarrow> bool" where
  "grown l h r =
     (avl l \<and> avl r
      \<and> (let hl = psync_tree_height l; hr = psync_tree_height r in
           hl = hr \<and> h = hl + 1 \<or> \<bar>hl - hr\<bar> = 1 \<and> h = max hl hr
         \<or> hl = hr + 2 \<and> h = hl \<and> lean l \<or> hr = hl + 2 \<and> h = hr \<and> lean r))"

lemma grown_parent:
  assumes "path_avl (c # cs) h" "avl t" "psync_tree_height t = h + 1" "lean t \<or> h = 0"
  shows "\<exists>l x h' r. plug1 c t = PNode l x h' r \<and> grown l h' r \<and> path_avl cs h'"
proof (cases c)
  case (InLeft x h' r)
  consider "h = psync_tree_height r" | "h = psync_tree_height r + 1" | "psync_tree_height r = h + 1"
    using assms(1) InLeft by (simp, arith)
  then show ?thesis
    using assms InLeft height_nonneg [of r] by cases (auto simp: grown_def Let_def)
next
  case (InRight l x h')
  consider "h = psync_tree_height l" | "h = psync_tree_height l + 1" | "psync_tree_height l = h + 1"
    using assms(1) InRight by (simp, arith)
  then show ?thesis
    using assms InRight height_nonneg [of l] by cases (auto simp: grown_def Let_def)
qed

lemma go_up_add_stop:
  assumes "grown l h r" "path_avl cs h" "\<bar>psync_tree_height l - psync_tree_height r\<bar> \<noteq> 1"
  shows "\<exists>t. psync_tree_go_up_rebalance_add cs (PNode l x h r) = Some t \<and> avl t"
proof -
  let ?hl = "psync_tree_height l" and ?hr = "psync_tree_height r"
  consider "?hl = ?hr" | "?hl = ?hr + 2" "lean l" | "?hr = ?hl + 2" "lean r"
    using assms(1,3) by (auto simp: grown_def Let_def)
  then show ?thesis
  proof cases
    case 1
    then show ?thesis using assms by (auto simp: grown_def Let_def avl_plug_iff)
  next
    case 2
    then obtain t where "rebalance_left_heavy (PNode l x h r) = Some t" "avl t" "psync_tree_height t = h"
      using assms left_heavy_avl [of l r x h] by (auto simp: grown_def Let_def)
    then show ?thesis using 2 assms by (auto simp: avl_plug_iff)
  next
    case 3
    then obtain t where "rebalance_right_heavy (PNode l x h r) = Some t" "avl t" "psync_tree_height t = h"
      using assms right_heavy_avl [of l r x h] by (auto simp: grown_def Let_def)
    then show ?thesis using 3 assms by (auto simp: avl_plug_iff)
  qed
qed

lemma go_up_add_continue:
  assumes "grown l h r" "\<bar>psync_tree_height l - psync_tree_height r\<bar> = 1"
  obtains e where "avl e" "psync_tree_height e = h + 1" "lean e"
    "\<And>cs. psync_tree_go_up_rebalance_add cs (PNode l x h r)
        = (case cs of [] \<Rightarrow> Some e | c # cs \<Rightarrow> psync_tree_go_up_rebalance_add cs (plug1 c e))"
proof -
  let ?hl = "psync_tree_height l" and ?hr = "psync_tree_height r"
  let ?e = "PNode l x (?hr + (?hl - ?hr + 1) div 2 + 1) r"
  have d: "?hl - ?hr \<noteq> 0" "?hl - ?hr = 1 \<or> ?hl - ?hr = - 1" using assms(2) by auto
  have e: "avl ?e" "psync_tree_height ?e = h + 1" "lean ?e"
    using assms(1) d by (auto simp: grown_def Let_def)
  from d have "psync_tree_go_up_rebalance_add cs (PNode l x h r)
      = (case cs of [] \<Rightarrow> Some ?e | c # cs \<Rightarrow> psync_tree_go_up_rebalance_add cs (plug1 c ?e))" for cs
    by (simp only: psync_tree_go_up_rebalance_add.simps Let_def if_False if_True)
  with e show thesis by (rule that)
qed

lemma go_up_add_avl:
  assumes "grown l h r" "path_avl cs h"
  shows "\<exists>t. psync_tree_go_up_rebalance_add cs (PNode l x h r) = Some t \<and> avl t"
  using assms
proof (induction cs arbitrary: l x h r)
  case Nil
  show ?case
  proof (cases "\<bar>psync_tree_height l - psync_tree_height r\<bar> = 1")
    case True
    from Nil(1) True show ?thesis by (rule go_up_add_continue [where x = x]) (auto dest: spec)
  qed (rule go_up_add_stop [OF Nil])
next
  case (Cons c cs)
  show ?case
  proof (cases "\<bar>psync_tree_height l - psync_tree_height r\<bar> = 1")
    case True
    from Cons.prems(1) True obtain e where e: "avl e" "psync_tree_height e = h + 1" "lean e"
      and go: "\<And>cs. psync_tree_go_up_rebalance_add cs (PNode l x h r)
        = (case cs of [] \<Rightarrow> Some e | c # cs \<Rightarrow> psync_tree_go_up_rebalance_add cs (plug1 c e))"
      by (rule go_up_add_continue [where x = x]) (rule that)
    from grown_parent [OF Cons.prems(2) e(1,2)] e(3) obtain l' x' h' r'
      where p: "plug1 c e = PNode l' x' h' r'" "grown l' h' r'" "path_avl cs h'" by blast
    show ?thesis using go [of "c # cs"] p(1) Cons.IH [OF p(2,3), of x'] by simp
  qed (rule go_up_add_stop [OF Cons.prems])
qed

text \<open>A node one of whose children may have lost a level since its height \<open>h\<close> was stored.\<close>

definition shrunk :: "'a ptree \<Rightarrow> int \<Rightarrow> 'a ptree \<Rightarrow> bool" where
  "shrunk l h r =
     (avl l \<and> avl r
      \<and> (let hl = psync_tree_height l; hr = psync_tree_height r in
           \<bar>hl - hr\<bar> \<le> 1 \<and> h = max hl hr + 1 \<or> hl = hr \<and> h = hl + 2
         \<or> \<bar>hl - hr\<bar> = 2 \<and> h = max hl hr + 1))"

lemma shrunk_parent:
  assumes "path_avl (c # cs) h" "avl t" "psync_tree_height t = h \<or> psync_tree_height t = h - 1"
  shows "\<exists>l x h' r. plug1 c t = PNode l x h' r \<and> shrunk l h' r \<and> path_avl cs h'"
  using assms by (cases c) (auto simp: shrunk_def Let_def)

text \<open>What happens at the node itself: either the walk stops with a balanced tree, or it goes on with a
  balanced subtree of the stored height or one level less.\<close>

lemma shrunk_step:
  assumes "shrunk l h r"
  obtains (stop) "avl (PNode l x h r)" "\<And>cs. psync_tree_go_up_rebalance_del cs (PNode l x h r)
                    = Some (plug cs (PNode l x h r))"
  | (up) e where "avl e" "psync_tree_height e = h \<or> psync_tree_height e = h - 1"
      "\<And>cs. psync_tree_go_up_rebalance_del cs (PNode l x h r)
          = (case cs of [] \<Rightarrow> Some e | c # cs \<Rightarrow> psync_tree_go_up_rebalance_del cs (plug1 c e))"
proof -
  let ?hl = "psync_tree_height l" and ?hr = "psync_tree_height r"
  consider "?hl = ?hr" | "\<bar>?hl - ?hr\<bar> = 1" | "?hl = ?hr + 2" | "?hr = ?hl + 2"
    using assms by (simp add: shrunk_def Let_def) arith
  then show thesis
  proof cases
    case 1
    then show thesis
      using assms by (intro up [of "PNode l x (?hr + 1) r"]) (auto simp: shrunk_def Let_def)
  next
    case 2
    then show thesis
      using assms by (intro stop) (auto simp: shrunk_def Let_def)
  next
    case 3
    then obtain t where t: "rebalance_left_heavy (PNode l x h r) = Some t" "avl t"
        "psync_tree_height t = h \<or> psync_tree_height t = h - 1"
      using assms left_heavy_avl [of l r x h] by (auto simp: shrunk_def Let_def split: if_splits)
    then show thesis using 3 by (intro up [of t]) (auto simp: Let_def)
  next
    case 4
    then obtain t where t: "rebalance_right_heavy (PNode l x h r) = Some t" "avl t"
        "psync_tree_height t = h \<or> psync_tree_height t = h - 1"
      using assms right_heavy_avl [of l r x h] by (auto simp: shrunk_def Let_def split: if_splits)
    then show thesis using 4 by (intro up [of t]) (auto simp: Let_def)
  qed
qed

lemma go_up_del_avl:
  assumes "shrunk l h r" "path_avl cs h"
  shows "\<exists>t. psync_tree_go_up_rebalance_del cs (PNode l x h r) = Some t \<and> avl t"
  using assms
proof (induction cs arbitrary: l x h r)
  case Nil
  from Nil(1) show ?case by (cases rule: shrunk_step [where x = x]) auto
next
  case (Cons c cs)
  from Cons.prems(1) show ?case
  proof (cases rule: shrunk_step [where x = x])
    case stop
    then show ?thesis
      using Cons.prems(2) by (auto simp: avl_plug_iff simp del: plug.simps)
  next
    case (up e)
    then show ?thesis
      using shrunk_parent [OF Cons.prems(2) up(1,2)] Cons.IH by fastforce
  qed
qed

declare psync_tree_go_up_rebalance_add.simps [simp del] psync_tree_go_up_rebalance_del.simps [simp del]

subsection \<open>Locations\<close>

lemma go_left_spec:
  assumes "t \<noteq> PNull"
  obtains cs' y h r where "go_left cs t = (cs', PNode PNull y h r)"
    "plug cs' (PNode PNull y h r) = plug cs t" "path_before cs' = path_before cs"
  using assms
proof (induction cs t arbitrary: thesis rule: go_left.induct)
  case (1 path ll y hl lr x h r)
  show ?case by (rule "1.IH") (auto intro: "1.prems")
qed auto

lemma go_right_spec:
  assumes "t \<noteq> PNull"
  obtains cs' l y h where "go_right cs t = (cs', PNode l y h PNull)"
    "plug cs' (PNode l y h PNull) = plug cs t" "path_after cs' = path_after cs"
  using assms
proof (induction cs t arbitrary: thesis rule: go_right.induct)
  case (1 path l x h rl y hr rr)
  show ?case by (rule "1.IH") (auto intro: "1.prems")
qed auto

lemma locate_Some:
  "locate a cs t = Some p \<Longrightarrow>
     \<exists>path l h r. p = (path, PNode l a h r) \<and> plug path (PNode l a h r) = plug cs t"
  by (induction a cs t arbitrary: p rule: locate.induct) (fastforce split: if_splits option.splits)+

lemma locate_iff: "locate a cs t \<noteq> None \<longleftrightarrow> a \<in> set (inorder t)"
  by (induction a cs t rule: locate.induct) (auto split: option.splits)

lemma locate_in_tree:
  assumes "a \<in> set (inorder t)"
  obtains path l h r where "locate a [] t = Some (path, PNode l a h r)"
    "plug path (PNode l a h r) = t"
  using assms locate_iff [of a "[]" t] locate_Some [of a "[]" t] by fastforce

lemma locate_split:
  assumes "distinct (inorder t)" "inorder t = us @ a # vs"
  obtains cs l h r where "locate a [] t = Some (cs, PNode l a h r)" "plug cs (PNode l a h r) = t"
    "path_before cs @ inorder l = us" "inorder r @ path_after cs = vs"
proof -
  have "a \<in> set (inorder t)" using assms(2) by simp
  then obtain cs l h r where p: "locate a [] t = Some (cs, PNode l a h r)" "plug cs (PNode l a h r) = t"
    by (rule locate_in_tree)
  then have "inorder t = (path_before cs @ inorder l) @ a # (inorder r @ path_after cs)"
    by (metis inorder.simps(2) inorder_plug append.assoc append_Cons)
  then have "path_before cs @ inorder l = us" "inorder r @ path_after cs = vs"
    using assms distinct_split_unique [of us a vs] by auto
  with p show thesis by (rule that)
qed

subsection \<open>Adding and removing: balance and order\<close>

lemma grown_new_right: "avl (PNode l x h PNull) \<Longrightarrow> grown l h (psync_tree_init_node new)"
  using height_nonneg [of l] by (auto simp: grown_def Let_def)

lemma grown_new_left: "avl (PNode PNull x h r) \<Longrightarrow> grown (psync_tree_init_node new) h r"
  using height_nonneg [of r] by (auto simp: grown_def Let_def)

lemma add_right_leaf:
  assumes "avl (plug cs (PNode l x h PNull))"
  shows "\<exists>t'. psync_tree_go_up_rebalance_add cs (PNode l x h (psync_tree_init_node new)) = Some t' \<and> avl t'
           \<and> inorder t' = path_before cs @ inorder l @ x # new # path_after cs"
proof -
  from assms have "avl (PNode l x h PNull)" "path_avl cs h" by (auto simp: avl_plug_iff)
  from go_up_add_avl [OF grown_new_right [OF this(1)] this(2)] obtain t'
    where t': "psync_tree_go_up_rebalance_add cs (PNode l x h (psync_tree_init_node new)) = Some t'" "avl t'"
    by blast
  from inorder_go_up_add [OF t'(1)] t' show ?thesis by simp
qed

lemma add_left_leaf:
  assumes "avl (plug cs (PNode PNull x h r))"
  shows "\<exists>t'. psync_tree_go_up_rebalance_add cs (PNode (psync_tree_init_node new) x h r) = Some t' \<and> avl t'
           \<and> inorder t' = path_before cs @ new # x # inorder r @ path_after cs"
proof -
  from assms have "avl (PNode PNull x h r)" "path_avl cs h" by (auto simp: avl_plug_iff)
  from go_up_add_avl [OF grown_new_left [OF this(1)] this(2)] obtain t'
    where t': "psync_tree_go_up_rebalance_add cs (PNode (psync_tree_init_node new) x h r) = Some t'" "avl t'"
    by blast
  from inorder_go_up_add [OF t'(1)] t' show ?thesis by simp
qed

lemma add_after_loc_spec:
  assumes "avl (plug cs (PNode l x h r))"
  shows "\<exists>t'. add_after_loc (cs, PNode l x h r) new = Some t' \<and> avl t'
           \<and> inorder t' = path_before cs @ inorder l @ x # new # inorder r @ path_after cs"
proof (cases r)
  case PNull
  then show ?thesis using assms add_right_leaf by simp
next
  case (PNode rl y hr rr)
  obtain cs' z hz b where g: "go_left (InRight l x h # cs) r = (cs', PNode PNull z hz b)"
      "plug cs' (PNode PNull z hz b) = plug (InRight l x h # cs) r"
      "path_before cs' = path_before (InRight l x h # cs)"
    using PNode by (auto intro: go_left_spec [of r "InRight l x h # cs"])
  have "inorder (plug cs' (PNode PNull z hz b)) = inorder (plug (InRight l x h # cs) r)"
    using g(2) by simp
  then have "z # inorder b @ path_after cs' = inorder r @ path_after cs" using g(3) by simp
  then show ?thesis
    using add_left_leaf [of cs' z hz b new] g assms PNode by simp
qed

lemma add_before_loc_spec:
  assumes "avl (plug cs (PNode l x h r))"
  shows "\<exists>t'. add_before_loc (cs, PNode l x h r) new = Some t' \<and> avl t'
           \<and> inorder t' = path_before cs @ inorder l @ new # x # inorder r @ path_after cs"
proof (cases l)
  case PNull
  then show ?thesis using assms add_left_leaf by simp
next
  case (PNode ll y hl lr)
  obtain cs' a z hz where g: "go_right (InLeft x h r # cs) l = (cs', PNode a z hz PNull)"
      "plug cs' (PNode a z hz PNull) = plug (InLeft x h r # cs) l"
      "path_after cs' = path_after (InLeft x h r # cs)"
    using PNode by (auto intro: go_right_spec [of l "InLeft x h r # cs"])
  have "inorder (plug cs' (PNode a z hz PNull)) = inorder (plug (InLeft x h r # cs) l)"
    using g(2) by simp
  then have "path_before cs' @ inorder a @ [z] = path_before cs @ inorder l" using g(3) by simp
  then have eq: "path_before cs' @ inorder a @ z # ys = path_before cs @ inorder l @ ys" for ys
    by (metis append.assoc append_Cons append_Nil)
  from assms g(2) obtain t' where t': "avl t'"
      "psync_tree_go_up_rebalance_add cs' (PNode a z hz (psync_tree_init_node new)) = Some t'"
      "inorder t' = path_before cs' @ inorder a @ z # new # path_after cs'"
    using add_right_leaf [of cs' a z hz new] by auto
  have "inorder t' = path_before cs @ inorder l @ new # path_after cs'"
    unfolding t'(3) by (rule eq)
  then show ?thesis using t'(1,2) g PNode by simp
qed

lemma shrunk_init: "avl (PNode l x h r) \<Longrightarrow> shrunk l h r"
  by (auto simp: shrunk_def Let_def)

lemma replace_me_with_spec:
  assumes "path_avl cs h" "avl t" "psync_tree_height t = h \<or> psync_tree_height t = h - 1"
  shows "\<exists>t'. psync_tree_replace_me_with cs t = Some t' \<and> avl t'
           \<and> inorder t' = path_before cs @ inorder t @ path_after cs"
proof (cases cs)
  case Nil
  show ?thesis
  proof (cases t)
    case PNull
    then show ?thesis using Nil by simp
  next
    case (PNode l x h' r)
    obtain t' where t': "psync_tree_go_up_rebalance_del [] t = Some t'" "avl t'"
      using PNode assms(2) go_up_del_avl [OF shrunk_init, of l x h' r "[]"] by auto
    then show ?thesis using PNode Nil inorder_go_up_del [OF t'(1)] by simp
  qed
next
  case (Cons c ds)
  obtain t' where t': "psync_tree_go_up_rebalance_del ds (plug1 c t) = Some t'" "avl t'"
    using shrunk_parent [of c ds h t] go_up_del_avl assms Cons by metis
  then show ?thesis using Cons inorder_go_up_del [OF t'(1)] by simp
qed

lemma plug_append: "plug (cs @ ds) t = plug ds (plug cs t)"
  by (induction cs arbitrary: t) auto

text \<open>The node that replaces a removed one: its slot, seen from the replaced node.\<close>

lemma del_two_children:
  assumes "avl (plug cs (PNode l x h r))" "l \<noteq> PNull" "r \<noteq> PNull"
  shows "\<exists>t'. del_loc (cs, PNode l x h r) = Some t' \<and> avl t'
           \<and> inorder t' = path_before cs @ inorder l @ inorder r @ path_after cs"
proof (cases "psync_tree_height l > psync_tree_height r")
  case True
  obtain inner ll el hel where g: "go_right [] l = (inner, PNode ll el hel PNull)"
      "plug inner (PNode ll el hel PNull) = plug [] l" "path_after inner = path_after []"
    using assms(2) by (auto intro: go_right_spec [of l "[]"])
  have l: "inorder l = path_before inner @ inorder ll @ [el]"
    using arg_cong [OF g(2), of inorder] g(3) by simp
  have "plug (inner @ InLeft el h r # cs) (PNode ll el hel PNull) = plug cs (PNode l el h r)"
    using g(2) by (simp add: plug_append)
  moreover have "avl (plug cs (PNode l el h r))" using assms(1) by (auto simp: avl_plug_iff)
  ultimately have "path_avl (inner @ InLeft el h r # cs) hel" "avl (PNode ll el hel PNull)"
    using avl_plug_iff [of "inner @ InLeft el h r # cs" "PNode ll el hel PNull"] by auto
  then obtain t' where t': "psync_tree_replace_me_with (inner @ InLeft el h r # cs) ll = Some t'" "avl t'"
      "inorder t' = path_before (inner @ InLeft el h r # cs) @ inorder ll @ path_after (inner @ InLeft el h r # cs)"
    using replace_me_with_spec [of "inner @ InLeft el h r # cs" hel ll] height_nonneg [of ll] by auto
  then show ?thesis using assms(2,3) True g(1,3) l by simp
next
  case False
  obtain inner el hel rr where g: "go_left [] r = (inner, PNode PNull el hel rr)"
      "plug inner (PNode PNull el hel rr) = plug [] r" "path_before inner = path_before []"
    using assms(3) by (auto intro: go_left_spec [of r "[]"])
  have r: "inorder r = el # inorder rr @ path_after inner"
    using arg_cong [OF g(2), of inorder] g(3) by simp
  have "plug (inner @ InRight l el h # cs) (PNode PNull el hel rr) = plug cs (PNode l el h r)"
    using g(2) by (simp add: plug_append)
  moreover have "avl (plug cs (PNode l el h r))" using assms(1) by (auto simp: avl_plug_iff)
  ultimately have "path_avl (inner @ InRight l el h # cs) hel" "avl (PNode PNull el hel rr)"
    using avl_plug_iff [of "inner @ InRight l el h # cs" "PNode PNull el hel rr"] by auto
  then obtain t' where t': "psync_tree_replace_me_with (inner @ InRight l el h # cs) rr = Some t'" "avl t'"
      "inorder t' = path_before (inner @ InRight l el h # cs) @ inorder rr @ path_after (inner @ InRight l el h # cs)"
    using replace_me_with_spec [of "inner @ InRight l el h # cs" hel rr] height_nonneg [of rr] by auto
  then show ?thesis using assms(2,3) False g(1,3) r by simp
qed

lemma del_loc_spec:
  assumes "avl (plug cs (PNode l x h r))"
  shows "\<exists>t'. del_loc (cs, PNode l x h r) = Some t' \<and> avl t'
           \<and> inorder t' = path_before cs @ inorder l @ inorder r @ path_after cs"
proof (cases "l \<noteq> PNull \<and> r \<noteq> PNull")
  case True
  then have "l \<noteq> PNull" "r \<noteq> PNull" by simp_all
  with assms show ?thesis by (rule del_two_children)
next
  case False
  have avl: "avl (PNode l x h r)" and path: "path_avl cs h" using assms by (auto simp: avl_plug_iff)
  show ?thesis
  proof (cases "l = PNull")
    case True
    then show ?thesis
      using avl replace_me_with_spec [OF path, of r] height_nonneg [of r] by auto
  next
    case not_null: False
    then have "r = PNull" using False by simp
    then show ?thesis
      using not_null avl replace_me_with_spec [OF path, of l] height_nonneg [of l] by auto
  qed
qed

subsection \<open>The contract of the tree as a container\<close>

text \<open>What the client code relies on: nodes are kept in a sequence, a node is added right after or right
  before a given one (at an end for \<^verbatim>\<open>NULL\<close>), removal takes out exactly one node, and no operation faults.
  Node identities are distinct.\<close>

locale node_sequence =
  fixes seq :: "'t \<Rightarrow> 'a list" and inv :: "'t \<Rightarrow> bool"
    and ins_after :: "'t \<Rightarrow> 'a option \<Rightarrow> 'a \<Rightarrow> 't option"
    and ins_before :: "'t \<Rightarrow> 'a option \<Rightarrow> 'a \<Rightarrow> 't option"
    and del :: "'t \<Rightarrow> 'a \<Rightarrow> 't option"
  assumes inv_distinct: "inv t \<Longrightarrow> distinct (seq t)"
    and ins_after_node: "\<lbrakk>inv t; seq t = us @ a # vs; x \<notin> set (seq t)\<rbrakk>
      \<Longrightarrow> \<exists>t'. ins_after t (Some a) x = Some t' \<and> inv t' \<and> seq t' = us @ a # x # vs"
    and ins_before_node: "\<lbrakk>inv t; seq t = us @ a # vs; x \<notin> set (seq t)\<rbrakk>
      \<Longrightarrow> \<exists>t'. ins_before t (Some a) x = Some t' \<and> inv t' \<and> seq t' = us @ x # a # vs"
    and ins_after_null: "\<lbrakk>inv t; x \<notin> set (seq t)\<rbrakk>
      \<Longrightarrow> \<exists>t'. ins_after t None x = Some t' \<and> inv t' \<and> seq t' = x # seq t"
    and ins_before_null: "\<lbrakk>inv t; x \<notin> set (seq t)\<rbrakk>
      \<Longrightarrow> \<exists>t'. ins_before t None x = Some t' \<and> inv t' \<and> seq t' = seq t @ [x]"
    and del_node: "\<lbrakk>inv t; seq t = us @ a # vs\<rbrakk>
      \<Longrightarrow> \<exists>t'. del t a = Some t' \<and> inv t' \<and> seq t' = us @ vs"
begin

lemma del_after_ins_after:
  assumes "inv t" "a \<in> set (seq t)" "x \<notin> set (seq t)"
  shows "\<exists>t' t''. ins_after t (Some a) x = Some t' \<and> del t' x = Some t'' \<and> inv t'' \<and> seq t'' = seq t"
proof -
  obtain us vs where s: "seq t = us @ a # vs" using assms(2) by (rule in_set_splitE)
  obtain t' where t': "ins_after t (Some a) x = Some t'" "inv t'" "seq t' = us @ a # x # vs"
    using ins_after_node [OF assms(1) s assms(3)] by blast
  obtain t'' where "del t' x = Some t''" "inv t''" "seq t'' = (us @ [a]) @ vs"
    using del_node [of t' "us @ [a]" x vs] t' by auto
  with t' s show ?thesis by auto
qed

lemma del_all_empties:
  "\<lbrakk>inv t; distinct as; set as = set (seq t)\<rbrakk> \<Longrightarrow> \<exists>t'. fold_opt del t as = Some t' \<and> inv t' \<and> seq t' = []"
proof (induction "as" arbitrary: t)
  case Nil
  then show ?case by simp
next
  case (Cons a "as")
  from Cons.prems(3) have "a \<in> set (seq t)" by auto
  then obtain us vs where s: "seq t = us @ a # vs" by (rule in_set_splitE)
  obtain t' where t': "del t a = Some t'" "inv t'" "seq t' = us @ vs"
    using del_node [OF Cons.prems(1) s] by blast
  have "set as = set (seq t')"
    using Cons.prems inv_distinct [OF Cons.prems(1)] s t'(3) by auto
  with Cons.IH [OF t'(2)] Cons.prems(2) t'(1) show ?case by simp
qed

end

definition tree_ok :: "'a ptree \<Rightarrow> bool" where
  "tree_ok t = (avl t \<and> distinct (inorder t))"

lemma add_after_node_spec:
  assumes "tree_ok t" "inorder t = us @ a # vs"
  shows "\<exists>t'. psync_tree_get_add_after t (Some a) x = Some t' \<and> avl t' \<and> inorder t' = us @ a # x # vs"
proof -
  from assms obtain cs l h r where p: "locate a [] t = Some (cs, PNode l a h r)" "plug cs (PNode l a h r) = t"
      "path_before cs @ inorder l = us" "inorder r @ path_after cs = vs"
    unfolding tree_ok_def by (blast intro: locate_split)
  moreover have "avl (plug cs (PNode l a h r))" using p(2) assms(1) by (simp add: tree_ok_def)
  ultimately show ?thesis
    using add_after_loc_spec [of cs l a h r x] p assms(2) by (auto simp: psync_tree_get_add_after_def)
qed

lemma add_before_node_spec:
  assumes "tree_ok t" "inorder t = us @ a # vs"
  shows "\<exists>t'. psync_tree_get_add_before t (Some a) x = Some t' \<and> avl t' \<and> inorder t' = us @ x # a # vs"
proof -
  from assms obtain cs l h r where p: "locate a [] t = Some (cs, PNode l a h r)" "plug cs (PNode l a h r) = t"
      "path_before cs @ inorder l = us" "inorder r @ path_after cs = vs"
    unfolding tree_ok_def by (blast intro: locate_split)
  moreover have "avl (plug cs (PNode l a h r))" using p(2) assms(1) by (simp add: tree_ok_def)
  ultimately show ?thesis
    using add_before_loc_spec [of cs l a h r x] p assms(2) by (auto simp: psync_tree_get_add_before_def)
qed

lemma add_after_null_spec:
  assumes "avl t"
  shows "\<exists>t'. psync_tree_get_add_after t None x = Some t' \<and> avl t' \<and> inorder t' = x # inorder t"
proof (cases "t = PNull")
  case True
  then show ?thesis by (simp add: psync_tree_get_add_after_def)
next
  case False
  obtain cs y h r where g: "go_left [] t = (cs, PNode PNull y h r)"
      "plug cs (PNode PNull y h r) = plug [] t" "path_before cs = path_before []"
    using False by (auto intro: go_left_spec [of t "[]"])
  have "avl (plug cs (PNode PNull y h r))" using g(2) assms by simp
  moreover have "inorder t = y # inorder r @ path_after cs"
    using arg_cong [OF g(2), of inorder] g(3) by simp
  ultimately show ?thesis
    using add_before_loc_spec [of cs PNull y h r x] g False
    by (auto simp: psync_tree_get_add_after_def psync_tree_get_first_def)
qed

lemma add_before_null_spec:
  assumes "avl t"
  shows "\<exists>t'. psync_tree_get_add_before t None x = Some t' \<and> avl t' \<and> inorder t' = inorder t @ [x]"
proof (cases "t = PNull")
  case True
  then show ?thesis by (simp add: psync_tree_get_add_before_def)
next
  case False
  obtain cs l y h where g: "go_right [] t = (cs, PNode l y h PNull)"
      "plug cs (PNode l y h PNull) = plug [] t" "path_after cs = path_after []"
    using False by (auto intro: go_right_spec [of t "[]"])
  have "avl (plug cs (PNode l y h PNull))" using g(2) assms by simp
  moreover have "inorder t = path_before cs @ inorder l @ [y]"
    using arg_cong [OF g(2), of inorder] g(3) by simp
  ultimately show ?thesis
    using add_after_loc_spec [of cs l y h PNull x] g False
    by (auto simp: psync_tree_get_add_before_def psync_tree_get_last_def)
qed

lemma del_node_spec:
  assumes "tree_ok t" "inorder t = us @ a # vs"
  shows "\<exists>t'. psync_tree_get_del t a = Some t' \<and> avl t' \<and> inorder t' = us @ vs"
proof -
  from assms obtain cs l h r where p: "locate a [] t = Some (cs, PNode l a h r)" "plug cs (PNode l a h r) = t"
      "path_before cs @ inorder l = us" "inorder r @ path_after cs = vs"
    unfolding tree_ok_def by (blast intro: locate_split)
  moreover have "avl (plug cs (PNode l a h r))" using p(2) assms(1) by (simp add: tree_ok_def)
  ultimately show ?thesis
    using del_loc_spec [of cs l a h r] p by (auto simp: psync_tree_get_del_def simp del: del_loc.simps)
qed

lemma tree_ok_insert: "tree_ok t \<Longrightarrow> x \<notin> set (inorder t) \<Longrightarrow> avl t' \<Longrightarrow>
  mset (inorder t') = add_mset x (mset (inorder t)) \<Longrightarrow> tree_ok t'"
  by (metis distinct.simps(2) mset.simps(2) mset_eq_imp_distinct_iff tree_ok_def)

interpretation avl_seq: node_sequence inorder tree_ok psync_tree_get_add_after psync_tree_get_add_before
  psync_tree_get_del
proof (unfold_locales, goal_cases)
  case (1 t)
  then show ?case by (simp add: tree_ok_def)
next
  case (2 t us a vs x)
  then show ?case using add_after_node_spec [of t us a vs x] by (auto intro!: tree_ok_insert [of t x])
next
  case (3 t us a vs x)
  then show ?case using add_before_node_spec [of t us a vs x] by (auto intro!: tree_ok_insert [of t x])
next
  case (4 t x)
  then show ?case using add_after_null_spec [of t x] by (auto simp: tree_ok_def)
next
  case (5 t x)
  then show ?case using add_before_null_spec [of t x] by (auto simp: tree_ok_def)
next
  case (6 t us a vs)
  then show ?case using del_node_spec [of t us a vs] by (auto simp: tree_ok_def)
qed

subsection \<open>Iteration\<close>

lemma up_from_right_spec:
  assumes "t \<noteq> PNull"
  shows "case up_from_right (cs, t) of
           None \<Rightarrow> path_after cs = []
         | Some (cs', t') \<Rightarrow> \<exists>l y h r. t' = PNode l y h r \<and> path_after cs = y # inorder r @ path_after cs'"
  using assms
proof (induction cs arbitrary: t)
  case Nil
  then show ?case by simp
next
  case (Cons c cs)
  show ?case
  proof (cases c)
    case (InLeft x h r)
    then show ?thesis using Cons.prems by simp
  next
    case (InRight l x h)
    then show ?thesis using Cons.IH [of "PNode l x h t"] by (auto split: option.splits)
  qed
qed

lemma get_next_spec:
  "case psync_tree_get_next (cs, PNode l x h r) of
     None \<Rightarrow> inorder r @ path_after cs = []
   | Some (cs', t') \<Rightarrow> \<exists>l' y h' r'. t' = PNode l' y h' r'
         \<and> inorder r @ path_after cs = y # inorder r' @ path_after cs'"
proof (cases r)
  case PNull
  then show ?thesis using up_from_right_spec [of "PNode l x h r" cs] by (auto split: option.splits)
next
  case (PNode rl y hr rr)
  obtain cs' z hz b where g: "go_left (InRight l x h # cs) r = (cs', PNode PNull z hz b)"
      "plug cs' (PNode PNull z hz b) = plug (InRight l x h # cs) r"
      "path_before cs' = path_before (InRight l x h # cs)"
    using PNode by (auto intro: go_left_spec [of r "InRight l x h # cs"])
  have "inorder r @ path_after cs = z # inorder b @ path_after cs'"
    using arg_cong [OF g(2), of inorder] g(3) by simp
  then show ?thesis using g(1) PNode by simp
qed

lemma visit_next_spec: "visit_next n (Some (cs, PNode l x h r)) = take n (x # inorder r @ path_after cs)"
proof (induction n arbitrary: cs l x h r)
  case 0
  show ?case by simp
next
  case (Suc n)
  show ?case
  proof (cases "psync_tree_get_next (cs, PNode l x h r)")
    case None
    then show ?thesis using get_next_spec [where cs = cs and l = l and x = x and h = h and r = r] by (cases n) auto
  next
    case (Some p)
    then show ?thesis using get_next_spec [where cs = cs and l = l and x = x and h = h and r = r] Suc
      by (auto split: prod.splits simp del: take_append)
  qed
qed

lemma length_inorder: "length (inorder t) = psync_tree_count t"
  by (induction t) auto

lemma for_each_inorder: "psync_tree_for_each t = inorder t"
proof (cases "t = PNull")
  case True
  then show ?thesis by (simp add: psync_tree_for_each_def)
next
  case False
  obtain cs y h r where g: "go_left [] t = (cs, PNode PNull y h r)"
      "plug cs (PNode PNull y h r) = plug [] t" "path_before cs = path_before []"
    using False by (auto intro: go_left_spec [of t "[]"])
  have "inorder t = y # inorder r @ path_after cs"
    using arg_cong [OF g(2), of inorder] g(3) by simp
  then show ?thesis
    using g(1) False visit_next_spec [of "psync_tree_count t" cs PNull y h r]
    by (simp add: psync_tree_for_each_def psync_tree_get_first_def flip: length_inorder)
qed

text \<open>What the \<open>_safe\<close> iteration still visits after the subtree in a slot: a parent only once both its
  sides are done.\<close>

fun post_after :: "'a crumb list \<Rightarrow> 'a list" where
  "post_after [] = []"
| "post_after (InLeft x h r # cs) = postorder r @ x # post_after cs"
| "post_after (InRight l x h # cs) = x # post_after cs"

lemma go_leaf_spec:
  "t \<noteq> PNull \<Longrightarrow> \<exists>cs' y h. go_leaf cs t = (cs', PNode PNull y h PNull)
      \<and> y # post_after cs' = postorder t @ post_after cs"
  by (induction cs t rule: go_leaf.induct) auto

lemma get_next_safe_spec:
  assumes "t \<noteq> PNull"
  shows "case psync_tree_get_next_safe (cs, t) of
           None \<Rightarrow> post_after cs = []
         | Some (cs', t') \<Rightarrow> \<exists>l y h r. t' = PNode l y h r \<and> post_after cs = y # post_after cs'"
proof (cases "(cs, t)" rule: psync_tree_get_next_safe.cases)
  case (4 x h v va vb vc cs' t')
  then show ?thesis
    using go_leaf_spec [of "PNode v va vb vc" "InRight t x h # cs'"] by auto
qed (use assms in auto)

lemma visit_next_safe_spec:
  "visit_next_safe n (Some (cs, PNode l x h r)) = take n (x # post_after cs)"
proof (induction n arbitrary: cs l x h r)
  case 0
  show ?case by simp
next
  case (Suc n)
  show ?case
  proof (cases "psync_tree_get_next_safe (cs, PNode l x h r)")
    case None
    then show ?thesis using get_next_safe_spec [of "PNode l x h r" cs] by (cases n) auto
  next
    case (Some p)
    then show ?thesis using get_next_safe_spec [of "PNode l x h r" cs] Suc
      by (auto split: prod.splits simp del: take_append)
  qed
qed

lemma length_postorder: "length (postorder t) = psync_tree_count t"
  by (induction t) auto

lemma for_each_safe_postorder: "psync_tree_for_each_element_call_safe t = postorder t"
proof (cases "t = PNull")
  case True
  then show ?thesis by (simp add: psync_tree_for_each_element_call_safe_def)
next
  case False
  obtain cs y h where g: "go_leaf [] t = (cs, PNode PNull y h PNull)" "y # post_after cs = postorder t"
    using go_leaf_spec [OF False, of "[]"] by auto
  then show ?thesis
    using False visit_next_safe_spec [of "psync_tree_count t" cs PNull y h PNull]
    by (simp add: psync_tree_for_each_element_call_safe_def psync_tree_get_first_safe_def
        flip: length_postorder)
qed

lemma up_from_left_spec:
  assumes "t \<noteq> PNull"
  shows "case up_from_left (cs, t) of
           None \<Rightarrow> path_before cs = []
         | Some (cs', t') \<Rightarrow> \<exists>l y h r. t' = PNode l y h r \<and> path_before cs = path_before cs' @ inorder l @ [y]"
  using assms
proof (induction cs arbitrary: t)
  case Nil
  then show ?case by simp
next
  case (Cons c cs)
  show ?case
  proof (cases c)
    case (InLeft x h r)
    then show ?thesis using Cons.IH [of "PNode t x h r"] by (auto split: option.splits)
  next
    case (InRight l x h)
    then show ?thesis using Cons.prems by simp
  qed
qed

lemma get_prev_spec:
  "case psync_tree_get_prev (cs, PNode l x h r) of
     None \<Rightarrow> path_before cs @ inorder l = []
   | Some (cs', t') \<Rightarrow> \<exists>l' y h' r'. t' = PNode l' y h' r'
         \<and> path_before cs @ inorder l = path_before cs' @ inorder l' @ [y]"
proof (cases l)
  case PNull
  then show ?thesis using up_from_left_spec [of "PNode l x h r" cs] by (auto split: option.splits)
next
  case (PNode ll y hl lr)
  obtain cs' a z hz where g: "go_right (InLeft x h r # cs) l = (cs', PNode a z hz PNull)"
      "plug cs' (PNode a z hz PNull) = plug (InLeft x h r # cs) l"
      "path_after cs' = path_after (InLeft x h r # cs)"
    using PNode by (auto intro: go_right_spec [of l "InLeft x h r # cs"])
  have "path_before cs @ inorder l = path_before cs' @ inorder a @ [z]"
    using arg_cong [OF g(2), of inorder] g(3) by simp
  then show ?thesis using g(1) PNode by simp
qed

lemma next_node_seq:
  assumes "distinct (inorder t)" "inorder t = us @ a # vs"
  shows "next_node t a = (case vs of [] \<Rightarrow> None | v # _ \<Rightarrow> Some v)"
proof -
  from assms obtain cs l h r where p: "locate a [] t = Some (cs, PNode l a h r)" "inorder r @ path_after cs = vs"
    by (rule locate_split)
  then show ?thesis
    using get_next_spec [where cs = cs and l = l and x = a and h = h and r = r]
    by (auto simp: next_node_def split: option.splits list.splits)
qed

lemma prev_node_seq:
  assumes "distinct (inorder t)" "inorder t = us @ a # vs"
  shows "prev_node t a = (if us = [] then None else Some (last us))"
proof -
  from assms obtain cs l h r where p: "locate a [] t = Some (cs, PNode l a h r)" "path_before cs @ inorder l = us"
    by (rule locate_split)
  then show ?thesis
    using get_prev_spec [where cs = cs and l = l and x = a and h = h and r = r]
    by (auto simp: prev_node_def split: option.splits)
qed

lemma last_node_seq: "last_node t = (if inorder t = [] then None else Some (last (inorder t)))"
proof (cases "t = PNull")
  case True
  then show ?thesis by (simp add: last_node_def psync_tree_get_last_def)
next
  case False
  obtain cs l y h where g: "go_right [] t = (cs, PNode l y h PNull)"
      "plug cs (PNode l y h PNull) = plug [] t" "path_after cs = path_after []"
    using False by (auto intro: go_right_spec [of t "[]"])
  have "inorder t = path_before cs @ inorder l @ [y]"
    using arg_cong [OF g(2), of inorder] g(3) by simp
  then show ?thesis using g(1) False by (simp add: last_node_def psync_tree_get_last_def)
qed

subsection \<open>Ordered insertion, slots and depth\<close>

lemma takeWhile_le_sorted:
  fixes key :: "'a \<Rightarrow> 'b::linorder"
  assumes "sorted (map key (xs @ y # ys))"
  shows "key new < key y \<Longrightarrow> takeWhile (\<lambda>z. key z \<le> key new) (xs @ y # ys) = takeWhile (\<lambda>z. key z \<le> key new) xs"
    and "key new < key y \<Longrightarrow> dropWhile (\<lambda>z. key z \<le> key new) (xs @ y # ys) = dropWhile (\<lambda>z. key z \<le> key new) xs @ y # ys"
    and "\<not> key new < key y \<Longrightarrow> takeWhile (\<lambda>z. key z \<le> key new) (xs @ y # ys) = xs @ y # takeWhile (\<lambda>z. key z \<le> key new) ys"
    and "\<not> key new < key y \<Longrightarrow> dropWhile (\<lambda>z. key z \<le> key new) (xs @ y # ys) = dropWhile (\<lambda>z. key z \<le> key new) ys"
  using assms by (induction xs) (auto simp: not_less)

lemma get_add_search_spec:
  fixes key :: "'a \<Rightarrow> 'b::linorder"
  assumes "\<And>x y. cmp x y < 0 \<longleftrightarrow> key x < key y"
  shows "\<lbrakk>t \<noteq> PNull; avl (plug cs t); sorted (map key (inorder t))\<rbrakk> \<Longrightarrow>
    \<exists>t'. get_add_search cmp new cs t = Some t' \<and> avl t' \<and> inorder t' =
      path_before cs @ takeWhile (\<lambda>z. key z \<le> key new) (inorder t) @ new #
      dropWhile (\<lambda>z. key z \<le> key new) (inorder t) @ path_after cs"
proof (induction t arbitrary: cs)
  case PNull
  then show ?case by simp
next
  case (PNode l x h r)
  have srt: "sorted (map key (inorder l @ x # inorder r))" using PNode.prems(3) by simp
  then have sub: "sorted (map key (inorder l))" "sorted (map key (inorder r))"
    by (simp_all add: sorted_append)
  show ?case
  proof (cases "key new < key x")
    case True
    then show ?thesis
      using PNode.IH(1) [of "InLeft x h r # cs"] PNode.prems sub takeWhile_le_sorted(1,2) [OF srt True]
        add_before_loc_spec [of cs l x h r new] assms by auto
  next
    case False
    then show ?thesis
      using PNode.IH(2) [of "InRight l x h # cs"] PNode.prems sub takeWhile_le_sorted(3,4) [OF srt False]
        add_after_loc_spec [of cs l x h r new] assms by auto
  qed
qed

lemma get_add_spec:
  fixes key :: "'a \<Rightarrow> 'b::linorder"
  assumes "\<And>x y. cmp x y < 0 \<longleftrightarrow> key x < key y" "avl t" "sorted (map key (inorder t))"
  shows "\<exists>t'. psync_tree_get_add cmp t new = Some t' \<and> avl t' \<and> inorder t' =
      takeWhile (\<lambda>z. key z \<le> key new) (inorder t) @ new # dropWhile (\<lambda>z. key z \<le> key new) (inorder t)"
  using assms get_add_search_spec [of cmp key t "[]" new]
  by (cases "t = PNull") (auto simp: psync_tree_get_add_def psync_tree_get_add_after_def)

lemma sorted_insert_after_le:
  fixes key :: "'a \<Rightarrow> 'b::linorder"
  assumes "sorted (map key xs)"
  shows "sorted (map key (takeWhile (\<lambda>z. key z \<le> key new) xs @ new # dropWhile (\<lambda>z. key z \<le> key new) xs))"
  using assms
proof (induction xs)
  case Nil
  show ?case by simp
next
  case (Cons x xs)
  have "set (takeWhile (\<lambda>z. key z \<le> key new) xs) \<subseteq> set xs"
    "set (dropWhile (\<lambda>z. key z \<le> key new) xs) \<subseteq> set xs"
    by (auto dest: set_takeWhileD set_dropWhileD)
  then show ?case
  proof (cases "key x \<le> key new")
    case True
    then show ?thesis using Cons \<open>set (takeWhile _ xs) \<subseteq> set xs\<close> \<open>set (dropWhile _ xs) \<subseteq> set xs\<close> by auto
  next
    case False
    then show ?thesis using Cons.prems by auto
  qed
qed

lemma added_at_spec:
  assumes "avl (plug cs PNull)"
  shows "\<exists>t. psync_tree_get_added_at cs new = Some t \<and> avl t \<and> inorder t = path_before cs @ new # path_after cs"
proof (cases cs)
  case Nil
  then show ?thesis by simp
next
  case (Cons c ds)
  show ?thesis
  proof (cases c)
    case (InLeft x h r)
    then show ?thesis using assms Cons add_left_leaf [of ds x h r new] by simp
  next
    case (InRight l x h)
    then show ?thesis using assms Cons add_right_leaf [of ds l x h new] by simp
  qed
qed

lemma avl_count_bound: "avl t \<Longrightarrow> 2 ^ (nat (psync_tree_height t) div 2) \<le> Suc (psync_tree_count t)"
proof (induction t)
  case PNull
  show ?case by simp
next
  case (PNode l x h r)
  let ?hl = "nat (psync_tree_height l)" and ?hr = "nat (psync_tree_height r)"
  have nn: "0 \<le> psync_tree_height l" "0 \<le> psync_tree_height r"
    using PNode.prems by (auto intro: height_nonneg)
  have IH: "2 ^ (?hl div 2) \<le> Suc (psync_tree_count l)" "2 ^ (?hr div 2) \<le> Suc (psync_tree_count r)"
    using PNode by auto
  show ?case
  proof (cases "nat h div 2")
    case 0
    then show ?thesis by simp
  next
    case (Suc m)
    have "m \<le> ?hl div 2" "m \<le> ?hr div 2" using Suc PNode.prems nn by auto
    then have "(2::nat) ^ m \<le> 2 ^ (?hl div 2)" "(2::nat) ^ m \<le> 2 ^ (?hr div 2)"
      by (simp_all add: power_increasing)
    then have "(2::nat) ^ m \<le> Suc (psync_tree_count l)" "(2::nat) ^ m \<le> Suc (psync_tree_count r)"
      using IH by (meson order_trans)+
    with Suc show ?thesis by simp
  qed
qed

subsection \<open>Properties\<close>

text \<open>C1: Removing a node that is in the tree never dereferences \<^verbatim>\<open>NULL\<close> or fails an assertion, keeps the
  tree balanced with correct stored heights, and takes out that node and nothing else, keeping the order.\<close>

theorem ptree_del_correct:
  assumes "avl t" "distinct (inorder t)" "a \<in> set (inorder t)"
  shows "\<exists>t'. psync_tree_get_del t a = Some t' \<and> avl t' \<and> inorder t' = remove1 a (inorder t)"
proof -
  obtain us vs where s: "inorder t = us @ a # vs" using assms(3) by (rule in_set_splitE)
  with assms obtain t' where "psync_tree_get_del t a = Some t'" "avl t'" "inorder t' = us @ vs"
    using avl_seq.del_node [of t us a vs] by (auto simp: tree_ok_def)
  with s assms(2) show ?thesis by (auto simp: remove1_append)
qed

text \<open>A witness: removing the root of a tree of four nodes, whose right side supplies the replacement.\<close>

theorem ptree_del_correct_witness:
  "\<exists>t'. psync_tree_get_del
      (PNode (PNode PNull (1::nat) 1 PNull) 2 3 (PNode PNull 3 2 (PNode PNull 4 1 PNull))) 2 = Some t'
     \<and> avl t' \<and> inorder t' = remove1 2 [1, 2, 3, 4]"
  using ptree_del_correct [of "PNode (PNode PNull (1::nat) 1 PNull) 2 3 (PNode PNull 3 2 (PNode PNull 4 1 PNull))" 2]
  by simp

text \<open>C2: Inserting with a comparison function keeps an ordered tree ordered and balanced, places the new
  node after every node that does not compare greater, and never faults.\<close>

theorem ptree_add_sorted:
  fixes key :: "'a \<Rightarrow> 'b::linorder"
  assumes "\<And>x y. cmp x y < 0 \<longleftrightarrow> key x < key y" "avl t" "sorted (map key (inorder t))"
  shows "\<exists>t'. psync_tree_get_add cmp t new = Some t' \<and> avl t' \<and> sorted (map key (inorder t'))
     \<and> inorder t' = takeWhile (\<lambda>z. key z \<le> key new) (inorder t) @ new
                      # dropWhile (\<lambda>z. key z \<le> key new) (inorder t)"
  using get_add_spec [OF assms, of new] sorted_insert_after_le [OF assms(3), of new] by auto

theorem ptree_add_sorted_witness:
  "\<exists>t'. psync_tree_get_add (\<lambda>x y. x - y) (PNode PNull (1::int) 2 (PNode PNull 2 1 PNull)) 3 = Some t'
     \<and> avl t' \<and> inorder t' = [1, 2, 3]"
  using ptree_add_sorted [of "\<lambda>x y. x - y" "\<lambda>x. x" "PNode PNull (1::int) 2 (PNode PNull 2 1 PNull)" 3]
  by auto




end
