(* ===== verification/Pintervaltree.thy ===== *)
theory Pintervaltree
  imports Ptree
begin

section \<open>The interval tree (\<open>pintervaltree.c\<close>, \<open>pintervaltree.h\<close>)\<close>

text \<open>
  Sets of 64-bit offsets (the downloaded or modified parts of a file, the free parts of a locked memory
  range) kept as a tree of half-open intervals.  The tree orders node addresses; the bounds
  \<^verbatim>\<open>from\<close> and \<^verbatim>\<open>to\<close> of a node are in a store indexed by the address, since the code changes them
  in place while it holds pointers to nodes.  Operations that allocate take the address that
  \<^verbatim>\<open>psync_new\<close> returns; at most one node is allocated per call.  The loops are bounded by the number of
  nodes, and the theorems show that the bound is never reached: every call returns.
\<close>

subsection \<open>State\<close>

record itree =
  root :: "addr ptree"
  ifrom :: "addr \<Rightarrow> u64"
  ito :: "addr \<Rightarrow> u64"

definition empty_itree :: itree where
  "empty_itree = \<lparr>root = PNull, ifrom = (\<lambda>_. 0), ito = (\<lambda>_. 0)\<rparr>"

definition set_from :: "itree \<Rightarrow> addr \<Rightarrow> u64 \<Rightarrow> itree" where
  "set_from it e v = it\<lparr>ifrom := (ifrom it)(e := v)\<rparr>"

definition set_to :: "itree \<Rightarrow> addr \<Rightarrow> u64 \<Rightarrow> itree" where
  "set_to it e v = it\<lparr>ito := (ito it)(e := v)\<rparr>"

text \<open>\<open>psync_interval_new\<close>: the node at the fresh address gets its bounds.\<close>

definition psync_interval_new :: "itree \<Rightarrow> addr \<Rightarrow> u64 \<Rightarrow> u64 \<Rightarrow> itree" where
  "psync_interval_new it new from to = set_to (set_from it new from) new to"

definition psync_interval_tree_del :: "itree \<Rightarrow> addr \<Rightarrow> itree option" where
  "psync_interval_tree_del it e = map_option (\<lambda>r. it\<lparr>root := r\<rparr>) (psync_tree_get_del (root it) e)"

subsection \<open>Adding an interval\<close>

fun consume_intervals :: "nat \<Rightarrow> itree \<Rightarrow> addr \<Rightarrow> itree option" where
  "consume_intervals 0 it e = None"
| "consume_intervals (Suc n) it e =
     (case next_node (root it) e of
        None \<Rightarrow> Some it
      | Some nxt \<Rightarrow>
          if ifrom it nxt > ito it e then Some it
          else Option.bind (psync_interval_tree_del it nxt)
                 (\<lambda>it'. if ito it nxt \<ge> ito it e then Some (set_to it' e (ito it nxt))
                        else consume_intervals n it' e))"

definition psync_interval_tree_consume_intervals :: "itree \<Rightarrow> addr \<Rightarrow> itree option" where
  "psync_interval_tree_consume_intervals it e = consume_intervals (Suc (psync_tree_count (root it))) it e"

text \<open>The search loop of \<open>psync_interval_tree_get_add\<close>; the last argument is the node it stands at.\<close>

fun get_add_walk :: "itree \<Rightarrow> u64 \<Rightarrow> u64 \<Rightarrow> addr \<Rightarrow> addr ptree \<Rightarrow> itree option" where
  "get_add_walk it from to new PNull = None"
| "get_add_walk it from to new (PNode l e h r) =
     (if ifrom it e \<le> from \<and> ito it e \<ge> from
      then (if ito it e \<ge> to then Some it
            else psync_interval_tree_consume_intervals (set_to it e to) e)
      else if ifrom it e > from
      then (if l \<noteq> PNull then get_add_walk it from to new l
            else if ifrom it e \<le> to \<and> ito it e \<ge> to then Some (set_from it e from)
            else Option.bind (psync_tree_get_add_before (root it) (Some e) new)
                   (\<lambda>t. psync_interval_tree_consume_intervals
                          ((psync_interval_new it new from to)\<lparr>root := t\<rparr>) new))
      else (if r \<noteq> PNull then get_add_walk it from to new r
            else Option.bind (psync_tree_get_add_after (root it) (Some e) new)
                   (\<lambda>t. psync_interval_tree_consume_intervals
                          ((psync_interval_new it new from to)\<lparr>root := t\<rparr>) new)))"

text \<open>\<open>psync_interval_tree_add\<close> stores the result of \<open>psync_interval_tree_get_add\<close>.  The assertion
  \<^verbatim>\<open>to>from\<close> comes first; \<open>psync_interval_tree_new\<close> makes the tree of one node.\<close>

definition psync_interval_tree_add :: "itree \<Rightarrow> addr \<Rightarrow> u64 \<Rightarrow> u64 \<Rightarrow> itree option" where
  "psync_interval_tree_add it new from to =
     (if \<not> to > from then None
      else if root it = PNull
      then map_option (\<lambda>t. (psync_interval_new it new from to)\<lparr>root := t\<rparr>)
             (psync_tree_get_add_after PNull None new)
      else get_add_walk it from to new (root it))"

subsection \<open>Searching and removing\<close>

fun containing_or_after :: "itree \<Rightarrow> u64 \<Rightarrow> addr crumb list \<Rightarrow> addr ptree \<Rightarrow> addr option" where
  "containing_or_after it point path PNull = None"
| "containing_or_after it point path (PNode l e h r) =
     (if point \<ge> ito it e
      then (if r \<noteq> PNull then containing_or_after it point (InRight l e h # path) r
            else Option.bind (psync_tree_get_next (path, PNode l e h r)) loc_node)
      else if point \<ge> ifrom it e \<or> l = PNull then Some e
      else containing_or_after it point (InLeft e h r # path) l)"

definition psync_interval_tree_first_interval_containing_or_after :: "itree \<Rightarrow> u64 \<Rightarrow> addr option" where
  "psync_interval_tree_first_interval_containing_or_after it point = containing_or_after it point [] (root it)"

fun remove_loop :: "nat \<Rightarrow> itree \<Rightarrow> addr \<Rightarrow> u64 \<Rightarrow> u64 \<Rightarrow> addr option \<Rightarrow> itree option" where
  "remove_loop n it new from to None = Some it"
| "remove_loop 0 it new from to (Some tr) = None"
| "remove_loop (Suc n) it new from to (Some tr) =
     (if ifrom it tr < from \<and> ito it tr > to
      then map_option
             (\<lambda>t. set_to ((psync_interval_new it new to (ito it tr))\<lparr>root := t\<rparr>) tr from)
             (psync_tree_get_add_after (root it) (Some tr) new)
      else (let ntr = next_node (root it) tr
            in if from \<le> ifrom it tr \<and> ifrom it tr < to
               then (let it' = set_from it tr to
                     in if ifrom it' tr \<ge> ito it' tr
                        then Option.bind (psync_interval_tree_del it' tr)
                               (\<lambda>it''. remove_loop n it'' new from to ntr)
                        else remove_loop n it' new from to ntr)
               else if ifrom it tr < from then remove_loop n (set_to it tr from) new from to ntr
               else Some it))"

definition psync_interval_tree_remove :: "itree \<Rightarrow> addr \<Rightarrow> u64 \<Rightarrow> u64 \<Rightarrow> itree option" where
  "psync_interval_tree_remove it new from to =
     remove_loop (Suc (psync_tree_count (root it))) it new from to
       (psync_interval_tree_first_interval_containing_or_after it from)"

fun cut_end_loop :: "nat \<Rightarrow> itree \<Rightarrow> u64 \<Rightarrow> addr option \<Rightarrow> itree option" where
  "cut_end_loop n it end_off None = Some it"
| "cut_end_loop 0 it end_off (Some lst) = None"
| "cut_end_loop (Suc n) it end_off (Some lst) =
     (if \<not> ito it lst > end_off then Some it
      else if ifrom it lst < end_off then Some (set_to it lst end_off)
      else (let prev = prev_node (root it) lst
            in Option.bind (psync_interval_tree_del it lst)
                 (\<lambda>it'. cut_end_loop n it' end_off prev)))"

definition psync_interval_tree_cut_end :: "itree \<Rightarrow> u64 \<Rightarrow> itree option" where
  "psync_interval_tree_cut_end it end_off =
     cut_end_loop (Suc (psync_tree_count (root it))) it end_off (last_node (root it))"

definition psync_interval_tree_free :: "itree \<Rightarrow> addr list" where
  "psync_interval_tree_free it = psync_tree_for_each_element_call_safe (root it)"

subsection \<open>What a tree stands for\<close>

definition ivl :: "itree \<Rightarrow> addr \<Rightarrow> u64 set" where
  "ivl it e = {p. ifrom it e \<le> p \<and> p < ito it e}"

definition points :: "itree \<Rightarrow> u64 set" where
  "points it = (\<Union>e \<in> set (inorder (root it)). ivl it e)"

text \<open>The invariant: a balanced tree of distinct nodes whose intervals are non-empty, in order, and do not
  even touch.\<close>

definition gapped :: "itree \<Rightarrow> addr list \<Rightarrow> bool" where
  "gapped it xs = ((\<forall>e \<in> set xs. ifrom it e < ito it e) \<and> sorted_wrt (\<lambda>a b. ito it a < ifrom it b) xs)"

definition itree_ok :: "itree \<Rightarrow> bool" where
  "itree_ok it = (tree_ok (root it) \<and> gapped it (inorder (root it)))"

subsection \<open>Basic facts\<close>

lemma set_from_simps [simp]: "root (set_from it e v) = root it"
  "ifrom (set_from it e v) = (ifrom it)(e := v)" "ito (set_from it e v) = ito it"
  by (simp_all add: set_from_def)

lemma set_to_simps [simp]: "root (set_to it e v) = root it"
  "ifrom (set_to it e v) = ifrom it" "ito (set_to it e v) = (ito it)(e := v)"
  by (simp_all add: set_to_def)

lemma interval_new_simps [simp]: "root (psync_interval_new it e f t) = root it"
  "ifrom (psync_interval_new it e f t) = (ifrom it)(e := f)"
  "ito (psync_interval_new it e f t) = (ito it)(e := t)"
  by (simp_all add: psync_interval_new_def)

lemma gapped_Nil [simp]: "gapped it []"
  by (simp add: gapped_def)

lemma gapped_Cons [simp]:
  "gapped it (x # xs) \<longleftrightarrow> ifrom it x < ito it x \<and> (\<forall>y \<in> set xs. ito it x < ifrom it y) \<and> gapped it xs"
  by (auto simp: gapped_def)

lemma gapped_append [simp]:
  "gapped it (xs @ ys) \<longleftrightarrow> gapped it xs \<and> gapped it ys \<and> (\<forall>x \<in> set xs. \<forall>y \<in> set ys. ito it x < ifrom it y)"
  by (auto simp: gapped_def sorted_wrt_append)

lemma gapped_cong:
  "(\<And>e. e \<in> set xs \<Longrightarrow> ifrom it e = ifrom it' e \<and> ito it e = ito it' e) \<Longrightarrow> gapped it xs \<longleftrightarrow> gapped it' xs"
  by (induction xs) auto

lemma gapped_upd [simp]:
  "e \<notin> set xs \<Longrightarrow> gapped (set_to it e v) xs \<longleftrightarrow> gapped it xs"
  "e \<notin> set xs \<Longrightarrow> gapped (set_from it e v) xs \<longleftrightarrow> gapped it xs"
  "e \<notin> set xs \<Longrightarrow> gapped (psync_interval_new it e f t) xs \<longleftrightarrow> gapped it xs"
  "gapped (it\<lparr>root := r\<rparr>) xs \<longleftrightarrow> gapped it xs"
  by (rule gapped_cong; auto)+

lemma ivl_upd [simp]:
  "x \<noteq> e \<Longrightarrow> ivl (set_to it e v) x = ivl it x"
  "x \<noteq> e \<Longrightarrow> ivl (set_from it e v) x = ivl it x"
  "x \<noteq> e \<Longrightarrow> ivl (psync_interval_new it e f t) x = ivl it x"
  "ivl (psync_interval_new it e f t) e = {p. f \<le> p \<and> p < t}"
  "ivl (it\<lparr>root := r\<rparr>) x = ivl it x"
  by (auto simp: ivl_def)

lemma gapped_less: "gapped it xs \<Longrightarrow> e \<in> set xs \<Longrightarrow> ifrom it e < ito it e"
  by (simp add: gapped_def)

lemma itree_del:
  assumes "tree_ok (root it)" "inorder (root it) = us @ a # vs"
  shows "\<exists>t. psync_interval_tree_del it a = Some (it\<lparr>root := t\<rparr>) \<and> tree_ok t \<and> inorder t = us @ vs"
  using avl_seq.del_node [OF assms] by (auto simp: psync_interval_tree_del_def)

lemma ok_distinct: "tree_ok t \<Longrightarrow> distinct (inorder t)"
  by (simp add: tree_ok_def)

text \<open>A state is determined, for the purposes of the invariant and of the set it stands for, by the order
  of the nodes and the bounds of those in the tree.\<close>

lemma itree_ok_seq: "tree_ok (root it) \<Longrightarrow> inorder (root it) = xs \<Longrightarrow> gapped it xs \<Longrightarrow> itree_ok it"
  by (simp add: itree_ok_def)

text \<open>Changing the nodes \<open>es\<close> in the middle into \<open>es'\<close> changes the set by what they cover.\<close>

lemma points_change:
  assumes "inorder (root it) = us @ es @ vs" "inorder (root it') = us @ es' @ vs"
    "\<And>x. x \<notin> D \<Longrightarrow> ivl it' x = ivl it x" "D \<inter> (set us \<union> set vs) = {}"
    "(\<Union>e \<in> set es'. ivl it' e) = (\<Union>e \<in> set es. ivl it e) \<union> S"
  shows "points it' = points it \<union> S"
proof -
  have "points it' = (\<Union>e \<in> set es'. ivl it' e) \<union> (\<Union>e \<in> set us \<union> set vs. ivl it' e)"
    by (auto simp: points_def assms(2))
  also have "(\<Union>e \<in> set us \<union> set vs. ivl it' e) = (\<Union>e \<in> set us \<union> set vs. ivl it e)"
    using assms(4) by (intro SUP_cong refl assms(3)) blast
  finally show ?thesis unfolding assms(5) by (auto simp: points_def assms(1))
qed

subsection \<open>Adding\<close>

lemma consume_spec:
  assumes "tree_ok (root it)" "inorder (root it) = us @ e # vs" "gapped it us" "gapped it vs"
    "ifrom it e < ito it e" "\<forall>u \<in> set us. ito it u < ifrom it e" "\<forall>v \<in> set vs. ifrom it e \<le> ifrom it v"
    "length vs < n"
  shows "\<exists>it'. consume_intervals n it e = Some it' \<and> itree_ok it' \<and> points it' = points it"
  using assms
proof (induction n arbitrary: it vs)
  case 0
  then show ?case by simp
next
  case (Suc n)
  have d: "distinct (us @ e # vs)" using ok_distinct [OF Suc.prems(1)] Suc.prems(2) by simp
  have nxt: "next_node (root it) e = (case vs of [] \<Rightarrow> None | v # _ \<Rightarrow> Some v)"
    by (rule next_node_seq [OF ok_distinct [OF Suc.prems(1)] Suc.prems(2)])
  show ?case
  proof (cases vs)
    case Nil
    then show ?thesis using Suc.prems nxt by (auto intro: itree_ok_seq)
  next
    case (Cons v ws)
    obtain t where t: "psync_interval_tree_del it v = Some (it\<lparr>root := t\<rparr>)" "tree_ok t"
        "inorder t = us @ e # ws"
      using itree_del [of it "us @ [e]" v ws] Suc.prems(1,2) Cons by auto
    consider "ifrom it v > ito it e"
      | "\<not> ifrom it v > ito it e" "ito it v \<ge> ito it e" | "\<not> ifrom it v > ito it e" "\<not> ito it v \<ge> ito it e"
      by blast
    then show ?thesis
    proof cases
      case 1
      then have "\<forall>w \<in> set ws. ito it e < ifrom it w" using Suc.prems(4) Cons by force
      moreover have "\<forall>u \<in> set us. \<forall>w \<in> set vs. ito it u < ifrom it w"
        using Suc.prems(6,7) by force
      ultimately show ?thesis using 1 Suc.prems Cons nxt by (auto simp: itree_ok_def)
    next
      case 2
      let ?it = "set_to (it\<lparr>root := t\<rparr>) e (ito it v)"
      have "gapped ?it us" "gapped ?it ws"
        using Suc.prems(3,4) Cons d by auto
      moreover have "\<forall>u \<in> set us. \<forall>w \<in> set vs. ito it u < ifrom it w"
        using Suc.prems(6,7) by force
      ultimately have "itree_ok ?it"
        using 2 Suc.prems t Cons d by (auto simp: itree_ok_def)
      moreover have "ivl ?it e = ivl it e \<union> ivl it v"
        using 2 Suc.prems(5,7) Cons by (auto simp: ivl_def)
      then have "points ?it = points it \<union> {}"
        using d Cons Suc.prems(2) t(3) by (intro points_change [of it us "[e, v]" ws ?it "[e]" "{e}"]) auto
      ultimately show ?thesis using 2 t Cons nxt by auto
    next
      case 3
      have "\<exists>it'. consume_intervals n (it\<lparr>root := t\<rparr>) e = Some it' \<and> itree_ok it' \<and> points it' = points (it\<lparr>root := t\<rparr>)"
        using Suc.prems t Cons d by (intro Suc.IH [of _ ws]) auto
      moreover have "ivl it v \<subseteq> ivl it e" using 3 Suc.prems(7) Cons by (auto simp: ivl_def)
      then have "points (it\<lparr>root := t\<rparr>) = points it \<union> {}"
        using Cons Suc.prems(2) t(3) by (intro points_change [of it us "[e, v]" ws _ "[e]" "{}"]) auto
      ultimately show ?thesis using 3 t Cons nxt by auto
    qed
  qed
qed

lemma consume_intervals_spec:
  assumes "tree_ok (root it)" "inorder (root it) = us @ e # vs" "gapped it us" "gapped it vs"
    "ifrom it e < ito it e" "\<forall>u \<in> set us. ito it u < ifrom it e" "\<forall>v \<in> set vs. ifrom it e \<le> ifrom it v"
  shows "\<exists>it'. psync_interval_tree_consume_intervals it e = Some it' \<and> itree_ok it' \<and> points it' = points it"
  unfolding psync_interval_tree_consume_intervals_def
  using assms length_inorder [of "root it"] by (intro consume_spec [of it us e vs]) auto

text \<open>The new node is in place: what follows is the same for both sides.\<close>

lemma consume_new:
  assumes "itree_ok it" "inorder (root it) = us @ vs" "new \<notin> set (us @ vs)" "tree_ok t"
    "inorder t = us @ new # vs" "from < to" "\<forall>u \<in> set us. ito it u < from" "\<forall>v \<in> set vs. from < ifrom it v"
  shows "\<exists>it'. psync_interval_tree_consume_intervals ((psync_interval_new it new from to)\<lparr>root := t\<rparr>) new = Some it'
           \<and> itree_ok it' \<and> points it' = points it \<union> {p. from \<le> p \<and> p < to}"
proof -
  let ?it = "(psync_interval_new it new from to)\<lparr>root := t\<rparr>"
  have g: "gapped it us" "gapped it vs" using assms(1,2) by (auto simp: itree_ok_def)
  have g': "gapped ?it us" "gapped ?it vs" using g assms(3) by auto
  have "points ?it = points it \<union> {p. from \<le> p \<and> p < to}"
    using assms(2,3,5) by (intro points_change [of it us "[]" vs ?it "[new]" "{new}"]) auto
  moreover have "\<exists>it'. psync_interval_tree_consume_intervals ?it new = Some it' \<and> itree_ok it'
      \<and> points it' = points ?it"
    using assms g' by (intro consume_intervals_spec [of ?it us new vs]) (auto intro: less_imp_le)
  ultimately show ?thesis by simp
qed

lemma add_before_spec:
  assumes "itree_ok it" "inorder (root it) = us @ e # vs" "new \<notin> set (us @ e # vs)" "from < to"
    "\<forall>u \<in> set us. ito it u < from" "\<forall>v \<in> set (e # vs). from < ifrom it v"
  shows "\<exists>it'. Option.bind (psync_tree_get_add_before (root it) (Some e) new)
           (\<lambda>t. psync_interval_tree_consume_intervals ((psync_interval_new it new from to)\<lparr>root := t\<rparr>) new) = Some it'
           \<and> itree_ok it' \<and> points it' = points it \<union> {p. from \<le> p \<and> p < to}"
proof -
  obtain t where t: "psync_tree_get_add_before (root it) (Some e) new = Some t" "tree_ok t"
      "inorder t = us @ new # e # vs"
    using avl_seq.ins_before_node [of "root it" us e vs new] assms(1-3) by (auto simp: itree_ok_def)
  with consume_new [OF assms(1,2,3) t(2,3) assms(4-6)] show ?thesis by simp
qed

lemma add_after_spec:
  assumes "itree_ok it" "inorder (root it) = us @ e # vs" "new \<notin> set (us @ e # vs)" "from < to"
    "\<forall>u \<in> set (us @ [e]). ito it u < from" "\<forall>v \<in> set vs. from < ifrom it v"
  shows "\<exists>it'. Option.bind (psync_tree_get_add_after (root it) (Some e) new)
           (\<lambda>t. psync_interval_tree_consume_intervals ((psync_interval_new it new from to)\<lparr>root := t\<rparr>) new) = Some it'
           \<and> itree_ok it' \<and> points it' = points it \<union> {p. from \<le> p \<and> p < to}"
proof -
  obtain t where t: "psync_tree_get_add_after (root it) (Some e) new = Some t" "tree_ok t"
      "inorder t = us @ e # new # vs"
    using avl_seq.ins_after_node [of "root it" us e vs new] assms(1-3) by (auto simp: itree_ok_def)
  have "inorder (root it) = (us @ [e]) @ vs" "inorder t = (us @ [e]) @ new # vs" using assms(2) t(3) by simp_all
  with consume_new [OF assms(1) this(1) _ t(2) this(2) assms(4-6)] assms(3) t(1) show ?thesis by simp
qed

text \<open>An existing node is extended to the right, or to the left.\<close>

lemma extend_right:
  assumes "itree_ok it" "inorder (root it) = us @ e # vs" "ifrom it e \<le> from" "from \<le> ito it e" "ito it e < to"
  shows "\<exists>it'. psync_interval_tree_consume_intervals (set_to it e to) e = Some it'
           \<and> itree_ok it' \<and> points it' = points it \<union> {p. from \<le> p \<and> p < to}"
proof -
  let ?it = "set_to it e to"
  have d: "distinct (us @ e # vs)" and g: "gapped it (us @ e # vs)" and ok: "tree_ok (root it)"
    using assms(1,2) by (auto simp: itree_ok_def tree_ok_def)
  have g': "gapped ?it us" "gapped ?it vs"
    using g d by auto
  have lt: "ifrom it e < ito it e" "\<forall>v \<in> set vs. ito it e < ifrom it v" using g by auto
  have "\<exists>it'. psync_interval_tree_consume_intervals ?it e = Some it' \<and> itree_ok it' \<and> points it' = points ?it"
    using ok assms(2-5) g' g d lt by (intro consume_intervals_spec [of ?it us e vs]) force+
  moreover have "ivl ?it e = ivl it e \<union> {p. from \<le> p \<and> p < to}"
    using assms(3-5) lt by (auto simp: ivl_def)
  then have "points ?it = points it \<union> {p. from \<le> p \<and> p < to}"
    using assms(2) d by (intro points_change [of it us "[e]" vs ?it "[e]" "{e}"]) auto
  ultimately show ?thesis by simp
qed

lemma extend_left:
  assumes "itree_ok it" "inorder (root it) = us @ e # vs" "from < ifrom it e" "ifrom it e \<le> to" "to \<le> ito it e"
    "\<forall>u \<in> set us. ito it u < from"
  shows "itree_ok (set_from it e from) \<and> points (set_from it e from) = points it \<union> {p. from \<le> p \<and> p < to}"
proof -
  let ?it = "set_from it e from"
  have d: "distinct (us @ e # vs)" and g: "gapped it (us @ e # vs)" and ok: "tree_ok (root it)"
    using assms(1,2) by (auto simp: itree_ok_def tree_ok_def)
  have g': "gapped ?it us" "gapped ?it vs"
    using g d by auto
  have "itree_ok ?it" using ok assms g g' d by (intro itree_ok_seq [of _ "us @ e # vs"]) auto
  moreover have "ivl ?it e = ivl it e \<union> {p. from \<le> p \<and> p < to}"
    using assms(3-5) by (auto simp: ivl_def)
  then have "points ?it = points it \<union> {p. from \<le> p \<and> p < to}"
    using assms(2) d by (intro points_change [of it us "[e]" vs ?it "[e]" "{e}"]) auto
  ultimately show ?thesis by simp
qed

lemma get_add_walk_spec:
  assumes "itree_ok it" "from < to" "new \<notin> set (inorder (root it))"
  shows "\<lbrakk>t \<noteq> PNull; plug cs t = root it; \<forall>u \<in> set (path_before cs). ito it u < from;
          \<forall>v \<in> set (path_after cs). from < ifrom it v\<rbrakk>
         \<Longrightarrow> \<exists>it'. get_add_walk it from to new t = Some it' \<and> itree_ok it'
               \<and> points it' = points it \<union> {p. from \<le> p \<and> p < to}"
proof (induction t arbitrary: cs)
  case PNull
  then show ?case by simp
next
  case (PNode l e h r)
  let ?us = "path_before cs @ inorder l" and ?vs = "inorder r @ path_after cs"
  have seq: "inorder (root it) = ?us @ e # ?vs"
    using arg_cong [OF PNode.prems(2), of inorder] by simp
  have fresh: "new \<notin> set (?us @ e # ?vs)" using assms(3) unfolding seq .
  have g: "gapped it (?us @ e # ?vs)" using assms(1) unfolding itree_ok_def seq by blast
  then have ge: "ifrom it e < ito it e" "\<forall>v \<in> set ?vs. ito it e < ifrom it v"
      "\<forall>u \<in> set ?us. ito it u < ifrom it e"
    by auto
  consider (inside) "ifrom it e \<le> from \<and> from \<le> ito it e" | (left) "from < ifrom it e"
    | (right) "ifrom it e \<le> from" "ito it e < from" by force
  then show ?case
  proof cases
    case inside
    show ?thesis
    proof (cases "to \<le> ito it e")
      case True
      have "{p. from \<le> p \<and> p < to} \<subseteq> points it"
        using inside True seq by (auto simp: points_def ivl_def)
      with inside True assms(1) show ?thesis by auto
    next
      case False
      with inside extend_right [OF assms(1) seq] show ?thesis by auto
    qed
  next
    case left
    with ge have gt: "\<forall>v \<in> set (e # ?vs). from < ifrom it v" by (metis less_trans set_ConsD)
    show ?thesis
    proof (cases "l = PNull")
      case False
      have "\<exists>it'. get_add_walk it from to new l = Some it' \<and> itree_ok it'
          \<and> points it' = points it \<union> {p. from \<le> p \<and> p < to}"
        using False gt PNode.prems(2,3) by (intro PNode.IH(1) [of "InLeft e h r # cs"]) auto
      with left not_le [THEN iffD2, OF left] False show ?thesis by simp
    next
      case True
      with PNode.prems(3) have lt: "\<forall>u \<in> set ?us. ito it u < from" by simp
      show ?thesis
      proof (cases "ifrom it e \<le> to \<and> to \<le> ito it e")
        case ext: True
        with extend_left [OF assms(1) seq left _ _ lt, of to] left True show ?thesis by auto
      next
        case new: False
        with add_before_spec [OF assms(1) seq fresh assms(2) lt gt] left True show ?thesis by auto
      qed
    qed
  next
    case right
    with ge have "\<forall>u \<in> set ?us. ito it u < from" by (metis less_trans)
    with right have lt: "\<forall>u \<in> set (?us @ [e]). ito it u < from" by simp
    show ?thesis
    proof (cases "r = PNull")
      case False
      have "\<exists>it'. get_add_walk it from to new r = Some it' \<and> itree_ok it'
          \<and> points it' = points it \<union> {p. from \<le> p \<and> p < to}"
        using False lt PNode.prems(2,4) by (intro PNode.IH(2) [of "InRight l e h # cs"]) auto
      with right not_le [THEN iffD2, OF right(2)] not_less [THEN iffD2, OF right(1)] False
      show ?thesis by simp
    next
      case True
      with PNode.prems(4) have "\<forall>v \<in> set ?vs. from < ifrom it v" by simp
      with add_after_spec [OF assms(1) seq fresh assms(2) lt] right True show ?thesis by auto
    qed
  qed
qed

lemma interval_add_spec:
  assumes "itree_ok it" "from < to" "new \<notin> set (inorder (root it))"
  shows "\<exists>it'. psync_interval_tree_add it new from to = Some it' \<and> itree_ok it'
           \<and> points it' = points it \<union> {p. from \<le> p \<and> p < to}"
proof (cases "root it = PNull")
  case True
  obtain t where t: "psync_tree_get_add_after PNull None new = Some t" "tree_ok t" "inorder t = [new]"
    using avl_seq.ins_after_null [of PNull new] by (auto simp: tree_ok_def)
  with True assms(2) show ?thesis
    by (simp add: psync_interval_tree_add_def itree_ok_def points_def)
next
  case False
  then show ?thesis
    using get_add_walk_spec [OF assms, of "root it" "[]"] assms(2)
    by (simp add: psync_interval_tree_add_def)
qed

subsection \<open>Searching\<close>

lemma get_next_node:
  "Option.bind (psync_tree_get_next (cs, PNode l x h r)) loc_node
     = (case inorder r @ path_after cs of [] \<Rightarrow> None | v # _ \<Rightarrow> Some v)"
  using get_next_spec [where cs = cs and l = l and x = x and h = h and r = r]
  by (auto split: option.splits list.splits)

lemma find_skip: "(\<forall>u \<in> set us. \<not> P u) \<Longrightarrow> find P (us @ vs) = find P vs"
  by (induction us) auto

lemma containing_or_after_spec:
  assumes "itree_ok it"
  shows "\<lbrakk>t \<noteq> PNull; plug cs t = root it; \<forall>u \<in> set (path_before cs). ito it u \<le> point;
          \<forall>v \<in> set (path_after cs). point < ito it v\<rbrakk>
         \<Longrightarrow> containing_or_after it point cs t = find (\<lambda>e. point < ito it e) (inorder (root it))"
proof (induction t arbitrary: cs)
  case PNull
  then show ?case by simp
next
  case (PNode l e h r)
  let ?us = "path_before cs @ inorder l" and ?vs = "inorder r @ path_after cs"
  have seq: "inorder (root it) = ?us @ e # ?vs"
    using arg_cong [OF PNode.prems(2), of inorder] by simp
  have g: "gapped it (?us @ e # ?vs)" using assms unfolding itree_ok_def seq by blast
  then have ge: "ifrom it e < ito it e" "\<forall>v \<in> set ?vs. ito it e < ifrom it v \<and> ifrom it v < ito it v"
      "\<forall>u \<in> set ?us. ito it u < ifrom it e"
    by (auto dest: gapped_less)
  show ?case
  proof (cases "point \<ge> ito it e")
    case True
    with ge(1) have "ifrom it e \<le> point" by simp
    with ge(3) have "\<forall>u \<in> set ?us. ito it u \<le> point" by (meson less_imp_le less_le_trans)
    with True have lt: "\<forall>u \<in> set (?us @ [e]). ito it u \<le> point" by simp
    show ?thesis
    proof (cases "r = PNull")
      case False
      then have "containing_or_after it point (InRight l e h # cs) r = find (\<lambda>e. point < ito it e) (inorder (root it))"
        using lt PNode.prems(2,4) by (intro PNode.IH(2)) auto
      then show ?thesis using True False by simp
    next
      case null: True
      have "find (\<lambda>e. point < ito it e) (inorder (root it)) = find (\<lambda>e. point < ito it e) (path_after cs)"
        using lt null find_skip [of "?us @ [e]" "\<lambda>e. point < ito it e"] by (simp add: seq not_less)
      then show ?thesis
        using True null PNode.prems(4) get_next_node [of cs l e h r] by (cases "path_after cs") auto
    qed
  next
    case False
    show ?thesis
    proof (cases "point \<ge> ifrom it e \<or> l = PNull")
      case True
      have "ito it u \<le> point" if "u \<in> set ?us" for u
      proof (cases "point \<ge> ifrom it e")
        case True
        with ge(3) that show ?thesis by (meson less_le_trans less_imp_le)
      next
        case False
        with True PNode.prems(3) that show ?thesis by simp
      qed
      then have "find (\<lambda>e. point < ito it e) (inorder (root it)) = Some e"
        using False find_skip [of ?us "\<lambda>e. point < ito it e"] by (simp add: seq not_less)
      then show ?thesis using False True by simp
    next
      case left: False
      have "\<forall>v \<in> set (e # ?vs). point < ito it v"
        using ge(1,2) False by (metis less_trans not_le set_ConsD)
      then have "containing_or_after it point (InLeft e h r # cs) l = find (\<lambda>e. point < ito it e) (inorder (root it))"
        using left PNode.prems(2,3) by (intro PNode.IH(1)) auto
      then show ?thesis using False left by simp
    qed
  qed
qed

lemma first_containing_or_after_find:
  "itree_ok it \<Longrightarrow> psync_interval_tree_first_interval_containing_or_after it point
     = find (\<lambda>e. point < ito it e) (inorder (root it))"
  using containing_or_after_spec [of it "root it" "[]" point]
  by (cases "root it = PNull") (auto simp: psync_interval_tree_first_interval_containing_or_after_def)

subsection \<open>Removing\<close>

abbreviation span :: "u64 \<Rightarrow> u64 \<Rightarrow> u64 set" where
  "span from to \<equiv> {p. from \<le> p \<and> p < to}"

lemma points_change_minus:
  assumes "inorder (root it) = us @ es @ vs" "inorder (root it') = us @ es' @ vs"
    "\<And>x. x \<notin> D \<Longrightarrow> ivl it' x = ivl it x" "D \<inter> (set us \<union> set vs) = {}"
    "(\<Union>e \<in> set es'. ivl it' e) - S = (\<Union>e \<in> set es. ivl it e) - S"
  shows "points it' - S = points it - S"
proof -
  have "points it' = (\<Union>e \<in> set es'. ivl it' e) \<union> (\<Union>e \<in> set us \<union> set vs. ivl it' e)"
    by (auto simp: points_def assms(2))
  also have "(\<Union>e \<in> set us \<union> set vs. ivl it' e) = (\<Union>e \<in> set us \<union> set vs. ivl it e)"
    using assms(4) by (intro SUP_cong refl assms(3)) blast
  finally have "points it' - S = ((\<Union>e \<in> set es'. ivl it' e) - S) \<union> ((\<Union>e \<in> set us \<union> set vs. ivl it e) - S)"
    by blast
  then show ?thesis unfolding assms(5) by (auto simp: points_def assms(1))
qed

definition outside :: "itree \<Rightarrow> u64 \<Rightarrow> u64 \<Rightarrow> addr \<Rightarrow> bool" where
  "outside it from to e = (ito it e \<le> from \<or> to \<le> ifrom it e)"

lemma points_outside:
  "\<forall>e \<in> set (inorder (root it)). outside it from to e \<Longrightarrow> points it - span from to = points it"
  by (fastforce simp: points_def outside_def ivl_def)

lemma outside_cong: "ifrom it e = ifrom it' e \<Longrightarrow> ito it e = ito it' e \<Longrightarrow> outside it from to e = outside it' from to e"
  by (simp add: outside_def)

text \<open>One interval that sticks out on both sides is split.\<close>

lemma remove_split:
  assumes "itree_ok it" "inorder (root it) = us @ e # vs" "new \<notin> set (us @ e # vs)" "from < to"
    "ifrom it e < from" "to < ito it e" "\<forall>u \<in> set us. outside it from to u"
  shows "\<exists>t. psync_tree_get_add_after (root it) (Some e) new = Some t
           \<and> itree_ok (set_to ((psync_interval_new it new to (ito it e))\<lparr>root := t\<rparr>) e from)
           \<and> points (set_to ((psync_interval_new it new to (ito it e))\<lparr>root := t\<rparr>) e from)
               = points it - span from to"
proof -
  obtain t where t: "psync_tree_get_add_after (root it) (Some e) new = Some t" "tree_ok t"
      "inorder t = us @ e # new # vs"
    using avl_seq.ins_after_node [of "root it" us e vs new] assms(1-3) by (auto simp: itree_ok_def)
  let ?it = "set_to ((psync_interval_new it new to (ito it e))\<lparr>root := t\<rparr>) e from"
  have d: "distinct (us @ e # vs)" and g: "gapped it (us @ e # vs)"
    using assms(1,2) by (auto simp: itree_ok_def tree_ok_def)
  have gvs: "\<forall>v \<in> set vs. ito it e < ifrom it v" using g by simp
  then have vs: "\<forall>v \<in> set vs. to \<le> ifrom it v" using assms(6) by (meson less_trans less_imp_le)
  then have vs': "\<forall>v \<in> set vs. from < ifrom it v" using assms(4) by (meson less_le_trans)
  have us: "\<forall>u \<in> set us. ito it u < to" using g assms(4,5) by (auto intro: less_trans)
  have ok: "itree_ok ?it"
    using t g d assms(3-6) gvs vs vs' us by (auto simp: itree_ok_def)
  have "points ?it - span from to = points it - span from to"
    using t(3) assms(2-6) d
    by (intro points_change_minus [of it us "[e]" vs ?it "[e, new]" "{e, new}"]) (auto simp: ivl_def)
  moreover have "\<forall>x \<in> set (inorder (root ?it)). outside ?it from to x"
    using t(3) assms(3,7) vs d by (auto simp: outside_def)
  then have "points ?it - span from to = points ?it" by (rule points_outside)
  ultimately show ?thesis using t(1) ok by simp
qed

text \<open>One interval loses its tail, its head, or all of it.\<close>

lemma remove_tail:
  assumes "itree_ok it" "inorder (root it) = us @ e # vs" "ifrom it e < from" "from < ito it e" "ito it e \<le> to"
  shows "itree_ok (set_to it e from) \<and> points (set_to it e from) - span from to = points it - span from to"
proof -
  let ?it = "set_to it e from"
  have d: "distinct (us @ e # vs)" and g: "gapped it (us @ e # vs)" and ok: "tree_ok (root it)"
    using assms(1,2) by (auto simp: itree_ok_def tree_ok_def)
  have "\<forall>v \<in> set vs. from < ifrom it v" using g assms(4) by (auto intro: less_trans)
  then have "itree_ok ?it" using ok g d assms(2-5) by (auto simp: itree_ok_def)
  moreover have "points ?it - span from to = points it - span from to"
    using assms(2-5) d by (intro points_change_minus [of it us "[e]" vs ?it "[e]" "{e}"]) (auto simp: ivl_def)
  ultimately show ?thesis by simp
qed

lemma remove_head:
  assumes "itree_ok it" "inorder (root it) = us @ e # vs" "from \<le> ifrom it e" "ifrom it e < to" "to < ito it e"
  shows "itree_ok (set_from it e to) \<and> points (set_from it e to) - span from to = points it - span from to"
proof -
  let ?it = "set_from it e to"
  have d: "distinct (us @ e # vs)" and g: "gapped it (us @ e # vs)" and ok: "tree_ok (root it)"
    using assms(1,2) by (auto simp: itree_ok_def tree_ok_def)
  have "\<forall>u \<in> set us. ito it u < to" using g assms(4) by (auto intro: less_trans)
  then have "itree_ok ?it" using ok g d assms(2-5) by (auto simp: itree_ok_def)
  moreover have "points ?it - span from to = points it - span from to"
    using assms(2-5) d by (intro points_change_minus [of it us "[e]" vs ?it "[e]" "{e}"]) (auto simp: ivl_def)
  ultimately show ?thesis by simp
qed

lemma remove_whole:
  assumes "itree_ok it" "inorder (root it) = us @ e # vs" "from \<le> ifrom it e" "ito it e \<le> to"
  shows "\<exists>t. psync_interval_tree_del (set_from it e to) e = Some ((set_from it e to)\<lparr>root := t\<rparr>)
          \<and> inorder t = us @ vs \<and> itree_ok ((set_from it e to)\<lparr>root := t\<rparr>)
          \<and> points ((set_from it e to)\<lparr>root := t\<rparr>) - span from to = points it - span from to"
proof -
  have d: "distinct (us @ e # vs)" and g: "gapped it (us @ e # vs)" and ok: "tree_ok (root it)"
    using assms(1,2) by (auto simp: itree_ok_def tree_ok_def)
  obtain t where t: "psync_interval_tree_del (set_from it e to) e = Some ((set_from it e to)\<lparr>root := t\<rparr>)"
      "tree_ok t" "inorder t = us @ vs"
    using itree_del [of "set_from it e to" us e vs] ok assms(2) by auto
  let ?it = "(set_from it e to)\<lparr>root := t\<rparr>"
  have "itree_ok ?it" using t g d by (auto simp: itree_ok_def)
  moreover have "points ?it - span from to = points it - span from to"
    using assms(2-4) d t by (intro points_change_minus [of it us "[e]" vs ?it "[]" "{e}"]) (auto simp: ivl_def)
  ultimately show ?thesis using t by blast
qed

abbreviation opt_hd :: "'a list \<Rightarrow> 'a option" where
  "opt_hd xs \<equiv> (case xs of [] \<Rightarrow> None | x # _ \<Rightarrow> Some x)"

lemma remove_loop_spec:
  assumes "itree_ok it" "inorder (root it) = us @ vs" "new \<notin> set (us @ vs)" "from < to"
    "\<forall>u \<in> set us. outside it from to u" "\<forall>v \<in> set vs. from < ito it v" "length vs \<le> n"
  shows "\<exists>it'. remove_loop n it new from to (opt_hd vs) = Some it' \<and> itree_ok it'
           \<and> points it' = points it - span from to"
  using assms
proof (induction n arbitrary: it us vs)
  case 0
  then show ?case by (auto dest: points_outside)
next
  case (Suc n)
  show ?case
  proof (cases vs)
    case Nil
    then show ?thesis using Suc.prems by (auto dest: points_outside)
  next
    case (Cons v ws)
    have seq: "inorder (root it) = us @ v # ws" using Suc.prems(2) Cons by simp
    have d: "distinct (us @ v # ws)" and g: "gapped it (us @ v # ws)"
      using Suc.prems(1) seq by (auto simp: itree_ok_def tree_ok_def)
    have nxt: "next_node (root it) v = opt_hd ws"
      by (rule next_node_seq [OF _ seq]) (use d seq in simp)
    have fv: "from < ito it v" using Suc.prems(6) Cons by simp
    consider (split) "ifrom it v < from" "to < ito it v" | (tail) "ifrom it v < from" "ito it v \<le> to"
      | (whole) "from \<le> ifrom it v" "ifrom it v < to" "ito it v \<le> to"
      | (head) "from \<le> ifrom it v" "ifrom it v < to" "to < ito it v"
      | (stop) "from \<le> ifrom it v" "to \<le> ifrom it v"
      by force
    then show ?thesis
    proof cases
      case split
      then show ?thesis
        using remove_split [OF Suc.prems(1) seq, of new "from" to] Suc.prems(3-5) Cons by auto
    next
      case tail
      let ?it = "set_to it v from"
      note t = remove_tail [OF Suc.prems(1) seq tail(1) fv tail(2)]
      have "\<exists>it'. remove_loop n ?it new from to (opt_hd ws) = Some it' \<and> itree_ok it'
          \<and> points it' = points ?it - span from to"
        using t seq d Suc.prems(3-7) Cons
        by (intro Suc.IH [of ?it "us @ [v]" ws]) (auto simp: outside_def)
      then show ?thesis using tail t nxt Cons by (auto simp: Let_def not_less)
    next
      case whole
      obtain t where t: "psync_interval_tree_del (set_from it v to) v = Some ((set_from it v to)\<lparr>root := t\<rparr>)"
          "inorder t = us @ ws" "itree_ok ((set_from it v to)\<lparr>root := t\<rparr>)"
          "points ((set_from it v to)\<lparr>root := t\<rparr>) - span from to = points it - span from to"
        using remove_whole [OF Suc.prems(1) seq whole(1,3)] by blast
      let ?it = "(set_from it v to)\<lparr>root := t\<rparr>"
      have "\<exists>it'. remove_loop n ?it new from to (opt_hd ws) = Some it' \<and> itree_ok it'
          \<and> points it' = points ?it - span from to"
        using t d Suc.prems(3-7) Cons by (intro Suc.IH [of ?it us ws]) (auto simp: outside_def)
      then show ?thesis using whole t nxt Cons by (auto simp: Let_def not_less)
    next
      case head
      let ?it = "set_from it v to"
      note t = remove_head [OF Suc.prems(1) seq head]
      have "\<exists>it'. remove_loop n ?it new from to (opt_hd ws) = Some it' \<and> itree_ok it'
          \<and> points it' = points ?it - span from to"
        using t seq d Suc.prems(3-7) Cons
        by (intro Suc.IH [of ?it "us @ [v]" ws]) (auto simp: outside_def)
      then show ?thesis using head t nxt Cons by (auto simp: Let_def not_less not_le)
    next
      case stop
      have "\<forall>w \<in> set ws. ito it v < ifrom it w" "ifrom it v < ito it v" using g by auto
      then have "\<forall>w \<in> set ws. to \<le> ifrom it w" using stop(2) by (meson le_less_trans less_imp_le less_trans)
      then have "points it - span from to = points it"
        using seq Suc.prems(5) stop by (intro points_outside) (auto simp: outside_def)
      then show ?thesis using stop Suc.prems(1) Cons by (auto simp: Let_def not_less)
    qed
  qed
qed

lemma find_opt_hd: "(\<And>v. v \<in> set vs \<Longrightarrow> P v) \<Longrightarrow> find P vs = opt_hd vs"
  by (cases vs) auto

lemma interval_remove_spec:
  assumes "itree_ok it" "from < to" "new \<notin> set (inorder (root it))"
  shows "\<exists>it'. psync_interval_tree_remove it new from to = Some it' \<and> itree_ok it'
           \<and> points it' = points it - span from to"
proof -
  let ?xs = "inorder (root it)" and ?P = "\<lambda>e. ito it e \<le> from"
  let ?us = "takeWhile ?P ?xs" and ?vs = "dropWhile ?P ?xs"
  have split: "?xs = ?us @ ?vs" by simp
  have g: "gapped it (?us @ ?vs)" using assms(1) by (simp add: itree_ok_def)
  have vs: "from < ito it v" if v: "v \<in> set ?vs" for v
  proof (cases ?vs)
    case Nil
    with v show ?thesis by simp
  next
    case (Cons w ws)
    then have w: "from < ito it w" by (metis hd_dropWhile list.distinct(1) list.sel(1) not_le)
    have "\<forall>y \<in> set ws. ito it w < ifrom it y \<and> ifrom it y < ito it y"
      using g Cons by (auto dest: gapped_less)
    with v Cons w show ?thesis by (metis less_trans set_ConsD)
  qed
  have "find (\<lambda>e. from < ito it e) ?xs = opt_hd ?vs"
  proof -
    have "find (\<lambda>e. from < ito it e) (?us @ ?vs) = find (\<lambda>e. from < ito it e) ?vs"
      by (rule find_skip) (simp add: not_less set_takeWhileD [of _ ?P ?xs])
    also have "\<dots> = opt_hd ?vs" by (rule find_opt_hd) (rule vs)
    finally show ?thesis by simp
  qed
  then have first: "psync_interval_tree_first_interval_containing_or_after it from = opt_hd ?vs"
    using first_containing_or_after_find [OF assms(1)] by simp
  have len: "length ?vs \<le> Suc (psync_tree_count (root it))"
    using length_dropWhile_le [of ?P ?xs] length_inorder [of "root it"] by simp
  show ?thesis
    unfolding psync_interval_tree_remove_def first
    using assms vs len set_takeWhileD [of _ ?P ?xs]
    by (intro remove_loop_spec [of it ?us ?vs]) (auto simp: outside_def)
qed

lemma points_below:
  assumes "itree_ok it" "inorder (root it) = us @ [l]" "ito it l \<le> bound"
  shows "points it \<subseteq> {p. p < bound}"
proof -
  have g: "ifrom it l < ito it l" "\<forall>u \<in> set us. ito it u < ifrom it l"
    using assms(1,2) by (auto simp: itree_ok_def)
  then have "\<forall>u \<in> set (us @ [l]). ito it u \<le> bound"
    using assms(3) by (auto intro: less_imp_le less_trans less_le_trans)
  then show ?thesis
    unfolding points_def assms(2) ivl_def by (auto intro: less_le_trans)
qed

lemma cut_last:
  assumes "itree_ok it" "inorder (root it) = us @ [l]" "ifrom it l < bound" "bound < ito it l"
  shows "itree_ok (set_to it l bound) \<and> points (set_to it l bound) = points it \<inter> {p. p < bound}"
proof -
  let ?it = "set_to it l bound"
  have d: "distinct (us @ [l])" and g: "gapped it (us @ [l])" and ok: "tree_ok (root it)"
    using assms(1,2) by (auto simp: itree_ok_def tree_ok_def)
  have "itree_ok ?it" using ok g d assms(2-4) by (auto simp: itree_ok_def)
  moreover have "points ?it - - {p. p < bound} = points it - - {p. p < bound}"
    using assms(2-4) d by (intro points_change_minus [of it us "[l]" "[]" ?it "[l]" "{l}"]) (auto simp: ivl_def)
  moreover have "points ?it \<subseteq> {p. p < bound}"
    using \<open>itree_ok ?it\<close> assms(2) by (intro points_below [of ?it us l]) auto
  ultimately show ?thesis by auto
qed

lemma cut_end_loop_spec:
  assumes "itree_ok it" "length (inorder (root it)) \<le> n"
  shows "\<exists>it'. cut_end_loop n it bound (last_node (root it)) = Some it' \<and> itree_ok it'
           \<and> points it' = points it \<inter> {p. p < bound}"
  using assms
proof (induction n arbitrary: it)
  case 0
  then show ?case by (simp add: last_node_seq points_def)
next
  case (Suc n)
  show ?case
  proof (cases "inorder (root it)" rule: rev_cases)
    case Nil
    then show ?thesis using Suc.prems by (simp add: last_node_seq points_def)
  next
    case (snoc us l)
    have last: "last_node (root it) = Some l" using snoc by (simp add: last_node_seq)
    consider "ito it l \<le> bound" | "ifrom it l < bound" "bound < ito it l" | "bound \<le> ifrom it l" "bound < ito it l"
      by force
    then show ?thesis
    proof cases
      case 1
      with points_below [OF Suc.prems(1) snoc] Suc.prems(1) last show ?thesis by auto
    next
      case 2
      with cut_last [OF Suc.prems(1) snoc] last show ?thesis by auto
    next
      case 3
      obtain t where t: "psync_interval_tree_del it l = Some (it\<lparr>root := t\<rparr>)" "tree_ok t" "inorder t = us"
        using itree_del [of it us l "[]"] Suc.prems(1) snoc by (auto simp: itree_ok_def)
      let ?it = "it\<lparr>root := t\<rparr>"
      have ok: "itree_ok ?it" using t Suc.prems(1) snoc by (auto simp: itree_ok_def)
      have prev: "prev_node (root it) l = last_node t"
        using prev_node_seq [of "root it" us l "[]"] Suc.prems(1) snoc t(3)
        by (simp add: itree_ok_def tree_ok_def last_node_seq)
      have "points ?it - - {p. p < bound} = points it - - {p. p < bound}"
        using 3 snoc t(3) by (intro points_change_minus [of it us "[l]" "[]" ?it "[]" "{}"]) (auto simp: ivl_def)
      moreover have "\<exists>it'. cut_end_loop n ?it bound (last_node t) = Some it' \<and> itree_ok it'
          \<and> points it' = points ?it \<inter> {p. p < bound}"
        using Suc.IH [of ?it] ok Suc.prems(2) snoc t(3) by simp
      ultimately show ?thesis
        using 3 last prev t(1) by (auto simp: Let_def Diff_eq not_less)
    qed
  qed
qed

subsection \<open>Properties\<close>

text \<open>C7: Adding an interval refines set union: the call returns, the nodes stay balanced, ordered, non-empty
  and separated by gaps, and the tree covers exactly what it covered before and the added offsets.\<close>

theorem interval_tree_add_union:
  assumes "itree_ok it" "from < to" "new \<notin> set (inorder (root it))"
  shows "\<exists>it'. psync_interval_tree_add it new from to = Some it' \<and> itree_ok it'
           \<and> points it' = points it \<union> {p. from \<le> p \<and> p < to}"
  using assms by (rule interval_add_spec)

definition sample_itree :: itree where
  "sample_itree = \<lparr>root = PNode (PNode PNull 1 1 PNull) 2 2 (PNode PNull 3 1 PNull),
     ifrom = (\<lambda>_. 0)(1 := 10, 2 := 30, 3 := 50), ito = (\<lambda>_. 0)(1 := 20, 2 := 40, 3 := 60)\<rparr>"

theorem interval_tree_add_union_witness:
  "\<exists>it'. psync_interval_tree_add sample_itree 4 15 50 = Some it' \<and> itree_ok it'
     \<and> points it' = points sample_itree \<union> {p. 15 \<le> p \<and> p < 50}"
  by (rule interval_tree_add_union) (simp_all add: sample_itree_def itree_ok_def tree_ok_def)

text \<open>C8: Removing an interval refines set difference, with the same guarantees; an interval that sticks out on
  both sides is split in two.\<close>

theorem interval_tree_remove_diff:
  assumes "itree_ok it" "from < to" "new \<notin> set (inorder (root it))"
  shows "\<exists>it'. psync_interval_tree_remove it new from to = Some it' \<and> itree_ok it'
           \<and> points it' = points it - {p. from \<le> p \<and> p < to}"
  using assms by (rule interval_remove_spec)

theorem interval_tree_remove_diff_witness:
  "\<exists>it'. psync_interval_tree_remove sample_itree 4 15 55 = Some it' \<and> itree_ok it'
     \<and> points it' = points sample_itree - {p. 15 \<le> p \<and> p < 55}"
  by (rule interval_tree_remove_diff) (simp_all add: sample_itree_def itree_ok_def tree_ok_def)

text \<open>C9: Cutting at an end offset keeps exactly the offsets below it.\<close>

theorem interval_tree_cut_end_below:
  assumes "itree_ok it"
  shows "\<exists>it'. psync_interval_tree_cut_end it bound = Some it' \<and> itree_ok it'
           \<and> points it' = points it \<inter> {p. p < bound}"
  unfolding psync_interval_tree_cut_end_def
  using assms by (intro cut_end_loop_spec) (simp_all add: length_inorder)

theorem interval_tree_cut_end_below_witness:
  "\<exists>it'. psync_interval_tree_cut_end sample_itree 35 = Some it' \<and> itree_ok it'
     \<and> points it' = points sample_itree \<inter> {p. p < 35}"
  by (rule interval_tree_cut_end_below) (simp add: sample_itree_def itree_ok_def tree_ok_def)

end
