(* ===== verification/Plist.thy ===== *)
theory Plist
  imports Prelude
begin

section \<open>Doubly linked lists (\<open>plist.c\<close>, \<open>plist.h\<close>)\<close>

text \<open>
  The intrusive circular lists that queue timers, tasks, cached buffers and requests.  The links of all
  nodes are two maps from addresses to addresses, and an operation is the sequence of stores of the C
  macro.  \<open>ring h l xs\<close> says that the list with head \<open>l\<close> holds the nodes \<open>xs\<close>.  The merge sort
  works on the chain that is reached over \<^verbatim>\<open>next\<close> once the ring is opened (a \<open>list\<close> of nodes: the
  pointer \<^verbatim>\<open>l1\<close> is the rest of the chain from it) and closes the ring again at the end.
\<close>

subsection \<open>State and operations\<close>

record links =
  hnext :: "addr \<Rightarrow> addr"
  hprev :: "addr \<Rightarrow> addr"

definition psync_list_init :: "links \<Rightarrow> addr \<Rightarrow> links" where
  "psync_list_init h l = h\<lparr>hnext := (hnext h)(l := l), hprev := (hprev h)(l := l)\<rparr>"

definition psync_list_isempty :: "links \<Rightarrow> addr \<Rightarrow> bool" where
  "psync_list_isempty h l = (hnext h l = l)"

definition psync_list_is_head :: "links \<Rightarrow> addr \<Rightarrow> addr \<Rightarrow> bool" where
  "psync_list_is_head h l e = (hnext h l = e)"

definition psync_list_is_tail :: "links \<Rightarrow> addr \<Rightarrow> addr \<Rightarrow> bool" where
  "psync_list_is_tail h l e = (hprev h l = e)"

definition psync_list_add_between :: "links \<Rightarrow> addr \<Rightarrow> addr \<Rightarrow> addr \<Rightarrow> links" where
  "psync_list_add_between h l1 l2 a =
     h\<lparr>hnext := (hnext h)(a := l2, l1 := a), hprev := (hprev h)(a := l1, l2 := a)\<rparr>"

definition psync_list_add_head :: "links \<Rightarrow> addr \<Rightarrow> addr \<Rightarrow> links" where
  "psync_list_add_head h l a = psync_list_add_between h l (hnext h l) a"

definition psync_list_add_tail :: "links \<Rightarrow> addr \<Rightarrow> addr \<Rightarrow> links" where
  "psync_list_add_tail h l a = psync_list_add_between h (hprev h l) l a"

definition psync_list_add_before :: "links \<Rightarrow> addr \<Rightarrow> addr \<Rightarrow> links" where
  "psync_list_add_before h e a = psync_list_add_between h (hprev h e) e a"

definition psync_list_add_after :: "links \<Rightarrow> addr \<Rightarrow> addr \<Rightarrow> links" where
  "psync_list_add_after h e a = psync_list_add_between h e (hnext h e) a"

definition psync_list_del :: "links \<Rightarrow> addr \<Rightarrow> links" where
  "psync_list_del h a =
     (let h1 = h\<lparr>hprev := (hprev h)(hnext h a := hprev h a)\<rparr>
      in h1\<lparr>hnext := (hnext h1)(hprev h1 a := hnext h1 a)\<rparr>)"

definition psync_list_remove_head :: "links \<Rightarrow> addr \<Rightarrow> links \<times> addr" where
  "psync_list_remove_head h l = (let e = hnext h l in (psync_list_del h e, e))"

text \<open>The nodes in the order in which \<^verbatim>\<open>psync_list_for_each\<close> visits them; \<open>n\<close> bounds the length.\<close>

fun for_each_from :: "nat \<Rightarrow> links \<Rightarrow> addr \<Rightarrow> addr \<Rightarrow> addr list option" where
  "for_each_from 0 h l a = (if a = l then Some [] else None)"
| "for_each_from (Suc n) h l a =
     (if a = l then Some [] else map_option ((#) a) (for_each_from n h l (hnext h a)))"

definition psync_list_for_each :: "nat \<Rightarrow> links \<Rightarrow> addr \<Rightarrow> addr list option" where
  "psync_list_for_each n h l = for_each_from n h l (hnext h l)"

subsection \<open>Sorting\<close>

text \<open>One merge of two neighbouring runs: \<open>l1\<close> and \<open>l2\<close> are the chains from the two pointers, the
  counters say how much of each belongs to its run.  The result is what was appended at \<^verbatim>\<open>tail\<close> and
  the chain at which the pass goes on.\<close>

fun merge_runs :: "('a \<Rightarrow> 'a \<Rightarrow> int) \<Rightarrow> nat \<Rightarrow> 'a list \<Rightarrow> nat \<Rightarrow> 'a list \<Rightarrow> 'a list \<times> 'a list" where
  "merge_runs cmp l1len (x # xs) l2len (y # ys) =
     (if cmp x y \<le> 0
      then if l1len - 1 = 0 then (x # take l2len (y # ys), drop l2len (y # ys))
           else let (out, rest) = merge_runs cmp (l1len - 1) xs l2len (y # ys) in (x # out, rest)
      else if l2len - 1 = 0 \<or> ys = [] then (y # take l1len (x # xs), ys)
           else let (out, rest) = merge_runs cmp l1len (x # xs) (l2len - 1) ys in (y # out, rest))"
| "merge_runs cmp l1len [] l2len l2 = ([], l2)"
| "merge_runs cmp l1len (x # xs) l2len [] = ([], [])"

text \<open>One pass over the chain and the number of merges it counted.\<close>

fun merge_pass :: "nat \<Rightarrow> ('a \<Rightarrow> 'a \<Rightarrow> int) \<Rightarrow> nat \<Rightarrow> 'a list \<Rightarrow> nat \<Rightarrow> ('a list \<times> nat) option" where
  "merge_pass 0 cmp depth l1 cnt = (if l1 = [] then Some ([], cnt) else None)"
| "merge_pass (Suc n) cmp depth l1 cnt =
     (if l1 = [] then Some ([], cnt)
      else let l2 = drop depth l1 in
        if l2 = [] then Some (l1, cnt + 1)
        else let (out, rest) = merge_runs cmp depth l1 depth l2 in
          map_option (\<lambda>(ls, c). (out @ ls, c)) (merge_pass n cmp depth rest (cnt + 1)))"

fun sort_loop :: "nat \<Rightarrow> ('a \<Rightarrow> 'a \<Rightarrow> int) \<Rightarrow> nat \<Rightarrow> 'a list \<Rightarrow> 'a list option" where
  "sort_loop 0 cmp depth ls = None"
| "sort_loop (Suc n) cmp depth ls =
     Option.bind (merge_pass (length ls) cmp depth ls 0)
       (\<lambda>(ls', cnt). if cnt \<le> 1 then Some ls' else sort_loop n cmp (2 * depth) ls')"

definition sort_chain :: "('a \<Rightarrow> 'a \<Rightarrow> int) \<Rightarrow> 'a list \<Rightarrow> 'a list option" where
  "sort_chain cmp ls = sort_loop (length ls) cmp 1 ls"

text \<open>The loop that restores \<^verbatim>\<open>prev\<close> and closes the ring; \<open>next\<close> of the chain is as the passes left it.\<close>

fun relink :: "links \<Rightarrow> addr \<Rightarrow> addr list \<Rightarrow> addr \<Rightarrow> links" where
  "relink h l1 [] l = h\<lparr>hnext := (hnext h)(l1 := l), hprev := (hprev h)(l := l1)\<rparr>"
| "relink h l1 (e # ls) l = relink (h\<lparr>hnext := (hnext h)(l1 := e), hprev := (hprev h)(e := l1)\<rparr>) e ls l"

definition psync_list_sort :: "nat \<Rightarrow> (addr \<Rightarrow> addr \<Rightarrow> int) \<Rightarrow> links \<Rightarrow> addr \<Rightarrow> links option" where
  "psync_list_sort n cmp h l =
     (if psync_list_isempty h l then Some h
      else Option.bind (psync_list_for_each n h l)
        (\<lambda>ls. map_option (\<lambda>ls'. relink h l ls' l) (sort_chain cmp ls)))"

subsection \<open>Extracting what two lists have in common\<close>

fun extract_loop :: "nat \<Rightarrow> (addr \<Rightarrow> addr \<Rightarrow> int) \<Rightarrow> links \<Rightarrow> addr \<Rightarrow> addr \<Rightarrow> addr \<Rightarrow> addr \<Rightarrow> addr \<Rightarrow> addr
    \<Rightarrow> links option" where
  "extract_loop n cmp h l1 l2 ex1 ex2 li1 li2 =
     (if li1 = l1 \<or> li2 = l2 then Some h
      else case n of 0 \<Rightarrow> None | Suc n \<Rightarrow>
        if cmp li1 li2 < 0 then extract_loop n cmp h l1 l2 ex1 ex2 (hnext h li1) li2
        else if cmp li1 li2 > 0 then extract_loop n cmp h l1 l2 ex1 ex2 li1 (hnext h li2)
        else let ln1 = hnext h li1; ln2 = hnext h li2;
                 h1 = psync_list_add_tail (psync_list_del h li1) ex1 li1;
                 h2 = psync_list_add_tail (psync_list_del h1 li2) ex2 li2
             in extract_loop n cmp h2 l1 l2 ex1 ex2 ln1 ln2)"

declare extract_loop.simps [simp del]

definition psync_list_extract_repeating ::
    "nat \<Rightarrow> (addr \<Rightarrow> addr \<Rightarrow> int) \<Rightarrow> links \<Rightarrow> addr \<Rightarrow> addr \<Rightarrow> addr \<Rightarrow> addr \<Rightarrow> links option" where
  "psync_list_extract_repeating n cmp h l1 l2 ex1 ex2 =
     Option.bind (psync_list_sort n cmp h l1) (\<lambda>h1.
     Option.bind (psync_list_sort n cmp h1 l2) (\<lambda>h2.
       extract_loop (2 * n) cmp h2 l1 l2 ex1 ex2 (hnext h2 l1) (hnext h2 l2)))"

subsection \<open>Rings\<close>

fun joined :: "links \<Rightarrow> addr list \<Rightarrow> bool" where
  "joined h (a # b # r) = (hnext h a = b \<and> hprev h b = a \<and> joined h (b # r))"
| "joined h _ = True"

definition ring :: "links \<Rightarrow> addr \<Rightarrow> addr list \<Rightarrow> bool" where
  "ring h l xs = (distinct (l # xs) \<and> joined h (l # xs @ [l]))"

lemma joined_append: "joined h (xs @ b # ys) \<longleftrightarrow> joined h (xs @ [b]) \<and> joined h (b # ys)"
  by (induction h xs rule: joined.induct) simp_all

lemma joined_cong:
  "\<forall>x \<in> set (butlast ns). hnext h' x = hnext h x \<Longrightarrow> \<forall>x \<in> set (tl ns). hprev h' x = hprev h x
   \<Longrightarrow> joined h' ns = joined h ns"
  by (induction h ns rule: joined.induct) auto

lemma ring_frame:
  "\<forall>x \<in> set (l # xs). hnext h' x = hnext h x \<and> hprev h' x = hprev h x \<Longrightarrow> ring h' l xs = ring h l xs"
  unfolding ring_def by (subst joined_cong [of _ h' h]) (auto simp: butlast_append)

lemma ring_split:
  assumes "ring h l (us @ vs)"
  obtains ps p q qs where "l # us = ps @ [p]" "vs @ [l] = q # qs" "hnext h p = q" "hprev h q = p"
    "joined h (ps @ [p])" "joined h (q # qs)"
proof -
  obtain ps p where p: "l # us = ps @ [p]" by (metis list.distinct(1) rev_exhaust)
  obtain q qs where q: "vs @ [l] = q # qs" by (cases "vs @ [l]") auto
  have "joined h ((l # us) @ vs @ [l])" using assms by (simp add: ring_def)
  then have "joined h (ps @ p # q # qs)" using p q by simp
  then show thesis using that p q joined_append [of h ps p "q # qs"] by auto
qed

text \<open>Linking a node in and out, wherever it is in the ring.\<close>

lemma ring_add_between:
  assumes r: "ring h l (us @ vs)" and a: "a \<notin> set (l # us @ vs)"
    and p: "p = last (l # us)" and q: "q = hd (vs @ [l])"
  shows "ring (psync_list_add_between h p q a) l (us @ a # vs)"
proof -
  obtain ps qs where e: "l # us = ps @ [p]" "vs @ [l] = q # qs" "joined h (ps @ [p])" "joined h (q # qs)"
    using ring_split [OF r] p q by (metis last_snoc list.sel(1))
  have d: "distinct (l # us @ vs)" using r by (simp add: ring_def)
  let ?h = "psync_list_add_between h p q a"
  have nodes: "butlast (ps @ [p]) = ps" "tl (ps @ [p]) = us" "butlast (q # qs) = vs" "tl (q # qs) = qs"
    by simp (metis e(1) list.sel(3), metis e(2) butlast_snoc, simp)
  have "distinct (ps @ [p])" "distinct (vs @ [l])" using d e(1) [symmetric] by auto
  then have dpq: "p \<notin> set ps" "q \<notin> set qs" using e(2) by simp_all
  have pin: "p \<in> set (l # us)" "set ps \<subseteq> set (l # us)" using e(1) by auto
  have qin: "q \<in> set (vs @ [l])" "set qs \<subseteq> set (vs @ [l])" using e(2) by auto
  have "p \<notin> set vs" "q \<notin> set us" "a \<notin> set ps" "a \<notin> set vs" "a \<notin> set us" "a \<notin> set qs" "a \<noteq> p" "a \<noteq> q"
    using pin qin d a by auto
  note out = this dpq
  have "joined ?h (ps @ [p])"
    using e(3) out by (subst joined_cong [of _ ?h h]) (auto simp: psync_list_add_between_def nodes simp del: tl_append2)
  moreover have "joined ?h (q # qs)"
    using e(4) out by (subst joined_cong [of _ ?h h]) (auto simp: psync_list_add_between_def nodes simp del: butlast.simps list.sel)
  moreover have "hnext ?h p = a" "hprev ?h a = p" "hnext ?h a = q" "hprev ?h q = a"
    using out by (auto simp: psync_list_add_between_def)
  ultimately have "joined ?h (ps @ p # a # q # qs)" by (subst joined_append) simp
  moreover have "ps @ p # a # q # qs = l # (us @ a # vs) @ [l]"
    using e(1) [symmetric] e(2) by (metis append_Cons append_assoc append_Nil)
  ultimately show ?thesis using a d by (simp add: ring_def)
qed

lemma ring_links:
  assumes "ring h l (us @ vs)"
  shows "hnext h (last (l # us)) = hd (vs @ [l])" "hprev h (hd (vs @ [l])) = last (l # us)"
  by (rule ring_split [OF assms], metis last_snoc list.sel(1))+

lemma ring_del:
  assumes r: "ring h l (us @ a # vs)"
  shows "ring (psync_list_del h a) l (us @ vs)"
proof -
  define p q where pq: "p = last (l # us)" "q = hd (vs @ [l])"
  have d: "distinct (l # us @ a # vs)" using r by (simp add: ring_def)
  have links: "hnext h p = a" "hprev h a = p" "hnext h a = q" "hprev h q = a"
    using ring_links [OF r] ring_links [of h l "us @ [a]" vs] r by (simp_all add: pq)
  obtain ps where e1: "l # us = ps @ [p]" by (metis pq(1) append_butlast_last_id list.distinct(1))
  obtain qs where e2: "vs @ [l] = q # qs" by (metis pq(2) append_is_Nil_conv list.collapse not_Cons_self2)
  let ?h = "psync_list_del h a"
  have j: "joined h ((ps @ p # [a]) @ q # qs)"
    using r e1 e2 by (simp add: ring_def) (metis append_Cons append_assoc append_Nil)
  have nodes: "butlast (ps @ [p]) = ps" "tl (ps @ [p]) = us" "butlast (q # qs) = vs" "tl (q # qs) = qs"
    by simp (metis e1 list.sel(3), metis e2 butlast_snoc, simp)
  have "distinct (ps @ [p])" "distinct (vs @ [l])" using d e1 [symmetric] by auto
  then have dpq: "p \<notin> set ps" "q \<notin> set qs" using e2 by simp_all
  have pin: "p \<in> set (l # us)" using e1 by auto
  have qin: "q \<in> set (vs @ [l])" using e2 by auto
  have "p \<notin> set vs" "q \<notin> set us" "a \<noteq> p" "a \<noteq> q" using pin qin d by auto
  note out = this dpq
  have del: "?h = h\<lparr>hnext := (hnext h)(p := q), hprev := (hprev h)(q := p)\<rparr>"
    using links out by (simp add: psync_list_del_def Let_def)
  have "joined h (ps @ [p])" "joined h (q # qs)"
    using j joined_append [of h ps p "a # q # qs"] joined_append [of h "ps @ [p, a]" q qs] by simp_all
  then have "joined ?h (ps @ [p])" "joined ?h (q # qs)"
    using out joined_cong [of "ps @ [p]" ?h h] joined_cong [of "q # qs" ?h h] by (simp_all add: nodes del del: butlast.simps list.sel tl_append2)
  then have "joined ?h (ps @ p # q # qs)" by (subst joined_append) (simp add: del)
  moreover have "ps @ p # q # qs = l # (us @ vs) @ [l]"
    using e1 e2 by (metis append_Cons append_assoc append_Nil)
  ultimately show ?thesis using d by (simp add: ring_def)
qed

lemma ring_distinct: "ring h l xs \<Longrightarrow> distinct xs \<and> l \<notin> set xs"
  by (simp add: ring_def)

lemma ring_init: "ring (psync_list_init h l) l []"
  by (simp add: ring_def psync_list_init_def)

lemma ring_isempty: "ring h l xs \<Longrightarrow> psync_list_isempty h l \<longleftrightarrow> xs = []"
  using ring_links(1) [of h l "[]" xs] ring_distinct [of h l xs]
  by (cases xs) (auto simp: psync_list_isempty_def)

lemma ring_add_head: "ring h l xs \<Longrightarrow> a \<notin> set (l # xs) \<Longrightarrow> ring (psync_list_add_head h l a) l (a # xs)"
  using ring_add_between [of h l "[]" xs a l "hd (xs @ [l])"] ring_links(1) [of h l "[]" xs]
  by (simp add: psync_list_add_head_def)

lemma ring_add_tail: "ring h l xs \<Longrightarrow> a \<notin> set (l # xs) \<Longrightarrow> ring (psync_list_add_tail h l a) l (xs @ [a])"
  using ring_add_between [of h l xs "[]" a "last (l # xs)" l] ring_links(2) [of h l xs "[]"]
  by (simp add: psync_list_add_tail_def del: last.simps)

lemma ring_add_after: "ring h l (us @ e # vs) \<Longrightarrow> a \<notin> set (l # us @ e # vs)
    \<Longrightarrow> ring (psync_list_add_after h e a) l (us @ e # a # vs)"
  using ring_add_between [of h l "us @ [e]" vs a e "hd (vs @ [l])"] ring_links(1) [of h l "us @ [e]" vs]
  by (simp add: psync_list_add_after_def)

lemma ring_add_before: "ring h l (us @ e # vs) \<Longrightarrow> a \<notin> set (l # us @ e # vs)
    \<Longrightarrow> ring (psync_list_add_before h e a) l (us @ a # e # vs)"
  using ring_add_between [of h l us "e # vs" a "last (l # us)" e] ring_links(2) [of h l us "e # vs"]
  by (simp add: psync_list_add_before_def)

lemma ring_remove_head:
  "ring h l (x # xs) \<Longrightarrow> \<exists>h'. psync_list_remove_head h l = (h', x) \<and> ring h' l xs"
  using ring_links(1) [of h l "[]" "x # xs"] ring_del [of h l "[]" x xs]
  by (simp add: psync_list_remove_head_def)

lemma for_each_from_joined:
  "joined h (a # xs @ [l]) \<Longrightarrow> l \<notin> set xs \<Longrightarrow> length xs \<le> n \<Longrightarrow> for_each_from n h l (hnext h a) = Some xs"
proof (induction xs arbitrary: a n)
  case Nil
  then show ?case by (cases n) auto
next
  case (Cons x xs)
  then show ?case by (cases n) auto
qed

lemma for_each_ring: "ring h l xs \<Longrightarrow> length xs \<le> n \<Longrightarrow> psync_list_for_each n h l = Some xs"
  unfolding psync_list_for_each_def by (rule for_each_from_joined) (auto simp: ring_def)

lemma relink_outside:
  "x \<notin> set (l1 # ls) \<Longrightarrow> hnext (relink h l1 ls l) x = hnext h x"
  "x \<notin> set ls \<Longrightarrow> x \<noteq> l \<Longrightarrow> hprev (relink h l1 ls l) x = hprev h x"
  by (induction ls arbitrary: h l1) auto

lemma joined_relink:
  "distinct (l1 # ls) \<Longrightarrow> l \<notin> set ls \<Longrightarrow> joined (relink h l1 ls l) (l1 # ls @ [l])"
  by (induction ls arbitrary: h l1) (auto simp: relink_outside)

lemma ring_relink: "distinct (l # ls) \<Longrightarrow> ring (relink h l ls l) l ls"
  using joined_relink [of l ls l h] by (simp add: ring_def)

subsection \<open>The merge sort is a stable sort\<close>

definition total_cmp :: "('a \<Rightarrow> 'a \<Rightarrow> int) \<Rightarrow> bool" where
  "total_cmp cmp = ((\<forall>x y. cmp x y \<le> 0 \<or> cmp y x \<le> 0)
     \<and> (\<forall>x y z. cmp x y \<le> 0 \<longrightarrow> cmp y z \<le> 0 \<longrightarrow> cmp x z \<le> 0))"

abbreviation in_order :: "('a \<Rightarrow> 'a \<Rightarrow> int) \<Rightarrow> 'a list \<Rightarrow> bool" where
  "in_order cmp \<equiv> sorted_wrt (\<lambda>x y. cmp x y \<le> 0)"

abbreviation same_key :: "('a \<Rightarrow> 'a \<Rightarrow> int) \<Rightarrow> 'a \<Rightarrow> 'a \<Rightarrow> bool" where
  "same_key cmp k x \<equiv> cmp k x \<le> 0 \<and> cmp x k \<le> 0"

fun mrg :: "('a \<Rightarrow> 'a \<Rightarrow> int) \<Rightarrow> 'a list \<Rightarrow> 'a list \<Rightarrow> 'a list" where
  "mrg cmp (x # xs) (y # ys) = (if cmp x y \<le> 0 then x # mrg cmp xs (y # ys) else y # mrg cmp (x # xs) ys)"
| "mrg cmp [] ys = ys"
| "mrg cmp (x # xs) [] = x # xs"

lemma mrg_Nil [simp]: "mrg cmp xs [] = xs"
  by (cases xs) auto

lemma mset_mrg [simp]: "mset (mrg cmp xs ys) = mset xs + mset ys"
  by (induction cmp xs ys rule: mrg.induct) auto

lemma set_mrg [simp]: "set (mrg cmp xs ys) = set xs \<union> set ys"
  by (induction cmp xs ys rule: mrg.induct) auto

lemma mrg_in_order:
  "total_cmp cmp \<Longrightarrow> in_order cmp xs \<Longrightarrow> in_order cmp ys \<Longrightarrow> in_order cmp (mrg cmp xs ys)"
proof (induction cmp xs ys rule: mrg.induct)
  case (1 cmp x xs y ys)
  then show ?case by (auto simp: total_cmp_def) (meson linorder_not_le)+
qed auto

lemma mrg_stable:
  assumes "total_cmp cmp" "in_order cmp xs"
  shows "filter (same_key cmp k) (mrg cmp xs ys) = filter (same_key cmp k) xs @ filter (same_key cmp k) ys"
  using assms
proof (induction cmp xs ys rule: mrg.induct)
  case (1 cmp x xs y ys)
  have "filter (same_key cmp k) (x # xs) = []" if "\<not> cmp x y \<le> 0" "same_key cmp k y"
  proof -
    have "\<not> same_key cmp k z" if "z \<in> set (x # xs)" for z
      using \<open>\<not> cmp x y \<le> 0\<close> \<open>same_key cmp k y\<close> that 1(3,4) unfolding total_cmp_def
      by (metis set_ConsD sorted_wrt.simps(2))
    then show ?thesis by (simp add: filter_empty_conv)
  qed
  with 1 show ?case by auto
qed auto

lemma merge_runs_mrg:
  assumes "0 < n1" "n1 \<le> length l1" "0 < n2" "l2 \<noteq> []"
  shows "merge_runs cmp n1 l1 n2 l2 = (mrg cmp (take n1 l1) (take n2 l2), drop n2 l2)"
  using assms
proof (induction cmp n1 l1 n2 l2 rule: merge_runs.induct)
  case (1 cmp n1 x xs n2 y ys)
  then obtain m1 m2 where n: "n1 = Suc m1" "n2 = Suc m2" by (metis gr0_implies_Suc)
  show ?case
    using 1 by (auto simp: n Let_def split: nat.splits)
qed auto

text \<open>Every aligned run of length \<open>d\<close> is in order.\<close>

definition runs :: "('a \<Rightarrow> 'a \<Rightarrow> int) \<Rightarrow> nat \<Rightarrow> 'a list \<Rightarrow> bool" where
  "runs cmp d ls = (\<forall>k. in_order cmp (take d (drop (k * d) ls)))"

lemma runs_one: "runs cmp 1 ls"
proof -
  have "in_order cmp (take 1 xs)" for xs by (cases xs) auto
  then show ?thesis by (simp add: runs_def)
qed

lemma runs_drop: "runs cmp d ls \<Longrightarrow> runs cmp d (drop (m * d) ls)"
  unfolding runs_def by (metis add_mult_distrib drop_drop)

lemma runs_append:
  assumes "in_order cmp out" "runs cmp d ls" "length out = d \<or> length out < d \<and> ls = []"
  shows "runs cmp d (out @ ls)"
  unfolding runs_def
proof
  fix k
  show "in_order cmp (take d (drop (k * d) (out @ ls)))"
  proof (cases k)
    case 0
    with assms show ?thesis by auto
  next
    case (Suc j)
    with assms show ?thesis by (auto simp: runs_def)
  qed
qed

lemma runs_whole: "runs cmp d ls \<Longrightarrow> length ls \<le> d \<Longrightarrow> in_order cmp ls"
  unfolding runs_def by (metis drop0 mult_zero_left take_all)

lemma merge_pass_spec:
  assumes "total_cmp cmp" "0 < d" "runs cmp d ls" "length ls \<le> n"
  shows "\<exists>ls' c'. merge_pass n cmp d ls c = Some (ls', c') \<and> mset ls' = mset ls \<and> runs cmp (2 * d) ls'
    \<and> (\<forall>k. filter (same_key cmp k) ls' = filter (same_key cmp k) ls)
    \<and> (c' \<le> c + 1 \<longleftrightarrow> length ls \<le> 2 * d) \<and> c \<le> c' \<and> (c' = c \<longleftrightarrow> ls = [])"
  using assms(3,4)
proof (induction n arbitrary: ls c)
  case 0
  then show ?case by (simp add: runs_def)
next
  case (Suc n)
  show ?case
  proof (cases "drop d ls = []")
    case True
    then show ?thesis using Suc.prems runs_append [of cmp ls "2 * d" "[]"] runs_whole [of cmp d ls] assms(2)
      by (cases "ls = []") (auto simp: runs_def)
  next
    case False
    let ?out = "mrg cmp (take d ls) (take d (drop d ls))" and ?rest = "drop d (drop d ls)"
    have rest: "runs cmp d ?rest" "length ?rest \<le> n" "runs cmp d (drop d ls)"
      using runs_drop [OF Suc.prems(1), of 2] runs_drop [OF Suc.prems(1), of 1] Suc.prems(2) False assms(2)
      by (simp_all add: mult_2)
    obtain ls' c' where ih: "merge_pass n cmp d ?rest (c + 1) = Some (ls', c')" "mset ls' = mset ?rest"
        "runs cmp (2 * d) ls'" "\<forall>k. filter (same_key cmp k) ls' = filter (same_key cmp k) ?rest"
        "c + 1 \<le> c'" "c' = c + 1 \<longleftrightarrow> ?rest = []"
      using Suc.IH [OF rest(1,2), of "c + 1"] by blast
    have ord: "in_order cmp (take d ls)" "in_order cmp (take d (drop d ls))"
      using Suc.prems(1) rest(3) unfolding runs_def by (metis drop0 mult_zero_left)+
    have split: "ls = take d ls @ take d (drop d ls) @ ?rest" by (metis append_take_drop_id)
    have run: "runs cmp (2 * d) (?out @ ls')"
    proof (rule runs_append)
      have "length ?out = length (take d ls) + length (take d (drop d ls))"
        by (metis mset_mrg size_mset size_union)
      moreover have "length (take d ls) = d" using False by simp
      moreover have "ls' = []" if "length (take d (drop d ls)) < d" using that ih(2) by auto
      ultimately show "length ?out = 2 * d \<or> length ?out < 2 * d \<and> ls' = []" by auto
    qed (use ih(3) mrg_in_order [OF assms(1) ord] in auto)
    have stable: "filter (same_key cmp k) (?out @ ls') = filter (same_key cmp k) ls" for k
      using mrg_stable [OF assms(1) ord(1), of k "take d (drop d ls)"] ih(4)
      by (subst (3) split) simp
    have perm: "mset (?out @ ls') = mset ls"
      using ih(2) by (subst (3) split) (simp only: mset_append mset_mrg add.assoc)
    have "merge_pass (Suc n) cmp d ls c = Some (?out @ ls', c')"
      using False ih(1) assms(2) merge_runs_mrg [of d ls d "drop d ls" cmp] by (auto simp: Let_def)
    with run stable perm ih(5,6) False show ?thesis by auto
  qed
qed

lemma sort_loop_spec:
  assumes "total_cmp cmp" "0 < d" "runs cmp d ls" "length ls \<le> d * 2 ^ n" "0 < n"
  shows "\<exists>ls'. sort_loop n cmp d ls = Some ls' \<and> in_order cmp ls' \<and> mset ls' = mset ls
    \<and> (\<forall>k. filter (same_key cmp k) ls' = filter (same_key cmp k) ls)"
  using assms(2-5)
proof (induction n arbitrary: d ls)
  case 0
  then show ?case by simp
next
  case (Suc n)
  obtain ls1 c where p: "merge_pass (length ls) cmp d ls 0 = Some (ls1, c)" "mset ls1 = mset ls"
      "runs cmp (2 * d) ls1" "\<forall>k. filter (same_key cmp k) ls1 = filter (same_key cmp k) ls"
      "c \<le> 1 \<longleftrightarrow> length ls \<le> 2 * d"
    using merge_pass_spec [OF assms(1) Suc.prems(1,2) order_refl, of 0] by auto
  have len: "length ls1 = length ls" using p(2) by (metis size_mset)
  show ?case
  proof (cases "c \<le> 1")
    case True
    then have "in_order cmp ls1" using p(3,5) len by (intro runs_whole [of cmp "2 * d"]) auto
    with True p show ?thesis by simp
  next
    case False
    then have "0 < n" using p(5) Suc.prems(3) by (cases n) auto
    then obtain ls' where "sort_loop n cmp (2 * d) ls1 = Some ls'" "in_order cmp ls'" "mset ls' = mset ls1"
        "\<forall>k. filter (same_key cmp k) ls' = filter (same_key cmp k) ls1"
      using Suc.IH [of "2 * d" ls1] p(3) len Suc.prems by (auto simp: ac_simps)
    with False p show ?thesis by simp
  qed
qed

lemma sort_chain_spec:
  assumes "total_cmp cmp" "ls \<noteq> []"
  shows "\<exists>ls'. sort_chain cmp ls = Some ls' \<and> in_order cmp ls' \<and> mset ls' = mset ls
    \<and> (\<forall>k. filter (same_key cmp k) ls' = filter (same_key cmp k) ls)"
  unfolding sort_chain_def
  using assms less_exp [of "length ls"] by (intro sort_loop_spec) (auto simp: runs_one [simplified] less_imp_le)

lemma list_sort_spec:
  assumes "ring h l xs" "total_cmp cmp" "length xs \<le> n"
  shows "\<exists>h' ys. psync_list_sort n cmp h l = Some h' \<and> ring h' l ys \<and> mset ys = mset xs
    \<and> in_order cmp ys \<and> (\<forall>k. filter (same_key cmp k) ys = filter (same_key cmp k) xs)
    \<and> (\<forall>x. x \<notin> set (l # xs) \<longrightarrow> hnext h' x = hnext h x \<and> hprev h' x = hprev h x)"
proof (cases "xs = []")
  case True
  with assms(1) show ?thesis by (auto simp: psync_list_sort_def ring_isempty)
next
  case False
  obtain ys where s: "sort_chain cmp xs = Some ys" "in_order cmp ys" "mset ys = mset xs"
      "\<forall>k. filter (same_key cmp k) ys = filter (same_key cmp k) xs"
    using sort_chain_spec [OF assms(2) False] by blast
  have d: "set ys = set xs" "distinct (l # ys)"
    using s(3) ring_distinct [OF assms(1)] by (metis mset_eq_setD, metis distinct.simps(2) mset_eq_imp_distinct_iff mset_eq_setD)
  have "psync_list_sort n cmp h l = Some (relink h l ys l)"
    using False assms(1,3) s(1) by (simp add: psync_list_sort_def ring_isempty for_each_ring)
  with s ring_relink [OF d(2)] d(1) show ?thesis by (auto simp: relink_outside)
qed

subsection \<open>Extraction\<close>

text \<open>What the extraction loop does to the sequences: the nodes kept and the nodes moved, per list.\<close>

fun matched :: "('a \<Rightarrow> 'a \<Rightarrow> int) \<Rightarrow> 'a list \<Rightarrow> 'a list \<Rightarrow> ('a \<times> 'a) list" where
  "matched cmp (x # xs) (y # ys) =
     (if cmp x y < 0 then matched cmp xs (y # ys)
      else if cmp x y > 0 then matched cmp (x # xs) ys
      else (x, y) # matched cmp xs ys)"
| "matched cmp _ _ = []"

lemma matched_Nil [simp]: "matched cmp [] ys = []" "matched cmp xs [] = []"
  by (cases xs; cases ys; simp)+

lemma del_outside:
  assumes "ring h l (us @ a # vs)" "x \<notin> set (l # us @ a # vs)"
  shows "hnext (psync_list_del h a) x = hnext h x \<and> hprev (psync_list_del h a) x = hprev h x"
proof -
  have "hnext h a = hd (vs @ [l])" "hprev h a = last (l # us)"
    using ring_links(1) [of h l "us @ [a]" vs] ring_links(2) [of h l us "a # vs"] assms(1) by simp_all
  moreover have "hd (vs @ [l]) \<in> set (vs @ [l])" "last (l # us) \<in> set (l # us)"
    by (rule hd_in_set, simp) (rule last_in_set, simp)
  ultimately show ?thesis using assms(2) by (auto simp: psync_list_del_def Let_def)
qed

lemma add_tail_outside:
  assumes "ring h l us" "x \<notin> set (l # us)" "x \<noteq> a"
  shows "hnext (psync_list_add_tail h l a) x = hnext h x \<and> hprev (psync_list_add_tail h l a) x = hprev h x"
proof -
  have "hprev h l = last (l # us)" using ring_links(2) [of h l us "[]"] assms(1) by simp
  moreover have "last (l # us) \<in> set (l # us)" by (rule last_in_set) simp
  ultimately show ?thesis using assms(2,3) by (auto simp: psync_list_add_tail_def psync_list_add_between_def)
qed

lemma move_node:
  assumes "ring h l (as @ x # xs)" "ring h e us" "set (l # as @ x # xs) \<inter> set (e # us) = {}"
  defines "h' \<equiv> psync_list_add_tail (psync_list_del h x) e x"
  shows "ring h' l (as @ xs)" "ring h' e (us @ [x])"
    "\<And>z. z \<notin> set (l # as @ x # xs) \<Longrightarrow> z \<notin> set (e # us) \<Longrightarrow> hnext h' z = hnext h z \<and> hprev h' z = hprev h z"
proof -
  let ?h = "psync_list_del h x"
  have "\<forall>z \<in> set (e # us). hnext ?h z = hnext h z \<and> hprev ?h z = hprev h z"
    using assms(3) by (intro ballI del_outside [OF assms(1)]) blast
  then have e: "ring ?h e us" using assms(2) ring_frame [of e us ?h h] by blast
  show "ring h' e (us @ [x])" unfolding h'_def by (rule ring_add_tail [OF e]) (use assms(3) in auto)
  have "x \<notin> set (l # as @ xs)" using ring_distinct [OF assms(1)] by auto
  then have "\<forall>z \<in> set (l # as @ xs). hnext h' z = hnext ?h z \<and> hprev h' z = hprev ?h z"
    unfolding h'_def using assms(3) by (intro ballI add_tail_outside [OF e]) auto
  then show "ring h' l (as @ xs)" using ring_del [OF assms(1)] ring_frame [of l "as @ xs" h' ?h] by blast
  fix z assume "z \<notin> set (l # as @ x # xs)" "z \<notin> set (e # us)"
  then show "hnext h' z = hnext h z \<and> hprev h' z = hprev h z"
    unfolding h'_def using add_tail_outside [OF e, of z x] del_outside [OF assms(1), of z] by simp
qed

lemma ring_hnext: "ring h l (us @ a # vs) \<Longrightarrow> hnext h a = hd (vs @ [l])"
  using ring_links(1) [of h l "us @ [a]" vs] by simp

lemma matched_in: "p \<in> set (matched cmp xs ys) \<Longrightarrow> fst p \<in> set xs \<and> snd p \<in> set ys"
  by (induction cmp xs ys rule: matched.induct) (auto split: if_splits)

lemma matched_subset: "set (map fst (matched cmp xs ys)) \<subseteq> set xs" "set (map snd (matched cmp xs ys)) \<subseteq> set ys"
  using matched_in [of _ cmp xs ys] by auto

lemma extract_loop_spec:
  assumes "ring h l1 (as @ xs)" "ring h l2 (bs @ ys)" "ring h e1 us" "ring h e2 vs"
    "distinct ((l1 # as @ xs) @ (l2 # bs @ ys) @ (e1 # us) @ (e2 # vs))" "length xs + length ys \<le> n"
  shows "\<exists>h'. extract_loop n cmp h l1 l2 e1 e2 (hd (xs @ [l1])) (hd (ys @ [l2])) = Some h'
    \<and> ring h' l1 (as @ filter (\<lambda>x. x \<notin> set (map fst (matched cmp xs ys))) xs)
    \<and> ring h' l2 (bs @ filter (\<lambda>y. y \<notin> set (map snd (matched cmp xs ys))) ys)
    \<and> ring h' e1 (us @ map fst (matched cmp xs ys)) \<and> ring h' e2 (vs @ map snd (matched cmp xs ys))"
  using assms
proof (induction cmp xs ys arbitrary: n h as bs us vs rule: matched.induct)
  case (1 cmp x xs y ys)
  then obtain m where m: "n = Suc m" by (cases n) auto
  have ne: "x \<noteq> l1" "y \<noteq> l2" using "1.prems"(5) by auto
  have hx: "hnext h x = hd (xs @ [l1])" "hnext h y = hd (ys @ [l2])"
    using ring_hnext [of h l1 as x xs] ring_hnext [of h l2 bs y ys] "1.prems"(1,2) by simp_all
  consider "cmp x y < 0" | "cmp x y > 0" | "cmp x y = 0" by linarith
  then show ?case
  proof cases
    case 1
    have *: "x \<notin> set xs" using "1.prems"(5) by auto
    with matched_subset(1) [of cmp xs "y # ys"] have "x \<notin> set (map fst (matched cmp xs (y # ys)))" by blast
    with "1.IH"(1) [OF 1, of h "as @ [x]" bs us vs m] "1.prems" 1 m ne hx show ?thesis
      by (subst extract_loop.simps) simp
  next
    case 2
    then have lt: "\<not> cmp x y < 0" by simp
    have *: "y \<notin> set ys" using "1.prems"(5) by auto
    with matched_subset(2) [of cmp "x # xs" ys] have "y \<notin> set (map snd (matched cmp (x # xs) ys))" by blast
    with "1.IH"(2) [OF lt 2, of h as "bs @ [y]" us vs m] "1.prems" 2 lt m ne hx show ?thesis
      by (subst extract_loop.simps) simp
  next
    case 3
    then have lt: "\<not> cmp x y < 0" "\<not> cmp x y > 0" by simp_all
    let ?h1 = "psync_list_add_tail (psync_list_del h x) e1 x"
    let ?h2 = "psync_list_add_tail (psync_list_del ?h1 y) e2 y"
    have dj: "set (l1 # as @ x # xs) \<inter> set (e1 # us) = {}" "set (l2 # bs @ y # ys) \<inter> set (e2 # vs) = {}"
      "(set (l2 # bs @ y # ys) \<union> set (e2 # vs)) \<inter> (set (l1 # as @ x # xs) \<union> set (e1 # us)) = {}"
      using "1.prems"(5) unfolding distinct_append set_append by blast+
    have m1: "ring ?h1 l1 (as @ xs)" "ring ?h1 e1 (us @ [x])"
      by (rule move_node(1,2) [OF "1.prems"(1,3) dj(1)])+
    have f1: "hnext ?h1 z = hnext h z \<and> hprev ?h1 z = hprev h z"
      if "z \<in> set (l2 # bs @ y # ys) \<union> set (e2 # vs)" for z
      by (rule move_node(3) [OF "1.prems"(1,3) dj(1)]) (use that dj(3) in blast)+
    have r1: "ring ?h1 l2 (bs @ y # ys)" "ring ?h1 e2 vs"
      using ring_frame [of l2 "bs @ y # ys" ?h1 h] ring_frame [of e2 vs ?h1 h] f1 "1.prems"(2,4) by blast+
    have m2: "ring ?h2 l2 (bs @ ys)" "ring ?h2 e2 (vs @ [y])"
      by (rule move_node(1,2) [OF r1 dj(2)])+
    have f2: "hnext ?h2 z = hnext ?h1 z \<and> hprev ?h2 z = hprev ?h1 z"
      if "z \<in> set (l1 # as @ x # xs) \<union> set (e1 # us)" for z
      by (rule move_node(3) [OF r1 dj(2)]) (use that dj(3) in blast)+
    have "set (l1 # as @ xs) \<subseteq> set (l1 # as @ x # xs)" "set (e1 # us @ [x]) \<subseteq> set (l1 # as @ x # xs) \<union> set (e1 # us)"
      by auto
    with f2 have r2: "ring ?h2 l1 (as @ xs)" "ring ?h2 e1 (us @ [x])"
      using ring_frame [of l1 "as @ xs" ?h2 ?h1] ring_frame [of e1 "us @ [x]" ?h2 ?h1] m1 by blast+
    have fresh: "x \<notin> set xs" "y \<notin> set ys" using "1.prems"(5) by auto
    have keep: "filter (\<lambda>z. z \<noteq> x \<and> z \<notin> A) xs = filter (\<lambda>z. z \<notin> A) xs"
      "filter (\<lambda>z. z \<noteq> y \<and> z \<notin> A) ys = filter (\<lambda>z. z \<notin> A) ys" for A
      using fresh by (auto intro: filter_cong)
    have dist: "distinct ((l1 # as @ xs) @ (l2 # bs @ ys) @ (e1 # us @ [x]) @ (e2 # vs @ [y]))"
      using "1.prems"(5) by auto
    have "length xs + length ys \<le> m" using "1.prems"(6) m by simp
    from "1.IH"(3) [OF lt r2(1) m2(1) r2(2) m2(2) dist this] 3 m ne hx keep show ?thesis
      by (subst extract_loop.simps) (simp add: Let_def)
  qed
qed (auto simp: extract_loop.simps)

definition cmp_sign :: "('a \<Rightarrow> 'a \<Rightarrow> int) \<Rightarrow> bool" where
  "cmp_sign cmp = (\<forall>x y. cmp x y < 0 \<longleftrightarrow> 0 < cmp y x)"

abbreviation key_count :: "('a \<Rightarrow> 'a \<Rightarrow> int) \<Rightarrow> 'a \<Rightarrow> 'a list \<Rightarrow> nat" where
  "key_count cmp k zs \<equiv> length (filter (same_key cmp k) zs)"

lemma matched_equal: "(a, b) \<in> set (matched cmp xs ys) \<Longrightarrow> cmp a b = 0"
  by (induction cmp xs ys rule: matched.induct) (auto split: if_splits)

lemma key_count_zero:
  assumes "total_cmp cmp" "in_order cmp (y # ys)" "\<not> cmp y x \<le> 0" "same_key cmp k x"
  shows "key_count cmp k (y # ys) = 0"
proof -
  have "\<not> same_key cmp k z" if "z \<in> set (y # ys)" for z
    using that assms unfolding total_cmp_def by (metis set_ConsD sorted_wrt.simps(2))
  then show ?thesis by (simp add: filter_empty_conv)
qed

lemma matched_count:
  assumes "total_cmp cmp" "cmp_sign cmp" "in_order cmp xs" "in_order cmp ys"
  shows "key_count cmp k (map fst (matched cmp xs ys)) = min (key_count cmp k xs) (key_count cmp k ys)"
  using assms
proof (induction cmp xs ys rule: matched.induct)
  case (1 cmp x xs y ys)
  have sg: "cmp x y < 0 \<longleftrightarrow> 0 < cmp y x" "cmp y x < 0 \<longleftrightarrow> 0 < cmp x y"
    using "1.prems"(2) unfolding cmp_sign_def by blast+
  consider "cmp x y < 0" | "cmp x y > 0" | "cmp x y = 0" by linarith
  then show ?case
  proof cases
    case 1
    then show ?thesis
      using "1.IH"(1) [OF 1 "1.prems"(1,2)] "1.prems"(3,4) sg key_count_zero [OF "1.prems"(1,4), of x k]
      by (cases "same_key cmp k x") auto
  next
    case 2
    then have lt: "\<not> cmp x y < 0" by simp
    show ?thesis
      using "1.IH"(2) [OF lt 2 "1.prems"(1,2)] "1.prems"(3,4) 2 lt sg key_count_zero [OF "1.prems"(1,3), of y k]
      by (cases "same_key cmp k y") auto
  next
    case 3
    then have lt: "\<not> cmp x y < 0" "\<not> cmp x y > 0" by simp_all
    with sg have "cmp x y \<le> 0" "cmp y x \<le> 0" by auto
    then have "same_key cmp k x \<longleftrightarrow> same_key cmp k y" using "1.prems"(1) unfolding total_cmp_def by meson
    with "1.IH"(3) [OF lt "1.prems"(1,2)] "1.prems"(3,4) 3 show ?thesis by auto
  qed
qed auto

lemma matched_distinct:
  "distinct xs \<Longrightarrow> distinct ys \<Longrightarrow> distinct (map fst (matched cmp xs ys)) \<and> distinct (map snd (matched cmp xs ys))"
proof (induction cmp xs ys rule: matched.induct)
  case (1 cmp x xs y ys)
  then show ?case using matched_in [of _ cmp xs ys] by auto
qed auto

lemma mset_filter_out:
  assumes "distinct xs" "distinct zs" "set zs \<subseteq> set xs"
  shows "mset xs = mset (filter (\<lambda>x. x \<notin> set zs) xs) + mset zs"
proof -
  have "mset (filter (\<lambda>x. x \<in> set zs) xs) = mset zs"
    using assms by (intro set_eq_iff_mset_eq_distinct [THEN iffD1]) auto
  then show ?thesis by (metis multiset_partition mset_filter union_commute)
qed

lemma extract_repeating_spec:
  assumes r: "ring h l1 xs" "ring h l2 ys" "ring h ex1 us" "ring h ex2 vs"
    and dj: "distinct ((l1 # xs) @ (l2 # ys) @ (ex1 # us) @ (ex2 # vs))"
    and c: "total_cmp cmp" "cmp_sign cmp" and n: "length xs \<le> n" "length ys \<le> n"
  shows "\<exists>h' xs' ys' ms. psync_list_extract_repeating n cmp h l1 l2 ex1 ex2 = Some h'
    \<and> ring h' l1 xs' \<and> ring h' l2 ys' \<and> ring h' ex1 (us @ map fst ms) \<and> ring h' ex2 (vs @ map snd ms)
    \<and> mset xs = mset xs' + mset (map fst ms) \<and> mset ys = mset ys' + mset (map snd ms)
    \<and> (\<forall>(a, b) \<in> set ms. cmp a b = 0)
    \<and> (\<forall>k. key_count cmp k (map fst ms) = min (key_count cmp k xs) (key_count cmp k ys))"
proof -
  obtain h1 xs1 where s1: "psync_list_sort n cmp h l1 = Some h1" "ring h1 l1 xs1" "mset xs1 = mset xs"
      "in_order cmp xs1" "\<forall>k. filter (same_key cmp k) xs1 = filter (same_key cmp k) xs"
      "\<forall>x. x \<notin> set (l1 # xs) \<longrightarrow> hnext h1 x = hnext h x \<and> hprev h1 x = hprev h x"
    using list_sort_spec [OF r(1) c(1) n(1)] by blast
  have d: "set (l2 # ys) \<inter> set (l1 # xs) = {}" "set (ex1 # us) \<inter> set (l1 # xs) = {}"
    "set (ex2 # vs) \<inter> set (l1 # xs) = {}" "set (l1 # xs) \<inter> set (l2 # ys) = {}"
    "set (ex1 # us) \<inter> set (l2 # ys) = {}" "set (ex2 # vs) \<inter> set (l2 # ys) = {}"
    using dj unfolding distinct_append set_append by blast+
  have r1: "ring h1 l2 ys" "ring h1 ex1 us" "ring h1 ex2 vs"
    using ring_frame [of l2 ys h1 h] ring_frame [of ex1 us h1 h] ring_frame [of ex2 vs h1 h] s1(6) d r
    by (meson disjoint_iff)+
  obtain h2 ys1 where s2: "psync_list_sort n cmp h1 l2 = Some h2" "ring h2 l2 ys1" "mset ys1 = mset ys"
      "in_order cmp ys1" "\<forall>k. filter (same_key cmp k) ys1 = filter (same_key cmp k) ys"
      "\<forall>x. x \<notin> set (l2 # ys) \<longrightarrow> hnext h2 x = hnext h1 x \<and> hprev h2 x = hprev h1 x"
    using list_sort_spec [OF r1(1) c(1) n(2)] by blast
  have se: "set xs1 = set xs" "set ys1 = set ys" using s1(3) s2(3) by (metis mset_eq_setD)+
  have r2: "ring h2 l1 xs1" "ring h2 ex1 us" "ring h2 ex2 vs"
    using ring_frame [of l1 xs1 h2 h1] ring_frame [of ex1 us h2 h1] ring_frame [of ex2 vs h2 h1] s2(6) d r1 s1(2) se(1)
    by (metis disjoint_iff list.simps(15))+
  have dist: "distinct ((l1 # [] @ xs1) @ (l2 # [] @ ys1) @ (ex1 # us) @ (ex2 # vs))"
    using dj s1(3) s2(3) se by (simp add: mset_eq_imp_distinct_iff [OF s1(3)] mset_eq_imp_distinct_iff [OF s2(3)])
  have len: "length xs1 + length ys1 \<le> 2 * n"
    using n arg_cong [OF s1(3), of size] arg_cong [OF s2(3), of size] by simp
  let ?ms = "matched cmp xs1 ys1"
  have hd: "hnext h2 l1 = hd (xs1 @ [l1])" "hnext h2 l2 = hd (ys1 @ [l2])"
    using ring_links(1) [of h2 l1 "[]" xs1] ring_links(1) [of h2 l2 "[]" ys1] r2(1) s2(2) by simp_all
  obtain h' where h': "extract_loop (2 * n) cmp h2 l1 l2 ex1 ex2 (hd (xs1 @ [l1])) (hd (ys1 @ [l2])) = Some h'"
      "ring h' l1 (filter (\<lambda>x. x \<notin> set (map fst ?ms)) xs1)" "ring h' l2 (filter (\<lambda>y. y \<notin> set (map snd ?ms)) ys1)"
      "ring h' ex1 (us @ map fst ?ms)" "ring h' ex2 (vs @ map snd ?ms)"
    using extract_loop_spec [OF _ _ r2(2,3) dist len, of cmp] r2(1) s2(2) by auto
  have md: "distinct (map fst ?ms)" "distinct (map snd ?ms)"
    using matched_distinct [of xs1 ys1 cmp] ring_distinct [OF r2(1)] ring_distinct [OF s2(2)] by blast+
  have ms: "mset xs = mset (filter (\<lambda>x. x \<notin> set (map fst ?ms)) xs1) + mset (map fst ?ms)"
    "mset ys = mset (filter (\<lambda>y. y \<notin> set (map snd ?ms)) ys1) + mset (map snd ?ms)"
    using mset_filter_out [OF _ md(1), of xs1] mset_filter_out [OF _ md(2), of ys1] matched_subset [of cmp xs1 ys1]
      ring_distinct [OF r2(1)] ring_distinct [OF s2(2)] s1(3) s2(3) by simp_all
  have "psync_list_extract_repeating n cmp h l1 l2 ex1 ex2 = Some h'"
    using s1(1) s2(1) h'(1) hd by (simp add: psync_list_extract_repeating_def)
  moreover have "\<forall>(a, b) \<in> set ?ms. cmp a b = 0" using matched_equal [of _ _ cmp xs1 ys1] by auto
  moreover have "\<forall>k. key_count cmp k (map fst ?ms) = min (key_count cmp k xs) (key_count cmp k ys)"
    using matched_count [OF c s1(4) s2(4)] s1(5) s2(5) by simp
  ultimately show ?thesis using h'(2-5) ms by blast
qed

subsection \<open>Properties\<close>


definition sample_links :: links where
  "sample_links = \<lparr>hnext = id(0 := 1, 1 := 2, 2 := 3, 3 := 0, 10 := 11, 11 := 12, 12 := 10),
     hprev = id(1 := 0, 2 := 1, 3 := 2, 0 := 3, 11 := 10, 12 := 11, 10 := 12)\<rparr>"

definition cmp_mod :: "addr \<Rightarrow> addr \<Rightarrow> int" where
  "cmp_mod a b = int (a mod 2) - int (b mod 2)"

lemma cmp_mod_ok: "total_cmp cmp_mod" "cmp_sign cmp_mod"
  by (auto simp: total_cmp_def cmp_sign_def cmp_mod_def)


text \<open>C11: Extracting what two lists have in common pairs nodes that compare equal, as many of each key as both
  lists have, moves them to the ends of the two result lists in pairs, and keeps all other nodes where they were.\<close>

theorem list_extract_repeating:
  assumes "ring h l1 xs" "ring h l2 ys" "ring h ex1 us" "ring h ex2 vs"
    and "distinct ((l1 # xs) @ (l2 # ys) @ (ex1 # us) @ (ex2 # vs))"
    and "total_cmp cmp" "cmp_sign cmp" and "length xs \<le> n" "length ys \<le> n"
  shows "\<exists>h' xs' ys' ms. psync_list_extract_repeating n cmp h l1 l2 ex1 ex2 = Some h'
    \<and> ring h' l1 xs' \<and> ring h' l2 ys' \<and> ring h' ex1 (us @ map fst ms) \<and> ring h' ex2 (vs @ map snd ms)
    \<and> mset xs = mset xs' + mset (map fst ms) \<and> mset ys = mset ys' + mset (map snd ms)
    \<and> (\<forall>(a, b) \<in> set ms. cmp a b = 0)
    \<and> (\<forall>k. key_count cmp k (map fst ms) = min (key_count cmp k xs) (key_count cmp k ys))"
  using assms by (rule extract_repeating_spec)

theorem list_extract_repeating_witness:
  "\<exists>h' xs' ys' ms. psync_list_extract_repeating 3 cmp_mod sample_links 0 10 20 21 = Some h'
    \<and> ring h' 0 xs' \<and> ring h' 10 ys' \<and> ring h' 20 (map fst ms) \<and> ring h' 21 (map snd ms)
    \<and> {#1, 2, 3#} = mset xs' + mset (map fst ms)"
  using list_extract_repeating [of sample_links 0 "[1, 2, 3]" 10 "[11, 12]" 20 "[]" 21 "[]" cmp_mod 3] cmp_mod_ok
  by (auto simp: ring_def sample_links_def)

end
