(* ===== verification/Ptimer.thy ===== *)
theory Ptimer
  imports Prelude
begin

section \<open>Timers (\<open>ptimer.c\<close>)\<close>

text \<open>
  The hierarchical timer wheel: three levels of 64 slots, a list of timers per slot.  A timer is an address;
  its structure is in a store.  \<^verbatim>\<open>time_t\<close> is an \<open>int\<close>: times are seconds since the epoch and never negative, so
  \<open>div\<close> and \<open>mod\<close> are the C operators, and nothing comes near the limits of the type.  A linked list is the
  sequence of its nodes (rings are treated in theory \<open>Plist\<close>).  The body of the thread loop is two steps, since callbacks
  run between them without the lock: \<open>timer_thread_prepare\<close> advances the clock and the wheel,
  \<open>timer_thread_finish\<close> puts the expired timers back.
\<close>

subsection \<open>State\<close>

abbreviation TIMER_ARRAY_SIZE_SHIFT :: nat where "TIMER_ARRAY_SIZE_SHIFT \<equiv> 6"
abbreviation TIMER_ARRAY_SIZE :: int where "TIMER_ARRAY_SIZE \<equiv> 64"
abbreviation TIMER_LEVELS :: nat where "TIMER_LEVELS \<equiv> 3"

record timer =
  numsec :: int
  runat :: int
  level :: nat
  is_running :: bool
  stop_after_run :: bool

record wheel =
  timerlists :: "nat \<Rightarrow> nat \<Rightarrow> addr list"
  tm :: "addr \<Rightarrow> timer"

definition slot_of :: "nat \<Rightarrow> int \<Rightarrow> nat" where
  "slot_of sh r = nat ((r div 2 ^ sh) mod TIMER_ARRAY_SIZE)"

definition add_slot :: "wheel \<Rightarrow> nat \<Rightarrow> nat \<Rightarrow> addr \<Rightarrow> wheel" where
  "add_slot w l s a = w\<lparr>timerlists := (timerlists w)(l := (timerlists w l)(s := timerlists w l s @ [a]))\<rparr>"

definition clear_slot :: "wheel \<Rightarrow> nat \<Rightarrow> nat \<Rightarrow> wheel" where
  "clear_slot w l s = w\<lparr>timerlists := (timerlists w)(l := (timerlists w l)(s := []))\<rparr>"

definition unlink :: "wheel \<Rightarrow> addr \<Rightarrow> wheel" where
  "unlink w a = w\<lparr>timerlists := (\<lambda>l s. removeAll a (timerlists w l s))\<rparr>"

definition set_timer :: "wheel \<Rightarrow> addr \<Rightarrow> timer \<Rightarrow> wheel" where
  "set_timer w a t = w\<lparr>tm := (tm w)(a := t)\<rparr>"

subsection \<open>Advancing the wheel\<close>

definition cascade :: "wheel \<Rightarrow> nat \<Rightarrow> nat \<Rightarrow> nat \<Rightarrow> wheel" where
  "cascade w lev sh m =
     clear_slot (fold (\<lambda>a w. add_slot w lev (slot_of sh (runat (tm w a))) a) (timerlists w (lev + 1) m) w)
       (lev + 1) m"

function timer_check_upper_levels :: "wheel \<Rightarrow> int \<Rightarrow> nat \<Rightarrow> nat \<Rightarrow> wheel" where
  "timer_check_upper_levels w tmdiv lev sh =
     (let m = tmdiv mod TIMER_ARRAY_SIZE;
          w1 = (if m = 0 \<and> lev < TIMER_LEVELS - 2
                then timer_check_upper_levels w (tmdiv div TIMER_ARRAY_SIZE) (lev + 1) (sh + TIMER_ARRAY_SIZE_SHIFT)
                else w)
      in cascade w1 lev sh (nat m))"
  by pat_completeness auto
termination by (relation "measure (\<lambda>(w, t, lev, sh). TIMER_LEVELS - lev)") auto

declare timer_check_upper_levels.simps [simp del]

definition mark_running :: "wheel \<Rightarrow> addr \<Rightarrow> wheel" where
  "mark_running w a = set_timer w a ((tm w a)\<lparr>is_running := True\<rparr>)"

definition timer_tick :: "int \<Rightarrow> wheel \<times> addr list \<Rightarrow> wheel \<times> addr list" where
  "timer_tick i wl =
     (let (w, list) = wl; m = nat (i mod TIMER_ARRAY_SIZE);
          w1 = (if m = 0 then timer_check_upper_levels w (i div TIMER_ARRAY_SIZE) 0 0 else w);
          l = timerlists w1 0 m
      in (clear_slot (fold (\<lambda>a w. mark_running w a) l w1) 0 m, list @ l))"

fun prepare_loop :: "nat \<Rightarrow> int \<Rightarrow> wheel \<times> addr list \<Rightarrow> wheel \<times> addr list" where
  "prepare_loop 0 i wl = wl"
| "prepare_loop (Suc n) i wl = prepare_loop n (i + 1) (timer_tick i wl)"

definition timer_prepare_timers :: "wheel \<Rightarrow> int \<Rightarrow> int \<Rightarrow> addr list \<Rightarrow> wheel \<times> addr list" where
  "timer_prepare_timers w from to list = prepare_loop (nat (to - from)) (from + 1) (w, list)"

subsection \<open>Registering, restarting and stopping\<close>

definition place_timer :: "wheel \<Rightarrow> int \<Rightarrow> addr \<Rightarrow> wheel" where
  "place_timer w now a =
     (let t = (tm w a)\<lparr>runat := now + numsec (tm w a)\<rparr>
      in add_slot (set_timer w a t) (level t) (slot_of (level t * TIMER_ARRAY_SIZE_SHIFT) (runat t)) a)"

definition process_timer :: "int \<Rightarrow> addr \<Rightarrow> wheel \<Rightarrow> wheel" where
  "process_timer now a w =
     (if \<not> stop_after_run (tm w a)
      then place_timer (set_timer w a ((tm w a)\<lparr>is_running := False, stop_after_run := False\<rparr>)) now a
      else w)"

text \<open>The timers that are left in the list afterwards are freed: second component.\<close>

definition timer_process_timers :: "wheel \<Rightarrow> int \<Rightarrow> addr list \<Rightarrow> wheel \<times> addr list" where
  "timer_process_timers w now timers =
     (fold (process_timer now) timers w, filter (\<lambda>a. stop_after_run (tm w a)) timers)"

fun find_level :: "nat \<Rightarrow> int \<Rightarrow> int \<Rightarrow> nat \<Rightarrow> nat \<times> int" where
  "find_level 0 ns n i = (i, n)"
| "find_level (Suc k) ns n i = (if ns \<le> n then (i, n) else find_level k ns (n * TIMER_ARRAY_SIZE) (i + 1))"

definition psync_timer_register :: "wheel \<Rightarrow> int \<Rightarrow> addr \<Rightarrow> int \<Rightarrow> wheel" where
  "psync_timer_register w now a ns =
     (let (i, n) = find_level TIMER_LEVELS ns TIMER_ARRAY_SIZE 0;
          (ns, i) = (if i = TIMER_LEVELS then (n div TIMER_ARRAY_SIZE, i - 1) else (ns, i))
      in place_timer (set_timer w a
           \<lparr>numsec = ns, runat = 0, level = i, is_running = False, stop_after_run = False\<rparr>) now a)"

text \<open>The second component is the C result: 0 when the timer was unlinked and freed, 1 when it is running.\<close>

definition psync_timer_stop :: "wheel \<Rightarrow> addr \<Rightarrow> wheel \<times> int" where
  "psync_timer_stop w a =
     (if is_running (tm w a) then (set_timer w a ((tm w a)\<lparr>stop_after_run := True\<rparr>), 1)
      else (unlink w a, 0))"

subsection \<open>The timer thread\<close>

record tstate =
  twheel :: wheel
  psync_current_time :: int
  last_time :: int
  timers :: "addr list"
  in_callbacks :: bool

definition psync_timer_init :: "(addr \<Rightarrow> timer) \<Rightarrow> int \<Rightarrow> tstate" where
  "psync_timer_init t now = \<lparr>twheel = \<lparr>timerlists = (\<lambda>_ _. []), tm = t\<rparr>, psync_current_time = now,
     last_time = now, timers = [], in_callbacks = False\<rparr>"

definition timer_thread_prepare :: "int \<Rightarrow> tstate \<Rightarrow> tstate" where
  "timer_thread_prepare now s =
     (let (w, l) = timer_prepare_timers (twheel s) (last_time s) now []
      in s\<lparr>twheel := w, psync_current_time := now, timers := l, in_callbacks := True\<rparr>)"

definition timer_thread_finish :: "tstate \<Rightarrow> tstate" where
  "timer_thread_finish s =
     (let (w, freed) = timer_process_timers (twheel s) (psync_current_time s) (timers s)
      in s\<lparr>twheel := (if timers s = [] then twheel s else w), timers := [],
           last_time := psync_current_time s, in_callbacks := False\<rparr>)"

text \<open>Whether the loop reports a suspended machine after the iteration.\<close>

definition timer_sleeps :: "tstate \<Rightarrow> bool" where
  "timer_sleeps s = (psync_current_time s - last_time s \<ge> 25)"

subsection \<open>Exception and sleep handlers\<close>

record ('f, 'p) handlers =
  exceptions :: "('f \<times> 'p) list"
  sleeplist :: "('f \<times> 'p) list"

definition psync_timer_exception_handler :: "('f, 'p) handlers \<Rightarrow> 'f \<Rightarrow> 'p \<Rightarrow> ('f, 'p) handlers" where
  "psync_timer_exception_handler h func self = h\<lparr>exceptions := (func, self) # exceptions h\<rparr>"

definition psync_timer_sleep_handler :: "('f, 'p) handlers \<Rightarrow> 'f \<Rightarrow> 'p \<Rightarrow> ('f, 'p) handlers" where
  "psync_timer_sleep_handler h func self = h\<lparr>sleeplist := (func, self) # sleeplist h\<rparr>"

text \<open>The callbacks that run, in order.\<close>

definition psync_timer_do_notify_exception :: "('f, 'p) handlers \<Rightarrow> 'p \<Rightarrow> 'f list" where
  "psync_timer_do_notify_exception h self = map fst (filter (\<lambda>(f, p). p \<noteq> self) (exceptions h))"

definition timer_sleep_detected :: "('f, 'p) handlers \<Rightarrow> 'p \<Rightarrow> 'f list" where
  "timer_sleep_detected h self = map fst (sleeplist h) @ psync_timer_do_notify_exception h self"

subsection \<open>The invariant of the wheel\<close>

text \<open>A timer at level \<open>l\<close> is due in one of the next 64 slots of that level, counted from time \<open>c\<close>.\<close>

definition in_window :: "nat \<Rightarrow> int \<Rightarrow> int \<Rightarrow> bool" where
  "in_window l c r = (c div 64 ^ l < r div 64 ^ l \<and> r div 64 ^ l \<le> c div 64 ^ l + 64)"

text \<open>Every listed timer is in the slot of its due time and in the window of its level (the clock of the
  levels may differ within a tick), and in one list only, once.\<close>

definition wheel_at :: "(nat \<Rightarrow> int) \<Rightarrow> wheel \<Rightarrow> bool" where
  "wheel_at f w = ((\<forall>l s. \<forall>a \<in> set (timerlists w l s).
      l < TIMER_LEVELS \<and> s = slot_of (l * 6) (runat (tm w a)) \<and> in_window l (f l) (runat (tm w a)))
    \<and> (\<forall>l s. distinct (timerlists w l s))
    \<and> (\<forall>a l s l' s'. a \<in> set (timerlists w l s) \<longrightarrow> a \<in> set (timerlists w l' s') \<longrightarrow> l' = l \<and> s' = s))"

abbreviation wheel_ok :: "int \<Rightarrow> wheel \<Rightarrow> bool" where
  "wheel_ok c \<equiv> wheel_at (\<lambda>_. c)"

definition held :: "wheel \<Rightarrow> addr \<Rightarrow> bool" where
  "held w a = (\<exists>l s. a \<in> set (timerlists w l s))"

lemma wheel_simps [simp]:
  "tm (add_slot w l s a) = tm w" "tm (clear_slot w l s) = tm w" "tm (unlink w a) = tm w"
  "timerlists (set_timer w a t) = timerlists w" "tm (set_timer w a t) = (tm w)(a := t)"
  "timerlists (unlink w a) l s = removeAll a (timerlists w l s)"
  "timerlists (add_slot w l s a) l' s' = (if l' = l \<and> s' = s then timerlists w l s @ [a] else timerlists w l' s')"
  "timerlists (clear_slot w l s) l' s' = (if l' = l \<and> s' = s then [] else timerlists w l' s')"
  by (auto simp: add_slot_def clear_slot_def unlink_def set_timer_def)

lemma fold_add_slot:
  "tm (fold (\<lambda>a w. add_slot w lev (slot_of sh (runat (tm w a))) a) l w) = tm w"
  "timerlists (fold (\<lambda>a w. add_slot w lev (slot_of sh (runat (tm w a))) a) l w) l' s' =
     (if l' = lev then timerlists w lev s' @ filter (\<lambda>a. slot_of sh (runat (tm w a)) = s') l
      else timerlists w l' s')"
  by (induction l arbitrary: w) auto

lemma cascade_simps [simp]:
  "tm (cascade w lev sh m) = tm w"
  "timerlists (cascade w lev sh m) l' s' =
     (if l' = lev then timerlists w lev s' @ filter (\<lambda>a. slot_of sh (runat (tm w a)) = s') (timerlists w (lev + 1) m)
      else if l' = lev + 1 \<and> s' = m then [] else timerlists w l' s')"
  by (auto simp: cascade_def fold_add_slot)

lemma fold_mark_running:
  "timerlists (fold (\<lambda>a w. mark_running w a) l w) = timerlists w"
  "tm (fold (\<lambda>a w. mark_running w a) l w) a = (if a \<in> set l then (tm w a)\<lparr>is_running := True\<rparr> else tm w a)"
  by (induction l arbitrary: w) (auto simp: mark_running_def)

subsection \<open>Windows\<close>

lemma div_pred:
  fixes i :: int
  assumes "0 < (b :: int)"
  shows "(i - 1) div b = (if b dvd i then i div b - 1 else i div b)"
proof (cases "b dvd i")
  case True
  then obtain k where "i = b * k" by auto
  with assms have "(i - 1) div b = k + (- 1) div b" by (metis add.commute div_mult_self2 less_irrefl uminus_add_conv_diff)
  moreover have "(- 1) div b = - 1" using assms by (simp add: div_eq_minus1)
  ultimately show ?thesis using \<open>i = b * k\<close> assms by simp
next
  case False
  then have "i mod b \<noteq> 0" by (simp add: dvd_eq_mod_eq_0)
  then have "1 \<le> i mod b" "i mod b < b" using pos_mod_sign [OF assms, of i] pos_mod_bound [OF assms, of i] by linarith+
  moreover have "i - 1 = b * (i div b) + (i mod b - 1)" by simp
  ultimately have "(i - 1) div b = i div b"
    using assms by (smt (verit, best) div_pos_pos_trivial div_mult_self4 mult.commute)
  with False show ?thesis by simp
qed

lemma same_slot:
  "s = slot_of sh r \<Longrightarrow> s = nat (q mod 64) \<Longrightarrow> (r div 2 ^ sh) mod 64 = q mod 64"
  by (simp add: slot_of_def)

lemma window_hit:
  fixes c r q :: int
  assumes "c - 1 < r" "r \<le> c - 1 + 64" "r mod 64 = c mod 64"
  shows "r = c"
proof -
  have "(r - c) mod 64 = 0" using assms(3) by (metis cancel_comm_monoid_add_class.diff_cancel mod_0 mod_diff_cong)
  moreover have "(r - c) mod 64 = r - c" using assms(1,2) by (intro mod_pos_pos_trivial) auto
  ultimately show ?thesis by simp
qed

lemma power_shift: "(2::int) ^ (l * 6) = 64 ^ l"
  by (subst mult.commute) (simp add: power_mult)

lemma slot_of_level: "slot_of (l * 6) r = nat ((r div 64 ^ l) mod 64)"
  by (simp add: slot_of_def power_shift)

lemma wheel_at_no_cascade:
  assumes "wheel_at f w" "f l = i - 1" "\<not> (64 ^ l dvd i)"
  shows "wheel_at (f(l := i)) w"
proof -
  have "(i - 1) div 64 ^ l = i div 64 ^ l" using div_pred [of "64 ^ l" i] assms(3) by simp
  then have "in_window l i r \<longleftrightarrow> in_window l (f l) r" for r by (simp add: in_window_def assms(2))
  with assms(1) show ?thesis by (simp add: wheel_at_def)
qed

lemma due_now:
  assumes "in_window l (i - 1) r" "s = slot_of (l * 6) r" "s = nat ((i div 64 ^ l) mod 64)" "64 ^ l dvd i"
  shows "r div 64 ^ l = i div 64 ^ l"
  using assms window_hit [of "i div 64 ^ l" "r div 64 ^ l"] div_pred [of "64 ^ l" i]
    same_slot [of s "l * 6" r "i div 64 ^ l"]
  by (simp add: in_window_def power_shift)

lemma later_slot:
  assumes "in_window l (i - 1) r" "r div 64 ^ l \<noteq> i div 64 ^ l" "64 ^ l dvd i"
  shows "in_window l i r"
  using assms div_pred [of "64 ^ l" i] by (auto simp: in_window_def)

lemma aligned_bounds: "x div 64 = y div 64 \<Longrightarrow> 64 dvd y \<Longrightarrow> y \<le> x \<and> x < y + 64" for x y :: int
  using dvd_mult_div_cancel [of 64 y] mult_div_mod_eq [of 64 x] pos_mod_sign [of 64 x] pos_mod_bound [of 64 x]
  by linarith

lemma cascaded_window:
  assumes "r div 64 ^ (l + 1) = i div 64 ^ (l + 1)" "64 ^ (l + 1) dvd i"
  shows "in_window l (i - 1) r"
proof -
  have "64 ^ l dvd i" using assms(2) by (metis add.commute dvd_trans le_add2 le_imp_power_dvd)
  then have c: "(i - 1) div 64 ^ l = i div 64 ^ l - 1" using div_pred [of "64 ^ l" i] by simp
  have "r div 64 ^ l div 64 = i div 64 ^ l div 64"
    using assms(1) by (simp add: zdiv_zmult2_eq [symmetric] mult.commute)
  moreover have "64 dvd i div 64 ^ l" using assms(2) by (auto simp: dvd_def)
  ultimately have "i div 64 ^ l \<le> r div 64 ^ l" "r div 64 ^ l < i div 64 ^ l + 64"
    using aligned_bounds by blast+
  with c show ?thesis by (simp add: in_window_def)
qed

lemma wheel_atD:
  assumes "wheel_at f w" "a \<in> set (timerlists w l s)"
  shows "l < TIMER_LEVELS" "s = slot_of (l * 6) (runat (tm w a))" "in_window l (f l) (runat (tm w a))"
    "a \<in> set (timerlists w l' s') \<Longrightarrow> l' = l \<and> s' = s"
  using assms unfolding wheel_at_def by blast+

lemma wheel_atI:
  assumes "\<And>a l s. a \<in> set (timerlists w l s) \<Longrightarrow> l < TIMER_LEVELS \<and> s = slot_of (l * 6) (runat (tm w a))
      \<and> in_window l (f l) (runat (tm w a))"
    and "\<And>l s. distinct (timerlists w l s)"
    and "\<And>a l s l' s'. a \<in> set (timerlists w l s) \<Longrightarrow> a \<in> set (timerlists w l' s') \<Longrightarrow> l' = l \<and> s' = s"
  shows "wheel_at f w"
  using assms unfolding wheel_at_def by blast

lemma wheel_at_distinct: "wheel_at f w \<Longrightarrow> distinct (timerlists w l s)"
  by (simp add: wheel_at_def)

lemma wheel_at_cascade:
  assumes ok: "wheel_at f w" and f: "f (l + 1) = i - 1" "f l = i - 1"
    and i: "64 ^ (l + 1) dvd i" "l + 1 < TIMER_LEVELS" "m = nat ((i div 64 ^ (l + 1)) mod 64)"
  shows "wheel_at (f(l + 1 := i)) (cascade w l (l * 6) m)"
proof -
  let ?w = "cascade w l (l * 6) m"
  have due: "runat (tm w a) div 64 ^ (l + 1) = i div 64 ^ (l + 1)" if "a \<in> set (timerlists w (l + 1) m)" for a
    using wheel_atD [OF ok that] f i by (intro due_now [of "l + 1" i _ m]) auto
  have later: "in_window (l + 1) i (runat (tm w a))" if a: "a \<in> set (timerlists w (l + 1) s)" and "s \<noteq> m" for a s
  proof (rule later_slot)
    show "in_window (l + 1) (i - 1) (runat (tm w a))" using wheel_atD(3) [OF ok a] f(1) by simp
    show "runat (tm w a) div 64 ^ (l + 1) \<noteq> i div 64 ^ (l + 1)"
      using wheel_atD(2) [OF ok a] that(2) i(3) by (metis slot_of_level)
  qed (rule i)
  have origin: "a \<in> set (timerlists w l' s') \<and> \<not> (l' = l + 1 \<and> s' = m)
      \<or> l' = l \<and> a \<in> set (timerlists w (l + 1) m) \<and> s' = slot_of (l * 6) (runat (tm w a))"
    if "a \<in> set (timerlists ?w l' s')" for a l' s'
    using that by (auto split: if_splits)
  have "l' < TIMER_LEVELS \<and> s' = slot_of (l' * 6) (runat (tm w a)) \<and> in_window l' ((f(l + 1 := i)) l') (runat (tm w a))"
    if a: "a \<in> set (timerlists ?w l' s')" for a l' s'
  proof -
    from origin [OF a] show ?thesis
    proof (elim disjE conjE)
      assume 1: "a \<in> set (timerlists w l' s')" "\<not> (l' = l + 1 \<and> s' = m)"
      note old = wheel_atD(1-3) [OF ok 1(1)]
      show ?thesis
      proof (cases "l' = l + 1")
        case True
        with 1 later [of a s'] old show ?thesis by simp
      next
        case False
        with old show ?thesis by simp
      qed
    next
      assume 2: "l' = l" "a \<in> set (timerlists w (l + 1) m)" "s' = slot_of (l * 6) (runat (tm w a))"
      with due [THEN cascaded_window [OF _ i(1)]] f i(2) show ?thesis by simp
    qed
  qed
  moreover have "distinct (timerlists ?w l' s')" for l' s'
  proof -
    have "set (timerlists w l s') \<inter> set (timerlists w (l + 1) m) = {}"
      using wheel_atD(4) [OF ok] by (metis Suc_eq_plus1 disjoint_iff n_not_Suc_n)
    then show ?thesis using wheel_at_distinct [OF ok] by auto
  qed
  moreover have "a \<in> set (timerlists ?w l1 s1) \<Longrightarrow> a \<in> set (timerlists ?w l2 s2) \<Longrightarrow> l2 = l1 \<and> s2 = s1" for a l1 s1 l2 s2
    using wheel_atD(4) [OF ok] origin [of a l1 s1] origin [of a l2 s2] by metis
  ultimately show ?thesis unfolding wheel_at_def cascade_simps(1) by blast
qed

lemma held_cascade: "held (cascade w l sh m) a \<longleftrightarrow> held w a"
proof
  assume "held (cascade w l sh m) a"
  then show "held w a" by (auto simp: held_def split: if_splits)
next
  assume "held w a"
  then obtain l1 s1 where a: "a \<in> set (timerlists w l1 s1)" by (auto simp: held_def)
  show "held (cascade w l sh m) a"
  proof (cases "l1 = l + 1 \<and> s1 = m")
    case True
    with a have "a \<in> set (timerlists (cascade w l sh m) l (slot_of sh (runat (tm w a))))" by simp
    then show ?thesis unfolding held_def by blast
  next
    case False
    with a have "a \<in> set (timerlists (cascade w l sh m) l1 s1)" by auto
    then show ?thesis unfolding held_def by blast
  qed
qed

subsection \<open>One tick\<close>

lemma wheel_at_clock:
  "wheel_at f w \<Longrightarrow> (\<And>l. l < TIMER_LEVELS \<Longrightarrow> f l = g l) \<Longrightarrow> wheel_at g w"
  by (simp add: wheel_at_def cong: conj_cong)

lemma dvd_4096: "64 dvd i \<Longrightarrow> 4096 dvd i \<longleftrightarrow> (i div 64) mod 64 = 0" for i :: int
  using dvd_times_left_cancel_iff [of 64 64] by (fastforce simp: dvd_def mod_eq_0_iff_dvd)

lemma check_upper_levels:
  assumes ok: "wheel_ok (i - 1) w" and i: "64 dvd i"
  defines "w' \<equiv> timer_check_upper_levels w (i div 64) 0 0"
  shows "wheel_at ((\<lambda>_. i)(0 := i - 1)) w'" "tm w' = tm w" "held w' a \<longleftrightarrow> held w a"
proof -
  define w1 where "w1 = (if (i div 64) mod 64 = 0 then cascade w 1 6 (nat ((i div 64 div 64) mod 64)) else w)"
  have w': "w' = cascade w1 0 0 (nat ((i div 64) mod 64))"
    unfolding w'_def w1_def
    by (subst timer_check_upper_levels.simps) (simp add: Let_def timer_check_upper_levels.simps [of _ _ "Suc 0"] cong: if_cong)
  have sq: "i div 64 div 64 = i div 4096" using zdiv_zmult2_eq [of 64 i 64] by simp
  have "wheel_at ((\<lambda>_. i - 1)(2 := i)) w1"
  proof (cases "4096 dvd i")
    case True
    then have "(i div 64) mod 64 = 0" using dvd_4096 [OF i] by simp
    with True wheel_at_cascade [OF ok, where l = 1 and i = i and m = "nat ((i div 4096) mod 64)"] sq show ?thesis
      by (simp add: w1_def numeral_2_eq_2)
  next
    case False
    then have "(i div 64) mod 64 \<noteq> 0" using dvd_4096 [OF i] by simp
    with False wheel_at_no_cascade [OF ok, where l = 2 and i = i] show ?thesis by (simp add: w1_def)
  qed
  moreover have "wheel_at (f(1 := i)) w'" if "wheel_at f w1" "f 1 = i - 1" "f 0 = i - 1" for f
    using wheel_at_cascade [of f w1 0 i "nat ((i div 64) mod 64)"] that i by (simp add: w')
  ultimately have "wheel_at ((\<lambda>_. i - 1)(2 := i, 1 := i)) w'" by simp
  then show "wheel_at ((\<lambda>_. i)(0 := i - 1)) w'"
    by (rule wheel_at_clock) (auto simp: less_Suc_eq numeral_3_eq_3)
  show "tm w' = tm w" "held w' a \<longleftrightarrow> held w a" by (auto simp: w' w1_def held_cascade)
qed

lemma upper_levels_advance:
  assumes ok: "wheel_ok (i - 1) w"
  defines "w1 \<equiv> (if nat (i mod 64) = 0 then timer_check_upper_levels w (i div 64) 0 0 else w)"
  shows "wheel_at ((\<lambda>_. i)(0 := i - 1)) w1" "tm w1 = tm w" "held w1 a \<longleftrightarrow> held w a"
proof -
  have z: "nat (i mod 64) = 0 \<longleftrightarrow> 64 dvd i"
    using pos_mod_sign [of 64 i] by (auto simp: dvd_eq_mod_eq_0)
  have "wheel_at ((\<lambda>_. i)(0 := i - 1)) w" if n: "\<not> 64 dvd i"
  proof -
    have "wheel_at ((\<lambda>_. i - 1)(1 := i)) w"
      using wheel_at_no_cascade [OF ok, where l = 1 and i = i] n by simp
    moreover have "\<not> 64 ^ 2 dvd i" using n by (metis dvd_trans dvd_triv_left power2_eq_square)
    ultimately have "wheel_at ((\<lambda>_. i - 1)(1 := i, 2 := i)) w"
      using wheel_at_no_cascade [where f = "(\<lambda>_. i - 1)(1 := i)" and l = 2 and i = i] by simp
    then show ?thesis by (rule wheel_at_clock) (auto simp: less_Suc_eq numeral_3_eq_3)
  qed
  with check_upper_levels [OF ok] z
  show "wheel_at ((\<lambda>_. i)(0 := i - 1)) w1" "tm w1 = tm w" "held w1 a \<longleftrightarrow> held w a"
    by (auto simp: w1_def)
qed

lemma held_clear:
  assumes "wheel_at f w"
  shows "held (clear_slot w l s) a \<longleftrightarrow> held w a \<and> a \<notin> set (timerlists w l s)"
  using wheel_atD(4) [OF assms] by (auto simp: held_def split: if_splits) metis

lemma tick_spec:
  assumes ok: "wheel_ok (i - 1) w"
  shows "\<exists>w' l. timer_tick i (w, list) = (w', list @ l) \<and> wheel_ok i w' \<and> distinct l
    \<and> (\<forall>a. a \<in> set l \<longleftrightarrow> held w a \<and> runat (tm w a) = i)
    \<and> (\<forall>a. held w' a \<longleftrightarrow> held w a \<and> runat (tm w a) \<noteq> i)
    \<and> (\<forall>a. tm w' a = (if a \<in> set l then (tm w a)\<lparr>is_running := True\<rparr> else tm w a))"
proof -
  define m where "m = nat (i mod 64)"
  define w1 where "w1 = (if m = 0 then timer_check_upper_levels w (i div 64) 0 0 else w)"
  define l where "l = timerlists w1 0 m"
  define w2 where "w2 = clear_slot (fold (\<lambda>a w. mark_running w a) l w1) 0 m"
  note adv = upper_levels_advance [OF ok, folded m_def, folded w1_def]
  note at = adv(1)
  have hit: "a \<in> set l \<longleftrightarrow> held w a \<and> runat (tm w a) = i" for a
  proof
    assume a: "a \<in> set l"
    then have "held w1 a" by (auto simp: l_def held_def)
    moreover have "runat (tm w1 a) div 64 ^ 0 = i div 64 ^ 0"
    proof (rule due_now)
      note here = a [unfolded l_def]
      show "in_window 0 (i - 1) (runat (tm w1 a))" using wheel_atD(3) [OF at here] by simp
      show "m = slot_of (0 * 6) (runat (tm w1 a))" by (rule wheel_atD(2) [OF at here])
    qed (simp_all add: m_def)
    ultimately show "held w a \<and> runat (tm w a) = i" using adv by simp
  next
    assume a: "held w a \<and> runat (tm w a) = i"
    then obtain k s where k: "a \<in> set (timerlists w1 k s)" using adv(3) unfolding held_def by blast
    have "k = 0" using wheel_atD(3) [OF at k] a adv(2) by (cases k) (auto simp: in_window_def)
    with wheel_atD(2) [OF at k] a adv(2) k show "a \<in> set l" by (simp add: l_def m_def slot_of_def)
  qed
  have lists: "timerlists w2 k s = (if k = 0 \<and> s = m then [] else timerlists w1 k s)" for k s
    by (simp add: w2_def fold_mark_running)
  have run: "runat (tm w2 a) = runat (tm w1 a)" for a by (simp add: w2_def fold_mark_running)
  have "in_window 0 i (runat (tm w1 a))" if a: "a \<in> set (timerlists w1 0 s)" "s \<noteq> m" for a s
  proof (rule later_slot)
    show "in_window 0 (i - 1) (runat (tm w1 a))" using wheel_atD(3) [OF at a(1)] by simp
    show "runat (tm w1 a) div 64 ^ 0 \<noteq> i div 64 ^ 0"
      using wheel_atD(2) [OF at a(1)] a(2) by (auto simp: m_def slot_of_def)
  qed simp
  then have win: "in_window k i (runat (tm w1 a))" if "a \<in> set (timerlists w1 k s)" "\<not> (k = 0 \<and> s = m)" for a k s
    using wheel_atD(3) [OF at that(1)] that by (cases "k = 0") auto
  have old: "a \<in> set (timerlists w1 k s) \<and> \<not> (k = 0 \<and> s = m)" if "a \<in> set (timerlists w2 k s)" for a k s
    using that by (simp add: lists split: if_splits)
  have "wheel_ok i w2"
  proof (rule wheel_atI)
    fix a k s assume a: "a \<in> set (timerlists w2 k s)"
    show "k < TIMER_LEVELS \<and> s = slot_of (k * 6) (runat (tm w2 a)) \<and> in_window k i (runat (tm w2 a))"
      unfolding run using wheel_atD(1,2) [OF at] win old [OF a] by metis
    show "k' = k \<and> s' = s" if "a \<in> set (timerlists w2 k' s')" for k' s'
      using wheel_atD(4) [OF at] old [OF a] old [OF that] by metis
  qed (simp add: lists wheel_at_distinct [OF at])
  moreover have "held w2 a \<longleftrightarrow> held w a \<and> runat (tm w a) \<noteq> i" for a
    using held_clear [OF at, of 0 m a] hit [of a] adv(3) lists by (auto simp: held_def l_def)
  moreover have "tm w2 a = (if a \<in> set l then (tm w a)\<lparr>is_running := True\<rparr> else tm w a)" for a
    by (simp add: w2_def fold_mark_running adv(2))
  moreover have "timer_tick i (w, list) = (w2, list @ l)"
    by (simp add: timer_tick_def Let_def w2_def l_def w1_def m_def cong: if_cong)
  ultimately show ?thesis using hit wheel_at_distinct [OF at] l_def by blast
qed

subsection \<open>Advancing by several seconds\<close>

lemma prepare_loop_spec:
  assumes "wheel_ok (i - 1) w"
  shows "\<exists>w' l. prepare_loop n i (w, list) = (w', list @ l) \<and> wheel_ok (i - 1 + int n) w' \<and> distinct l
    \<and> (\<forall>a. a \<in> set l \<longleftrightarrow> held w a \<and> i \<le> runat (tm w a) \<and> runat (tm w a) < i + int n)
    \<and> (\<forall>a. held w' a \<longleftrightarrow> held w a \<and> \<not> (i \<le> runat (tm w a) \<and> runat (tm w a) < i + int n))
    \<and> (\<forall>a. tm w' a = (if a \<in> set l then (tm w a)\<lparr>is_running := True\<rparr> else tm w a))
    \<and> sorted (map (\<lambda>a. runat (tm w a)) l)"
  using assms
proof (induction n arbitrary: i w list)
  case 0
  then show ?case by auto
next
  case (Suc n)
  obtain w1 l1 where t: "timer_tick i (w, list) = (w1, list @ l1)" "wheel_ok i w1" "distinct l1"
      "\<And>a. a \<in> set l1 \<longleftrightarrow> held w a \<and> runat (tm w a) = i"
      "\<And>a. held w1 a \<longleftrightarrow> held w a \<and> runat (tm w a) \<noteq> i"
      "\<And>a. tm w1 a = (if a \<in> set l1 then (tm w a)\<lparr>is_running := True\<rparr> else tm w a)"
    using tick_spec [OF Suc.prems] by blast
  have run: "runat (tm w1 a) = runat (tm w a)" for a by (simp add: t(6))
  have ok1: "wheel_ok (i + 1 - 1) w1" using t(2) by simp
  obtain w2 l2 where p: "prepare_loop n (i + 1) (w1, list @ l1) = (w2, (list @ l1) @ l2)"
      "wheel_ok (i + 1 - 1 + int n) w2" "distinct l2"
      "\<And>a. a \<in> set l2 \<longleftrightarrow> held w1 a \<and> i + 1 \<le> runat (tm w a) \<and> runat (tm w a) < i + 1 + int n"
      "\<And>a. held w2 a \<longleftrightarrow> held w1 a \<and> \<not> (i + 1 \<le> runat (tm w a) \<and> runat (tm w a) < i + 1 + int n)"
      "\<And>a. tm w2 a = (if a \<in> set l2 then (tm w1 a)\<lparr>is_running := True\<rparr> else tm w1 a)"
      "sorted (map (\<lambda>a. runat (tm w a)) l2)"
    using Suc.IH [OF ok1, of "list @ l1"] unfolding run by blast
  have dj: "set l1 \<inter> set l2 = {}" using t(4) p(4) by auto
  have "prepare_loop (Suc n) i (w, list) = (w2, list @ l1 @ l2)" using t(1) p(1) by simp
  moreover have "wheel_ok (i - 1 + int (Suc n)) w2" using p(2) by (simp add: algebra_simps)
  moreover have "distinct (l1 @ l2)" using t(3) p(3) dj by simp
  moreover have "a \<in> set (l1 @ l2) \<longleftrightarrow> held w a \<and> i \<le> runat (tm w a) \<and> runat (tm w a) < i + int (Suc n)" for a
    using t(4,5) [of a] p(4) [of a] by auto
  moreover have "held w2 a \<longleftrightarrow> held w a \<and> \<not> (i \<le> runat (tm w a) \<and> runat (tm w a) < i + int (Suc n))" for a
    using t(5) [of a] p(5) [of a] by auto
  moreover have "tm w2 a = (if a \<in> set (l1 @ l2) then (tm w a)\<lparr>is_running := True\<rparr> else tm w a)" for a
    using t(6) [of a] p(6) [of a] dj by auto
  moreover have "sorted (map (\<lambda>a. runat (tm w a)) (l1 @ l2))"
  proof -
    have "map (\<lambda>a. runat (tm w a)) l1 = replicate (length l1) i"
      using t(4) by (simp add: map_replicate_const [symmetric] cong: map_cong)
    then show ?thesis using p(4,7) by (auto simp: sorted_append)
  qed
  ultimately show ?case by blast
qed

text \<open>Nothing that is due earlier is in the wheel.\<close>

lemma in_window_later: "in_window l c r \<Longrightarrow> c < r"
  unfolding in_window_def by (metis not_le zdiv_mono1 zero_less_numeral zero_less_power)

lemma held_later: "wheel_ok c w \<Longrightarrow> held w a \<Longrightarrow> c < runat (tm w a)"
  unfolding held_def by (blast dest: wheel_atD(3) in_window_later)

lemma prepare_timers_spec:
  assumes "wheel_ok from w" "from \<le> to"
  shows "\<exists>w' l. timer_prepare_timers w from to list = (w', list @ l) \<and> wheel_ok to w' \<and> distinct l
    \<and> (\<forall>a. a \<in> set l \<longleftrightarrow> held w a \<and> runat (tm w a) \<le> to)
    \<and> (\<forall>a. held w' a \<longleftrightarrow> held w a \<and> to < runat (tm w a))
    \<and> (\<forall>a. tm w' a = (if a \<in> set l then (tm w a)\<lparr>is_running := True\<rparr> else tm w a))
    \<and> sorted (map (\<lambda>a. runat (tm w a)) l)"
proof -
  have ok: "wheel_ok (from + 1 - 1) w" using assms(1) by simp
  have n: "from + 1 - 1 + int (nat (to - from)) = to" "from + 1 + int (nat (to - from)) = to + 1"
    using assms(2) by simp_all
  have due: "held w a \<and> from + 1 \<le> runat (tm w a) \<and> runat (tm w a) < to + 1 \<longleftrightarrow> held w a \<and> runat (tm w a) \<le> to"
    "held w a \<and> \<not> (from + 1 \<le> runat (tm w a) \<and> runat (tm w a) < to + 1) \<longleftrightarrow> held w a \<and> to < runat (tm w a)" for a
    using held_later [OF assms(1), of a] by auto
  show ?thesis
    unfolding timer_prepare_timers_def
    by (rule prepare_loop_spec [OF ok, of "nat (to - from)" list, unfolded n due])
qed

subsection \<open>Placing, registering and stopping\<close>

definition timer_fits :: "timer \<Rightarrow> bool" where
  "timer_fits t = (level t < TIMER_LEVELS \<and> 64 ^ level t \<le> numsec t \<and> numsec t \<le> 64 * 64 ^ level t)"

lemma window_of_delay:
  assumes "64 ^ l \<le> n" "n \<le> 64 * 64 ^ l"
  shows "in_window l c (c + n)"
proof -
  have p: "(0::int) < 64 ^ l" by simp
  have "c div 64 ^ l + 1 = (c + 64 ^ l) div 64 ^ l" "c div 64 ^ l + 64 = (c + 64 * 64 ^ l) div 64 ^ l"
    using div_mult_self1 [of "64 ^ l" c 64] div_mult_self1 [of "64 ^ l" c 1] by simp_all
  with zdiv_mono1 [OF _ p, of "c + 64 ^ l" "c + n"] zdiv_mono1 [OF _ p, of "c + n" "c + 64 * 64 ^ l"] assms
  show ?thesis by (simp add: in_window_def)
qed

lemma wheel_at_set_timer:
  assumes "wheel_at f w" "\<not> held w a"
  shows "wheel_at f (set_timer w a t)"
proof (rule wheel_atI)
  fix b l s assume b: "b \<in> set (timerlists (set_timer w a t) l s)"
  then have "b \<noteq> a" using assms(2) by (auto simp: held_def)
  with wheel_atD(1-3) [OF assms(1), of b l s] b
  show "l < TIMER_LEVELS \<and> s = slot_of (l * 6) (runat (tm (set_timer w a t) b))
      \<and> in_window l (f l) (runat (tm (set_timer w a t) b))" by simp
next
  fix b l s l' s' assume "b \<in> set (timerlists (set_timer w a t) l s)" "b \<in> set (timerlists (set_timer w a t) l' s')"
  then show "l' = l \<and> s' = s" using wheel_atD(4) [OF assms(1)] by (metis wheel_simps(4))
qed (simp add: wheel_at_distinct [OF assms(1)])

lemma wheel_at_add_slot:
  assumes ok: "wheel_at f w" and a: "\<not> held w a" and l: "l < TIMER_LEVELS" "s = slot_of (l * 6) (runat (tm w a))"
    "in_window l (f l) (runat (tm w a))"
  shows "wheel_at f (add_slot w l s a)"
proof (rule wheel_atI)
  have new: "b \<in> set (timerlists w l1 s1) \<and> b \<noteq> a \<or> b = a \<and> l1 = l \<and> s1 = s"
    if "b \<in> set (timerlists (add_slot w l s a) l1 s1)" for b l1 s1
    using that a by (auto simp: held_def split: if_splits)
  fix b l1 s1 assume b: "b \<in> set (timerlists (add_slot w l s a) l1 s1)"
  show "l1 < TIMER_LEVELS \<and> s1 = slot_of (l1 * 6) (runat (tm (add_slot w l s a) b))
      \<and> in_window l1 (f l1) (runat (tm (add_slot w l s a) b))"
    using new [OF b] l wheel_atD(1-3) [OF ok, of b l1 s1] by auto
  show "l2 = l1 \<and> s2 = s1" if "b \<in> set (timerlists (add_slot w l s a) l2 s2)" for l2 s2
    using new [OF b] new [OF that] wheel_atD(4) [OF ok] by metis
next
  fix l1 s1
  show "distinct (timerlists (add_slot w l s a) l1 s1)"
    using wheel_at_distinct [OF ok] a by (auto simp: held_def)
qed

lemma held_add_slot: "held (add_slot w l s a) b \<longleftrightarrow> held w b \<or> b = a"
  by (auto simp: held_def)

lemma held_set_timer [simp]: "held (set_timer w a t) b \<longleftrightarrow> held w b"
  by (simp add: held_def)

lemma place_timer_spec:
  assumes "wheel_ok c w" "\<not> held w a" "timer_fits (tm w a)"
  shows "wheel_ok c (place_timer w c a)" "held (place_timer w c a) b \<longleftrightarrow> held w b \<or> b = a"
    "tm (place_timer w c a) = (tm w)(a := (tm w a)\<lparr>runat := c + numsec (tm w a)\<rparr>)"
proof -
  let ?t = "(tm w a)\<lparr>runat := c + numsec (tm w a)\<rparr>"
  let ?w = "set_timer w a ?t"
  have p: "place_timer w c a = add_slot ?w (level (tm w a)) (slot_of (level (tm w a) * 6) (c + numsec (tm w a))) a"
    by (simp add: place_timer_def)
  have "wheel_ok c ?w" using assms(1,2) by (rule wheel_at_set_timer)
  then show "wheel_ok c (place_timer w c a)"
    unfolding p by (rule wheel_at_add_slot) (use assms in \<open>auto simp: timer_fits_def intro: window_of_delay\<close>)
  show "held (place_timer w c a) b \<longleftrightarrow> held w b \<or> b = a" by (simp add: p held_add_slot)
  show "tm (place_timer w c a) = (tm w)(a := ?t)" by (simp add: p)
qed

text \<open>The level and the number of seconds that a registration settles on.\<close>

definition reg_level :: "int \<Rightarrow> nat" where
  "reg_level ns = (if ns \<le> 64 then 0 else if ns \<le> 4096 then 1 else 2)"

lemma psync_timer_register_eq:
  "psync_timer_register w now a ns = place_timer (set_timer w a
     \<lparr>numsec = min ns 262144, runat = 0, level = reg_level ns, is_running = False, stop_after_run = False\<rparr>) now a"
  by (simp add: psync_timer_register_def reg_level_def numeral_3_eq_3 numeral_2_eq_2)

lemma register_spec:
  assumes "wheel_ok c w" "\<not> held w a" "0 < ns"
  defines "w' \<equiv> psync_timer_register w c a ns"
  shows "wheel_ok c w'" "held w' b \<longleftrightarrow> held w b \<or> b = a"
    "tm w' = (tm w)(a := \<lparr>numsec = min ns 262144, runat = c + min ns 262144, level = reg_level ns,
       is_running = False, stop_after_run = False\<rparr>)" "timer_fits (tm w' a)"
proof -
  let ?t = "\<lparr>numsec = min ns 262144, runat = 0, level = reg_level ns, is_running = False, stop_after_run = False\<rparr>"
  have fit: "timer_fits ?t" using assms(3) by (auto simp: timer_fits_def reg_level_def)
  then have "timer_fits (tm (set_timer w a ?t) a)" by simp
  from place_timer_spec [OF wheel_at_set_timer [OF assms(1,2)] _ this] assms(2)
  show "wheel_ok c w'" "held w' b \<longleftrightarrow> held w b \<or> b = a"
    and t: "tm w' = (tm w)(a := \<lparr>numsec = min ns 262144, runat = c + min ns 262144, level = reg_level ns,
       is_running = False, stop_after_run = False\<rparr>)"
    unfolding w'_def psync_timer_register_eq by auto
  show "timer_fits (tm w' a)" using fit by (simp add: t timer_fits_def)
qed

lemma unlink_spec:
  assumes "wheel_at f w"
  shows "wheel_at f (unlink w a)" "held (unlink w a) b \<longleftrightarrow> held w b \<and> b \<noteq> a"
proof -
  have old: "b \<in> set (timerlists w l s) \<and> b \<noteq> a" if "b \<in> set (timerlists (unlink w a) l s)" for b l s
    using that by simp
  show "wheel_at f (unlink w a)"
  proof (rule wheel_atI)
    fix b l s assume b: "b \<in> set (timerlists (unlink w a) l s)"
    show "l < TIMER_LEVELS \<and> s = slot_of (l * 6) (runat (tm (unlink w a) b)) \<and> in_window l (f l) (runat (tm (unlink w a) b))"
      using wheel_atD(1-3) [OF assms] old [OF b] unfolding wheel_simps by blast
    show "l' = l \<and> s' = s" if "b \<in> set (timerlists (unlink w a) l' s')" for l' s'
      using wheel_atD(4) [OF assms] old [OF b] old [OF that] by blast
  qed (simp add: wheel_at_distinct [OF assms] distinct_removeAll)
  show "held (unlink w a) b \<longleftrightarrow> held w b \<and> b \<noteq> a" by (auto simp: held_def)
qed

text \<open>Restarting the expired timers: a timer that was not stopped meanwhile is due again one period later.\<close>

lemma process_timers_spec:
  assumes "wheel_ok c w" "distinct l" "\<And>a. a \<in> set l \<Longrightarrow> \<not> held w a \<and> timer_fits (tm w a)"
  shows "wheel_ok c (fold (process_timer c) l w)
    \<and> (\<forall>b. held (fold (process_timer c) l w) b \<longleftrightarrow> held w b \<or> b \<in> set l \<and> \<not> stop_after_run (tm w b))
    \<and> (\<forall>b. tm (fold (process_timer c) l w) b = (if b \<in> set l \<and> \<not> stop_after_run (tm w b)
         then (tm w b)\<lparr>runat := c + numsec (tm w b), is_running := False, stop_after_run := False\<rparr> else tm w b))"
  using assms
proof (induction l arbitrary: w)
  case Nil
  then show ?case by simp
next
  case (Cons a l)
  have h: "\<not> held w a" "timer_fits (tm w a)" using Cons.prems(3) by auto
  show ?case
  proof (cases "stop_after_run (tm w a)")
    case True
    then have "process_timer c a w = w" by (simp add: process_timer_def)
    with True Cons.IH [of w] Cons.prems show ?thesis by auto
  next
    case False
    let ?t = "(tm w a)\<lparr>is_running := False, stop_after_run := False\<rparr>"
    let ?w = "process_timer c a w"
    have w: "?w = place_timer (set_timer w a ?t) c a" using False by (simp add: process_timer_def)
    have fits: "timer_fits (tm (set_timer w a ?t) a)" using h(2) by (simp add: timer_fits_def)
    have ok: "wheel_ok c ?w" and held: "held ?w b \<longleftrightarrow> held w b \<or> b = a"
      and tms: "tm ?w = (tm w)(a := ?t\<lparr>runat := c + numsec (tm w a)\<rparr>)" for b
      using place_timer_spec [OF wheel_at_set_timer [OF Cons.prems(1) h(1)] _ fits] h(1) by (auto simp: w)
    have IH: "wheel_ok c (fold (process_timer c) l ?w)
      \<and> (\<forall>b. held (fold (process_timer c) l ?w) b \<longleftrightarrow> held ?w b \<or> b \<in> set l \<and> \<not> stop_after_run (tm ?w b))
      \<and> (\<forall>b. tm (fold (process_timer c) l ?w) b = (if b \<in> set l \<and> \<not> stop_after_run (tm ?w b)
           then (tm ?w b)\<lparr>runat := c + numsec (tm ?w b), is_running := False, stop_after_run := False\<rparr> else tm ?w b))"
      by (rule Cons.IH [OF ok]) (use Cons.prems held tms in auto)
    have "a \<notin> set l" using Cons.prems(2) by simp
    with IH False show ?thesis by (auto simp: held tms)
  qed
qed

subsection \<open>The thread and its clients as a transition system\<close>

text \<open>Registrations and stops come from any thread (and from callbacks) between the two halves of an iteration.
  A period is at least one second, an address that \<^verbatim>\<open>psync_new\<close> returns is not in use, the clock does not go back, and
  the assignment to \<open>psync_current_time\<close> is taken together with the wheel's advance.\<close>

inductive timer_step :: "tstate \<Rightarrow> tstate \<Rightarrow> bool" where
  step_register: "\<lbrakk>\<not> held (twheel s) a; a \<notin> set (timers s); 0 < ns\<rbrakk> \<Longrightarrow>
     timer_step s (s\<lparr>twheel := psync_timer_register (twheel s) (psync_current_time s) a ns\<rparr>)"
| step_stop: "held (twheel s) a \<or> a \<in> set (timers s) \<Longrightarrow>
     timer_step s (s\<lparr>twheel := fst (psync_timer_stop (twheel s) a)\<rparr>)"
| step_prepare: "\<lbrakk>\<not> in_callbacks s; psync_current_time s \<le> now\<rbrakk> \<Longrightarrow> timer_step s (timer_thread_prepare now s)"
| step_finish: "in_callbacks s \<Longrightarrow> timer_step s (timer_thread_finish s)"

definition timer_start :: "tstate \<Rightarrow> bool" where
  "timer_start s = (\<exists>t now. s = psync_timer_init t now)"

definition timers_ok :: "tstate \<Rightarrow> bool" where
  "timers_ok s = (wheel_ok (psync_current_time s) (twheel s)
    \<and> (\<forall>a. held (twheel s) a \<longrightarrow> timer_fits (tm (twheel s) a) \<and> \<not> is_running (tm (twheel s) a))
    \<and> (\<forall>a \<in> set (timers s). \<not> held (twheel s) a \<and> timer_fits (tm (twheel s) a) \<and> is_running (tm (twheel s) a))
    \<and> distinct (timers s) \<and> (\<not> in_callbacks s \<longrightarrow> timers s = [] \<and> last_time s = psync_current_time s))"

lemma fits_running [simp]: "timer_fits (t\<lparr>is_running := b\<rparr>) = timer_fits t" "timer_fits (t\<lparr>stop_after_run := b\<rparr>) = timer_fits t"
  "timer_fits (t\<lparr>runat := r\<rparr>) = timer_fits t"
  by (simp_all add: timer_fits_def)

lemma timers_ok_init: "timers_ok (psync_timer_init t now)"
  by (simp add: timers_ok_def psync_timer_init_def wheel_at_def held_def)

lemma timers_ok_register:
  assumes "timers_ok s" "\<not> held (twheel s) a" "a \<notin> set (timers s)" "0 < ns"
  shows "timers_ok (s\<lparr>twheel := psync_timer_register (twheel s) (psync_current_time s) a ns\<rparr>)"
proof -
  have "wheel_ok (psync_current_time s) (twheel s)" using assms(1) by (simp add: timers_ok_def)
  note r = register_spec [OF this assms(2,4)]
  show ?thesis using assms r(1,4) unfolding timers_ok_def
    by (auto simp: r(2) r(3))
qed

lemma timers_ok_stop:
  assumes "timers_ok s" "held (twheel s) a \<or> a \<in> set (timers s)"
  shows "timers_ok (s\<lparr>twheel := fst (psync_timer_stop (twheel s) a)\<rparr>)"
proof (cases "is_running (tm (twheel s) a)")
  case True
  then have "\<not> held (twheel s) a" using assms(1) by (auto simp: timers_ok_def)
  with True assms(1) show ?thesis
    by (auto simp: timers_ok_def psync_timer_stop_def wheel_at_set_timer)
next
  case False
  with assms(1) show ?thesis
    by (auto simp: timers_ok_def psync_timer_stop_def unlink_spec)
qed

lemma prepare_step_spec:
  assumes "timers_ok s" "\<not> in_callbacks s" "psync_current_time s \<le> now"
  defines "s' \<equiv> timer_thread_prepare now s"
  shows "timers_ok s'" "distinct (timers s')" "sorted (map (\<lambda>a. runat (tm (twheel s) a)) (timers s'))"
    "a \<in> set (timers s') \<longleftrightarrow> held (twheel s) a \<and> runat (tm (twheel s) a) \<le> now"
    "held (twheel s') a \<longleftrightarrow> held (twheel s) a \<and> now < runat (tm (twheel s) a)"
    "psync_current_time s' = now" "in_callbacks s'"
    "tm (twheel s') a = (if a \<in> set (timers s') then (tm (twheel s) a)\<lparr>is_running := True\<rparr> else tm (twheel s) a)"
proof -
  have ok: "wheel_ok (last_time s) (twheel s)" "last_time s \<le> now" using assms by (auto simp: timers_ok_def)
  obtain w l where p: "timer_prepare_timers (twheel s) (last_time s) now [] = (w, [] @ l)" "wheel_ok now w" "distinct l"
      "\<forall>a. a \<in> set l \<longleftrightarrow> held (twheel s) a \<and> runat (tm (twheel s) a) \<le> now"
      "\<forall>a. held w a \<longleftrightarrow> held (twheel s) a \<and> now < runat (tm (twheel s) a)"
      "\<forall>a. tm w a = (if a \<in> set l then (tm (twheel s) a)\<lparr>is_running := True\<rparr> else tm (twheel s) a)"
      "sorted (map (\<lambda>a. runat (tm (twheel s) a)) l)"
    using prepare_timers_spec [OF ok, of "[]"] by blast
  have s': "s' = s\<lparr>twheel := w, psync_current_time := now, timers := l, in_callbacks := True\<rparr>"
    using p(1) by (simp add: s'_def timer_thread_prepare_def)
  show "distinct (timers s')" "sorted (map (\<lambda>a. runat (tm (twheel s) a)) (timers s'))"
    "a \<in> set (timers s') \<longleftrightarrow> held (twheel s) a \<and> runat (tm (twheel s) a) \<le> now"
    "held (twheel s') a \<longleftrightarrow> held (twheel s) a \<and> now < runat (tm (twheel s) a)"
    "psync_current_time s' = now" "in_callbacks s'"
    "tm (twheel s') a = (if a \<in> set (timers s') then (tm (twheel s) a)\<lparr>is_running := True\<rparr> else tm (twheel s) a)"
    using p by (simp_all add: s')
  show "timers_ok s'" using assms(1) p(2-6) by (simp add: s' timers_ok_def)
qed

lemma finish_step_spec:
  assumes "timers_ok s"
  defines "s' \<equiv> timer_thread_finish s"
  shows "timers_ok s'" "psync_current_time s' = psync_current_time s" "\<not> in_callbacks s'"
    "held (twheel s') a \<longleftrightarrow> held (twheel s) a \<or> a \<in> set (timers s) \<and> \<not> stop_after_run (tm (twheel s) a)"
    "tm (twheel s') a = (if a \<in> set (timers s) \<and> \<not> stop_after_run (tm (twheel s) a)
       then (tm (twheel s) a)\<lparr>runat := psync_current_time s + numsec (tm (twheel s) a),
         is_running := False, stop_after_run := False\<rparr> else tm (twheel s) a)"
proof -
  let ?w = "fold (process_timer (psync_current_time s)) (timers s) (twheel s)"
  have ok: "wheel_ok (psync_current_time s) (twheel s)" "distinct (timers s)"
    and t: "\<And>a. a \<in> set (timers s) \<Longrightarrow> \<not> held (twheel s) a \<and> timer_fits (tm (twheel s) a)"
    using assms(1) by (auto simp: timers_ok_def)
  note p = process_timers_spec [OF ok t]
  have s': "s' = s\<lparr>twheel := ?w, timers := [], last_time := psync_current_time s, in_callbacks := False\<rparr>"
    by (simp add: s'_def timer_thread_finish_def timer_process_timers_def)
  show "psync_current_time s' = psync_current_time s" "\<not> in_callbacks s'"
    "held (twheel s') a \<longleftrightarrow> held (twheel s) a \<or> a \<in> set (timers s) \<and> \<not> stop_after_run (tm (twheel s) a)"
    "tm (twheel s') a = (if a \<in> set (timers s) \<and> \<not> stop_after_run (tm (twheel s) a)
       then (tm (twheel s) a)\<lparr>runat := psync_current_time s + numsec (tm (twheel s) a),
         is_running := False, stop_after_run := False\<rparr> else tm (twheel s) a)"
    using p by (simp_all add: s')
  show "timers_ok s'" using assms(1) p by (auto simp: s' timers_ok_def)
qed

interpretation timers: inductive_invariant timer_start timer_step timers_ok
proof (unfold_locales, goal_cases)
  case (1 s)
  then show ?case by (auto simp: timer_start_def timers_ok_init)
next
  case (2 s t)
  from 2(2,1) show ?case
    by cases (simp_all add: timers_ok_register timers_ok_stop prepare_step_spec(1) finish_step_spec(1))
qed

subsection \<open>Properties\<close>


definition no_timer :: timer where
  "no_timer = \<lparr>numsec = 0, runat = 0, level = 0, is_running = False, stop_after_run = False\<rparr>"

definition one_timer :: tstate where
  "one_timer = (let s = psync_timer_init (\<lambda>_. no_timer) 1000
     in s\<lparr>twheel := psync_timer_register (twheel s) (psync_current_time s) 7 100\<rparr>)"

lemma one_timer_reachable: "reachable_from timer_start timer_step one_timer"
  unfolding one_timer_def Let_def
  by (rule reach_step, rule reach_init, force simp: timer_start_def, rule step_register)
    (auto simp: psync_timer_init_def held_def)




text \<open>C13: When the callbacks have run, every expired timer that was not stopped meanwhile is in the wheel again and
  due one period after the current time; one that was stopped is in no list.\<close>

theorem timer_restarts:
  assumes "reachable_from timer_start timer_step s" "a \<in> set (timers s)"
  shows "(held (twheel (timer_thread_finish s)) a \<longleftrightarrow> \<not> stop_after_run (tm (twheel s) a))
    \<and> (\<not> stop_after_run (tm (twheel s) a) \<longrightarrow>
      runat (tm (twheel (timer_thread_finish s)) a) = psync_current_time s + numsec (tm (twheel s) a))"
  using finish_step_spec(4,5) [OF timers.reachable_inv [OF assms(1)], of a] timers.reachable_inv [OF assms(1)] assms(2)
  by (auto simp: timers_ok_def)

lemma one_timer_fields: "held (twheel one_timer) 7" "runat (tm (twheel one_timer) 7) = 1100"
    "psync_current_time one_timer = 1000" "\<not> in_callbacks one_timer"
proof -
  have "wheel_ok 1000 \<lparr>timerlists = (\<lambda>_ _. []), tm = (\<lambda>_. no_timer)\<rparr>" by (simp add: wheel_at_def)
  from register_spec [OF this, of 7 100]
  show "held (twheel one_timer) 7" "runat (tm (twheel one_timer) 7) = 1100"
    "psync_current_time one_timer = 1000" "\<not> in_callbacks one_timer"
    by (simp_all add: one_timer_def psync_timer_init_def held_def)
qed

theorem timer_restarts_witness:
  "\<exists>s a. a \<in> set (timers s) \<and> (held (twheel (timer_thread_finish s)) a \<longleftrightarrow> \<not> stop_after_run (tm (twheel s) a))"
proof -
  let ?s = "timer_thread_prepare 1200 one_timer"
  have "reachable_from timer_start timer_step ?s"
    by (rule reach_step [OF one_timer_reachable]) (rule step_prepare, simp_all add: one_timer_fields)
  moreover have "7 \<in> set (timers ?s)"
    using prepare_step_spec(4) [OF timers.reachable_inv [OF one_timer_reachable], of 1200 7] by (simp add: one_timer_fields)
  ultimately show ?thesis using timer_restarts [of ?s 7] by blast
qed

text \<open>The thread assigns \<open>psync_current_time\<close> before it takes the lock.  A registration in between uses the new time
  while the wheel is still at the old one; with a period of 64 seconds its slot is the one about to be run, and the timer
  expires in the same second instead of 64 seconds later.\<close>

lemma timer_early_expiry:
  "timer_prepare_timers (psync_timer_register \<lparr>timerlists = (\<lambda>_ _. []), tm = (\<lambda>_. no_timer)\<rparr> 1000 7 64) 999 1000 [] = (w, l)
   \<Longrightarrow> l = [7] \<and> runat (tm w 7) = 1064"
  by (auto simp: timer_prepare_timers_def psync_timer_register_eq reg_level_def place_timer_def add_slot_def set_timer_def
      slot_of_def timer_tick_def clear_slot_def mark_running_def Let_def)

text \<open>A period of zero seconds puts the timer into the slot that has just been run: it is not due before the wheel has
  gone round once.\<close>

lemma timer_zero_period:
  "snd (timer_prepare_timers (psync_timer_register \<lparr>timerlists = (\<lambda>_ _. []), tm = (\<lambda>_. no_timer)\<rparr> 1000 7 0) 1000 1020 []) = []"
  by (simp add: timer_prepare_timers_def psync_timer_register_eq reg_level_def place_timer_def add_slot_def set_timer_def
      slot_of_def timer_tick_def clear_slot_def mark_running_def Let_def numeral_eq_Suc
      timer_check_upper_levels.simps cascade_def)

end
