(* ===== verification/Prunratelimit.thy ===== *)
theory Prunratelimit
  imports Ptree
begin

section \<open>Rate limited tasks (\<open>prunratelimit.c\<close>)\<close>

text \<open>
  Tasks are callbacks, ordered by their address in a tree of nodes.  A node lives as long as its timer: the first
  request of a task runs it at once and starts the timer; a request while the node exists only marks it, and
  the timer runs the marked task once or removes the node.  \<open>runs\<close> is the sequence of callbacks started.  The two
  functions hold \<^verbatim>\<open>task_mutex\<close> over all their accesses to the tree, so they are steps of a transition system.
\<close>

subsection \<open>State and operations\<close>

record rr_state =
  tasks :: "addr ptree"
  ncall :: "addr \<Rightarrow> addr"
  scheduled :: "addr \<Rightarrow> bool"
  armed :: "addr list"
  runs :: "addr list"

definition rr_init :: rr_state where
  "rr_init = \<lparr>tasks = PNull, ncall = (\<lambda>_. 0), scheduled = (\<lambda>_. False), armed = [], runs = []\<rparr>"

text \<open>The walk from the root: the node of the callback, or the place where the walk fell off the tree.\<close>

fun rr_search :: "(addr \<Rightarrow> addr) \<Rightarrow> addr \<Rightarrow> addr crumb list \<Rightarrow> addr ptree \<Rightarrow> addr + addr crumb list" where
  "rr_search calls call cs PNull = Inr cs"
| "rr_search calls call cs (PNode l x h r) =
     (if call < calls x then rr_search calls call (InLeft x h r # cs) l
      else if call > calls x then rr_search calls call (InRight l x h # cs) r
      else Inl x)"

definition psync_run_ratelimited_timer :: "rr_state \<Rightarrow> addr \<Rightarrow> rr_state option" where
  "psync_run_ratelimited_timer s node =
     (if scheduled s node
      then Some (s\<lparr>scheduled := (scheduled s)(node := False), runs := runs s @ [ncall s node]\<rparr>)
      else map_option (\<lambda>t. s\<lparr>tasks := t, armed := remove1 node (armed s)\<rparr>) (psync_tree_get_del (tasks s) node))"

definition psync_run_ratelimited :: "rr_state \<Rightarrow> addr \<Rightarrow> addr \<Rightarrow> rr_state option" where
  "psync_run_ratelimited s new call =
     (case rr_search (ncall s) call [] (tasks s) of
        Inl node \<Rightarrow> Some (if scheduled s node then s else s\<lparr>scheduled := (scheduled s)(node := True)\<rparr>)
      | Inr cs \<Rightarrow> map_option (\<lambda>t. s\<lparr>tasks := t, ncall := (ncall s)(new := call),
                     scheduled := (scheduled s)(new := False), armed := new # armed s, runs := runs s @ [call]\<rparr>)
                   (psync_tree_get_added_at cs new))"

subsection \<open>Searching\<close>

abbreviation by_call :: "(addr \<Rightarrow> addr) \<Rightarrow> addr list \<Rightarrow> bool" where
  "by_call calls \<equiv> sorted_wrt (\<lambda>a b. calls a < calls b)"

lemma rr_search_plug: "rr_search calls call cs t = Inr ds \<Longrightarrow> plug cs t = plug ds PNull"
  by (induction t arbitrary: cs) (fastforce split: if_splits)+

lemma rr_search_found:
  "rr_search calls call cs t = Inl x \<Longrightarrow> x \<in> set (inorder t) \<and> calls x = call"
  by (induction t arbitrary: cs) (auto split: if_splits)

lemma rr_search_place:
  "\<lbrakk>rr_search calls call cs t = Inr ds; by_call calls (inorder t);
    \<forall>x \<in> set (path_before cs). calls x < call; \<forall>x \<in> set (path_after cs). call < calls x\<rbrakk>
   \<Longrightarrow> (\<forall>x \<in> set (path_before ds). calls x < call) \<and> (\<forall>x \<in> set (path_after ds). call < calls x)"
proof (induction t arbitrary: cs)
  case PNull
  then show ?case by auto
next
  case (PNode l x h r)
  have ord: "by_call calls (inorder l)" "by_call calls (inorder r)"
    "\<forall>y \<in> set (inorder l). calls y < calls x" "\<forall>y \<in> set (inorder r). calls x < calls y"
    using PNode.prems(2) by (auto simp: sorted_wrt_append)
  consider "call < calls x" | "calls x < call" using PNode.prems(1) by (cases "call < calls x") (auto split: if_splits)
  then show ?case
  proof cases
    case 1
    moreover have "\<forall>y \<in> set (inorder r). call < calls y" using 1 ord(4) by (meson less_trans)
    ultimately show ?thesis
      using PNode.IH(1) [of "InLeft x h r # cs"] PNode.prems ord(1) by auto
  next
    case 2
    moreover have "\<forall>y \<in> set (inorder l). calls y < call" using 2 ord(3) by (meson less_trans)
    ultimately show ?thesis
      using PNode.IH(2) [of "InRight l x h # cs"] PNode.prems ord(2) by auto
  qed
qed

subsection \<open>Invariant\<close>

definition rr_ok :: "rr_state \<Rightarrow> bool" where
  "rr_ok s = (tree_ok (tasks s) \<and> by_call (ncall s) (inorder (tasks s))
     \<and> mset (armed s) = mset (inorder (tasks s)))"

lemma by_call_inj: "by_call calls xs \<Longrightarrow> x \<in> set xs \<Longrightarrow> y \<in> set xs \<Longrightarrow> calls x = calls y \<Longrightarrow> x = y"
  by (induction xs) auto

lemma request_spec:
  assumes ok: "rr_ok s" and new: "new \<notin> set (inorder (tasks s))"
  shows "\<exists>s'. psync_run_ratelimited s new call = Some s' \<and> rr_ok s' \<and>
    (if \<exists>x \<in> set (inorder (tasks s)). ncall s x = call
     then runs s' = runs s \<and> inorder (tasks s') = inorder (tasks s) \<and> ncall s' = ncall s
       \<and> (\<forall>x \<in> set (inorder (tasks s)). scheduled s' x = (scheduled s x \<or> ncall s x = call))
     else runs s' = runs s @ [call] \<and> set (inorder (tasks s')) = insert new (set (inorder (tasks s)))
       \<and> ncall s' = (ncall s)(new := call) \<and> scheduled s' = (scheduled s)(new := False))"
proof (cases "rr_search (ncall s) call [] (tasks s)")
  case (Inl node)
  then have n: "node \<in> set (inorder (tasks s))" "ncall s node = call" by (auto dest: rr_search_found)
  let ?s = "if scheduled s node then s else s\<lparr>scheduled := (scheduled s)(node := True)\<rparr>"
  have ord: "by_call (ncall s) (inorder (tasks s))" using ok by (simp add: rr_ok_def)
  have uniq: "scheduled ?s x = (scheduled s x \<or> ncall s x = call)" if x: "x \<in> set (inorder (tasks s))" for x
    using by_call_inj [OF ord x n(1)] n(2) by (cases "x = node") auto
  have "rr_ok ?s" "runs ?s = runs s" "tasks ?s = tasks s" "ncall ?s = ncall s"
    using ok by (simp_all add: rr_ok_def)
  with Inl n uniq show ?thesis by (intro exI [of _ ?s]) (auto simp: psync_run_ratelimited_def)
next
  case (Inr cs)
  have plug: "plug cs PNull = tasks s" using rr_search_plug [OF Inr] by simp
  then have seq: "inorder (tasks s) = path_before cs @ path_after cs" by (metis append_Nil inorder.simps(1) inorder_plug)
  have place: "\<forall>x \<in> set (path_before cs). ncall s x < call" "\<forall>x \<in> set (path_after cs). call < ncall s x"
    using rr_search_place [OF Inr] ok by (auto simp: rr_ok_def)
  have no: "\<not> (\<exists>x \<in> set (inorder (tasks s)). ncall s x = call)" using place by (auto simp: seq)
  have avl: "avl (plug cs PNull)" using ok by (simp add: plug rr_ok_def tree_ok_def)
  obtain t where t: "psync_tree_get_added_at cs new = Some t" "avl t" "inorder t = path_before cs @ new # path_after cs"
    using added_at_spec [OF avl] by blast
  have d: "distinct (path_before cs @ path_after cs)" "by_call (ncall s) (path_before cs @ path_after cs)"
    "new \<notin> set (path_before cs @ path_after cs)"
    using ok new by (simp_all add: rr_ok_def tree_ok_def seq)
  then have "distinct (inorder t)" by (auto simp: t(3))
  moreover have "by_call ((ncall s)(new := call)) (inorder t)"
  proof -
    have "by_call ((ncall s)(new := call)) (path_before cs)" "by_call ((ncall s)(new := call)) (path_after cs)"
      using d(2,3) by (auto simp: sorted_wrt_append elim!: sorted_wrt_mono_rel [rotated])
    then show ?thesis using d(2,3) place by (auto simp: t(3) sorted_wrt_append)
  qed
  ultimately show ?thesis using Inr t no ok
    by (auto simp: psync_run_ratelimited_def rr_ok_def tree_ok_def seq)
qed

lemma timer_spec:
  assumes ok: "rr_ok s" and n: "node \<in> set (inorder (tasks s))"
  shows "\<exists>s'. psync_run_ratelimited_timer s node = Some s' \<and> rr_ok s' \<and> ncall s' = ncall s \<and>
    (if scheduled s node
     then runs s' = runs s @ [ncall s node] \<and> inorder (tasks s') = inorder (tasks s)
       \<and> scheduled s' = (scheduled s)(node := False)
     else runs s' = runs s \<and> set (inorder (tasks s')) = set (inorder (tasks s)) - {node} \<and> scheduled s' = scheduled s)"
proof (cases "scheduled s node")
  case True
  with ok show ?thesis by (auto simp: psync_run_ratelimited_timer_def rr_ok_def)
next
  case False
  obtain us vs where seq: "inorder (tasks s) = us @ node # vs" using n by (rule in_set_splitE)
  then obtain t where t: "psync_tree_get_del (tasks s) node = Some t" "tree_ok t" "inorder t = us @ vs"
    using avl_seq.del_node [of "tasks s" us node vs] ok by (auto simp: rr_ok_def)
  have "distinct (us @ node # vs)" using ok by (simp add: rr_ok_def tree_ok_def flip: seq)
  then have "set (inorder t) = set (inorder (tasks s)) - {node}" by (auto simp: seq t(3))
  moreover have "mset (remove1 node (armed s)) = mset (inorder t)" "by_call (ncall s) (inorder t)"
    using ok by (auto simp: rr_ok_def seq t(3) sorted_wrt_append)
  ultimately show ?thesis using False t ok by (auto simp: psync_run_ratelimited_timer_def rr_ok_def)
qed

subsection \<open>Requests and expiries as a transition system\<close>

text \<open>The history counts, per callback, how often its timer expired and how often it was run, and notes
  the callbacks that were requested since they last started to run.\<close>

record rr_hist =
  rr :: rr_state
  expired :: "addr \<Rightarrow> nat"
  owed :: "addr set"

inductive rr_step :: "rr_hist \<Rightarrow> rr_hist \<Rightarrow> bool" where
  rr_request: "\<lbrakk>new \<notin> set (inorder (tasks (rr h))); psync_run_ratelimited (rr h) new call = Some s\<rbrakk> \<Longrightarrow>
     rr_step h (h\<lparr>rr := s, owed := (if runs s = runs (rr h) then insert call (owed h) else owed h - {call})\<rparr>)"
| rr_expiry: "\<lbrakk>node \<in> set (armed (rr h)); psync_run_ratelimited_timer (rr h) node = Some s; call = ncall (rr h) node\<rbrakk> \<Longrightarrow>
     rr_step h (h\<lparr>rr := s, expired := (expired h)(call := expired h call + 1),
       owed := (if runs s = runs (rr h) then owed h else owed h - {call})\<rparr>)"

definition rr_start :: "rr_hist \<Rightarrow> bool" where
  "rr_start h = (h = \<lparr>rr = rr_init, expired = (\<lambda>_. 0), owed = {}\<rparr>)"

definition present :: "rr_state \<Rightarrow> addr \<Rightarrow> bool" where
  "present s call = (\<exists>x \<in> set (inorder (tasks s)). ncall s x = call)"

definition rr_inv :: "rr_hist \<Rightarrow> bool" where
  "rr_inv h = (rr_ok (rr h)
    \<and> (\<forall>c. count_list (runs (rr h)) c \<le> expired h c + (if present (rr h) c then 1 else 0))
    \<and> (\<forall>c. c \<in> owed h \<longleftrightarrow> (\<exists>x \<in> set (inorder (tasks (rr h))). ncall (rr h) x = c \<and> scheduled (rr h) x)))"

lemma rr_inv_request:
  assumes inv: "rr_inv h" and new: "new \<notin> set (inorder (tasks (rr h)))"
    and s: "psync_run_ratelimited (rr h) new call = Some s"
  shows "rr_inv (h\<lparr>rr := s, owed := (if runs s = runs (rr h) then insert call (owed h) else owed h - {call})\<rparr>)"
proof -
  have ok: "rr_ok (rr h)" using inv by (simp add: rr_inv_def)
  note r = request_spec [OF ok new, of call, unfolded s]
  show ?thesis
  proof (cases "present (rr h) call")
    case True
    then have "rr_ok s" "runs s = runs (rr h)" "inorder (tasks s) = inorder (tasks (rr h))" "ncall s = ncall (rr h)"
      "\<forall>x \<in> set (inorder (tasks (rr h))). scheduled s x = (scheduled (rr h) x \<or> ncall (rr h) x = call)"
      using r by (auto simp: present_def)
    with inv True show ?thesis by (auto simp: rr_inv_def present_def)
  next
    case False
    then have s': "rr_ok s" "runs s = runs (rr h) @ [call]" "set (inorder (tasks s)) = insert new (set (inorder (tasks (rr h))))"
        "ncall s = (ncall (rr h))(new := call)" "scheduled s = (scheduled (rr h))(new := False)"
      using r by (auto simp: present_def)
    have bound: "count_list (runs (rr h)) c \<le> expired h c + (if present (rr h) c then 1 else 0)" for c
      using inv by (simp add: rr_inv_def)
    have owed: "c \<in> owed h \<longleftrightarrow> (\<exists>x \<in> set (inorder (tasks (rr h))). ncall (rr h) x = c \<and> scheduled (rr h) x)" for c
      using inv by (simp add: rr_inv_def)
    have other: "ncall (rr h) x \<noteq> call \<and> x \<noteq> new" if "x \<in> set (inorder (tasks (rr h)))" for x
      using False that new by (auto simp: present_def)
    have pres: "present s c \<longleftrightarrow> present (rr h) c \<or> c = call" for c
      unfolding present_def s' using other by auto
    have "count_list (runs s) c \<le> expired h c + (if present s c then 1 else 0)" for c
      using bound [of c] False by (cases "c = call") (simp_all add: s'(2) pres split: if_splits)
    moreover have "c \<in> owed h - {call} \<longleftrightarrow> (\<exists>x \<in> set (inorder (tasks s)). ncall s x = c \<and> scheduled s x)" for c
      unfolding s' Diff_iff owed using other by (metis fun_upd_apply insert_iff singleton_iff)
    ultimately show ?thesis using s' by (simp add: rr_inv_def)
  qed
qed

lemma rr_inv_expiry:
  assumes inv: "rr_inv h" and node: "node \<in> set (armed (rr h))"
    and s: "psync_run_ratelimited_timer (rr h) node = Some s" and call: "call = ncall (rr h) node"
  shows "rr_inv (h\<lparr>rr := s, expired := (expired h)(call := expired h call + 1),
       owed := (if runs s = runs (rr h) then owed h else owed h - {call})\<rparr>)"
proof -
  have ok: "rr_ok (rr h)" using inv by (simp add: rr_inv_def)
  then have n: "node \<in> set (inorder (tasks (rr h)))" using node by (metis mset_eq_setD rr_ok_def)
  have ord: "by_call (ncall (rr h)) (inorder (tasks (rr h)))" using ok by (simp add: rr_ok_def)
  have only: "x = node" if "x \<in> set (inorder (tasks (rr h)))" "ncall (rr h) x = call" for x
    using by_call_inj [OF ord that(1) n] that(2) call by simp
  note r = timer_spec [OF ok n, unfolded s]
  have bound: "count_list (runs (rr h)) c \<le> expired h c + (if present (rr h) c then 1 else 0)" for c
    using inv by (simp add: rr_inv_def)
  have owed: "c \<in> owed h \<longleftrightarrow> (\<exists>x \<in> set (inorder (tasks (rr h))). ncall (rr h) x = c \<and> scheduled (rr h) x)" for c
    using inv by (simp add: rr_inv_def)
  have here: "present (rr h) call" using n call by (auto simp: present_def)
  show ?thesis
  proof (cases "scheduled (rr h) node")
    case True
    then have s': "rr_ok s" "ncall s = ncall (rr h)" "runs s = runs (rr h) @ [call]"
        "inorder (tasks s) = inorder (tasks (rr h))" "scheduled s = (scheduled (rr h))(node := False)"
      using r call by auto
    have "count_list (runs s) c \<le> ((expired h)(call := expired h call + 1)) c + (if present s c then 1 else 0)" for c
    proof -
      have "present s c \<longleftrightarrow> present (rr h) c" by (simp add: present_def s')
      then show ?thesis using bound [of c] here by (cases "c = call") (simp_all add: s'(3))
    qed
    moreover have "c \<in> owed h - {call} \<longleftrightarrow> (\<exists>x \<in> set (inorder (tasks s)). ncall s x = c \<and> scheduled s x)" for c
      unfolding s' Diff_iff owed using only call by (metis fun_upd_apply singleton_iff)
    ultimately show ?thesis using s' by (simp add: rr_inv_def)
  next
    case False
    then have s': "rr_ok s" "ncall s = ncall (rr h)" "runs s = runs (rr h)" "scheduled s = scheduled (rr h)"
        "set (inorder (tasks s)) = set (inorder (tasks (rr h))) - {node}"
      using r by auto
    have pres: "present s c \<longleftrightarrow> present (rr h) c \<and> c \<noteq> call" for c
      unfolding present_def s' using only call by auto
    have "count_list (runs s) c \<le> ((expired h)(call := expired h call + 1)) c + (if present s c then 1 else 0)" for c
      using bound [of c] by (cases "c = call") (simp_all add: s'(3) pres split: if_splits)
    moreover have "c \<in> owed h \<longleftrightarrow> (\<exists>x \<in> set (inorder (tasks s)). ncall s x = c \<and> scheduled s x)" for c
      unfolding s' owed using False by auto
    ultimately show ?thesis using s' by (simp add: rr_inv_def)
  qed
qed

interpretation ratelimit: inductive_invariant rr_start rr_step rr_inv
proof (unfold_locales, goal_cases)
  case (1 h)
  then show ?case by (simp add: rr_start_def rr_inv_def rr_init_def rr_ok_def tree_ok_def present_def)
next
  case (2 h h')
  from 2(2) show ?case
    by cases (simp_all only: rr_inv_request [OF 2(1)] rr_inv_expiry [OF 2(1)])
qed

subsection \<open>Properties\<close>

text \<open>C14: In every reachable state a callback has been run at most once more often than its timer has expired, so two
  runs are always separated by an expiry of the timer with the interval; and neither operation can fault.\<close>

theorem ratelimit_bounds_runs:
  assumes "reachable_from rr_start rr_step h"
  shows "count_list (runs (rr h)) c \<le> expired h c + 1
    \<and> (\<forall>new call. new \<notin> set (inorder (tasks (rr h))) \<longrightarrow> psync_run_ratelimited (rr h) new call \<noteq> None)
    \<and> (\<forall>node \<in> set (armed (rr h)). psync_run_ratelimited_timer (rr h) node \<noteq> None)"
proof -
  have inv: "rr_inv h" by (rule ratelimit.reachable_inv [OF assms])
  then have ok: "rr_ok (rr h)" by (simp add: rr_inv_def)
  have "psync_run_ratelimited_timer (rr h) node \<noteq> None" if "node \<in> set (armed (rr h))" for node
    using timer_spec [OF ok, of node] ok that by (auto simp: rr_ok_def dest: mset_eq_setD)
  moreover have "count_list (runs (rr h)) c \<le> expired h c + (if present (rr h) c then 1 else 0)"
    using inv by (simp add: rr_inv_def)
  moreover have "psync_run_ratelimited (rr h) new call \<noteq> None" if "new \<notin> set (inorder (tasks (rr h)))" for new call
    using request_spec [OF ok that, of call] by (metis option.distinct(1))
  ultimately show ?thesis by (simp split: if_splits)
qed

theorem ratelimit_bounds_runs_witness:
  "\<exists>h. reachable_from rr_start rr_step h \<and> count_list (runs (rr h)) 5 \<le> expired h 5 + 1"
  using ratelimit_bounds_runs [of "\<lparr>rr = rr_init, expired = (\<lambda>_. 0), owed = {}\<rparr>" 5]
  by (intro exI [of _ "\<lparr>rr = rr_init, expired = (\<lambda>_. 0), owed = {}\<rparr>"]) (simp add: reach_init rr_start_def)

text \<open>C15: No request is lost: a callback that was requested since it last started to run has a marked node, and the
  next expiry of that node's timer runs it.\<close>

theorem ratelimit_no_lost_request:
  assumes "reachable_from rr_start rr_step h" "c \<in> owed h"
  shows "\<exists>node \<in> set (armed (rr h)). ncall (rr h) node = c \<and>
    (\<exists>s. psync_run_ratelimited_timer (rr h) node = Some s \<and> runs s = runs (rr h) @ [c])"
proof -
  have inv: "rr_inv h" by (rule ratelimit.reachable_inv [OF assms(1)])
  then have ok: "rr_ok (rr h)" by (simp add: rr_inv_def)
  obtain x where x: "x \<in> set (inorder (tasks (rr h)))" "ncall (rr h) x = c" "scheduled (rr h) x"
    using inv assms(2) by (auto simp: rr_inv_def)
  moreover have "x \<in> set (armed (rr h))" using x(1) ok by (metis mset_eq_setD rr_ok_def)
  ultimately show ?thesis by (intro bexI [of _ x]) (auto simp: psync_run_ratelimited_timer_def)
qed

theorem ratelimit_no_lost_request_witness:
  "\<exists>(h :: rr_hist) node s. 9 \<in> owed h \<and> ncall (rr h) node = 9 \<and> psync_run_ratelimited_timer (rr h) node = Some s
     \<and> runs s = runs (rr h) @ [9]"
proof -
  let ?h0 = "\<lparr>rr = rr_init, expired = (\<lambda>_. 0), owed = {}\<rparr>"
  let ?s1 = "\<lparr>tasks = PNode PNull 1 1 PNull, ncall = (\<lambda>_. 0)(1 := 9), scheduled = (\<lambda>_. False)(1 := False), armed = [1], runs = [9]\<rparr>"
  let ?h1 = "\<lparr>rr = ?s1, expired = (\<lambda>_. 0), owed = {}\<rparr>"
  let ?h2 = "\<lparr>rr = ?s1\<lparr>scheduled := (\<lambda>_. False)(1 := True)\<rparr>, expired = (\<lambda>_. 0), owed = {9}\<rparr>"
  have r0: "reachable_from rr_start rr_step ?h0" by (simp add: reach_init rr_start_def)
  have "rr_step ?h0 ?h1"
    using rr_request [of 1 ?h0 9 ?s1]
    by (simp add: rr_init_def psync_run_ratelimited_def psync_tree_init_node_def)
  with r0 have r1: "reachable_from rr_start rr_step ?h1" by (rule reach_step)
  have "rr_step ?h1 ?h2" using rr_request [of 2 ?h1 9 "rr ?h2"] by (simp add: psync_run_ratelimited_def)
  with r1 have "reachable_from rr_start rr_step ?h2" by (rule reach_step)
  moreover have "9 \<in> owed ?h2" by simp
  ultimately obtain h where "reachable_from rr_start rr_step h" "9 \<in> owed h" by blast
  with ratelimit_no_lost_request [of h 9] show ?thesis by blast
qed

end
