(* ===== verification/Papi.thy ===== *)
theory Papi
  imports Prelude "HOL-Library.Sublist"
begin

unbundle bit_operations_syntax

section \<open>The binary API protocol (\<open>papi.c\<close>, \<open>papi.h\<close>)\<close>

text \<open>
  Replies of the server are parsed in two passes: \<^verbatim>\<open>calc_ret_len\<close> checks the bytes and computes how much memory and
  how many string slots the result needs, \<^verbatim>\<open>do_parse_result\<close> then builds it without any checks.  The buffer from
  a pointer on is the list of its bytes.  The outcome \<open>Fault\<close> is a read outside the buffer (or of a string slot
  that was never filled), \<open>Fail\<close> is the error return; recursion and loops take fuel and \<open>NoFuel\<close> is proved not to occur.
  Sizes are those of a 64-bit platform: \<open>sizeof(binresult) = 16\<close>, \<open>offsetof(binresult, str) = 8\<close>,
  \<open>sizeof(hashpair) = 16\<close>, pointers and the alignment of \<^verbatim>\<open>uint64_t\<close> are 8.  A reply is shorter than \<open>2 ^ 32\<close> bytes,
  so that no size overflows and sizes are \<open>nat\<close>.  The string slots hold the strings parsed so far.
\<close>

subsection \<open>Data\<close>

datatype binresult =
    BStr bytes
  | BNum u64
  | BBool bool
  | BArray "binresult list"
  | BHash "(bytes \<times> binresult) list"
  | BData u64

datatype paramtype = PARAM_STR | PARAM_NUM | PARAM_BOOL | PARAM_ARRAY | PARAM_HASH | PARAM_DATA

fun result_type :: "binresult \<Rightarrow> paramtype" where
  "result_type (BStr _) = PARAM_STR"
| "result_type (BNum _) = PARAM_NUM"
| "result_type (BBool _) = PARAM_BOOL"
| "result_type (BArray _) = PARAM_ARRAY"
| "result_type (BHash _) = PARAM_HASH"
| "result_type (BData _) = PARAM_DATA"

fun empty_types :: "paramtype \<Rightarrow> binresult" where
  "empty_types PARAM_STR = BStr []"
| "empty_types PARAM_NUM = BNum 0"
| "empty_types PARAM_BOOL = BBool False"
| "empty_types PARAM_ARRAY = BArray []"
| "empty_types PARAM_HASH = BHash []"
| "empty_types PARAM_DATA = BData 0"

datatype rtag =
    TShortStr nat | TStr nat | TRstr nat | TShortRstr nat | TNum nat | TSmall nat | TBool bool
  | TArray | THash | TData | TBad

definition tag_of :: "u8 \<Rightarrow> rtag" where
  "tag_of b = (let t = unat b in
     if 100 \<le> t \<and> t < 150 then TShortStr (t - 100)
     else if t \<le> 3 then TStr (t + 1)
     else if t \<le> 7 then TRstr (t - 3)
     else if 150 \<le> t \<and> t < 200 then TShortRstr (t - 150)
     else if t \<le> 15 then TNum (t - 7)
     else if 200 \<le> t \<and> t < 220 then TSmall (t - 200)
     else if t = 18 then TBool False
     else if t = 19 then TBool True
     else if t = 17 then TArray
     else if t = 16 then THash
     else if t = 20 then TData
     else TBad)"

abbreviation RPARAM_END :: u8 where "RPARAM_END \<equiv> 255"

datatype 'a outcome = Ret 'a | Fail | Fault | NoFuel

fun obind :: "'a outcome \<Rightarrow> ('a \<Rightarrow> 'b outcome) \<Rightarrow> 'b outcome" where
  "obind (Ret a) f = f a"
| "obind Fail f = Fail"
| "obind Fault f = Fault"
| "obind NoFuel f = NoFuel"

subsection \<open>First pass\<close>

definition need_data :: "nat \<Rightarrow> bytes \<Rightarrow> (bytes \<times> bytes) outcome" where
  "need_data n data = (if length data < n then Fail else Ret (take n data, drop n data))"

definition str_space :: "nat \<Rightarrow> nat" where
  "str_space len = 8 + ((len + 8) div 8) * 8"

text \<open>The results are the rest of the data, the number of strings and the space.\<close>

fun calc_ret_len :: "nat \<Rightarrow> bytes \<Rightarrow> nat \<Rightarrow> (bytes \<times> nat \<times> nat) outcome"
  and calc_array :: "nat \<Rightarrow> bytes \<Rightarrow> nat \<Rightarrow> nat \<Rightarrow> nat \<Rightarrow> (bytes \<times> nat \<times> nat) outcome"
  and calc_hash :: "nat \<Rightarrow> bytes \<Rightarrow> nat \<Rightarrow> nat \<Rightarrow> nat \<Rightarrow> (bytes \<times> nat \<times> nat) outcome" where
  "calc_ret_len 0 data strcnt = NoFuel"
| "calc_ret_len (Suc n) data strcnt = (case data of [] \<Rightarrow> Fail | t # data \<Rightarrow>
     (case tag_of t of
        TShortStr len \<Rightarrow> obind (need_data len data) (\<lambda>(_, data). Ret (data, strcnt + 1, str_space len))
      | TStr l \<Rightarrow> obind (need_data l data) (\<lambda>(lb, data).
          obind (need_data (le_val lb) data) (\<lambda>(_, data). Ret (data, strcnt + 1, str_space (le_val lb))))
      | TRstr l \<Rightarrow> obind (need_data l data) (\<lambda>(lb, data). if le_val lb < strcnt then Ret (data, strcnt, 0) else Fail)
      | TShortRstr i \<Rightarrow> if i < strcnt then Ret (data, strcnt, 0) else Fail
      | TNum len \<Rightarrow> obind (need_data len data) (\<lambda>(_, data). Ret (data, strcnt, 16))
      | TSmall v \<Rightarrow> Ret (data, strcnt, 0)
      | TBool b \<Rightarrow> Ret (data, strcnt, 0)
      | TArray \<Rightarrow> calc_array n data strcnt 0 16
      | THash \<Rightarrow> calc_hash n data strcnt 0 16
      | TData \<Rightarrow> obind (need_data 8 data) (\<lambda>(_, data). Ret (data, strcnt, 16))
      | TBad \<Rightarrow> Fail))"
| "calc_array 0 data strcnt cnt ret = NoFuel"
| "calc_array (Suc n) data strcnt cnt ret = (case data of [] \<Rightarrow> Fault | t # rest \<Rightarrow>
     if t = RPARAM_END then Ret (rest, strcnt, ret + 8 * cnt)
     else obind (calc_ret_len n data strcnt) (\<lambda>(data, strcnt, r).
       if data = [] then Fail else calc_array n data strcnt (cnt + 1) (ret + r)))"
| "calc_hash 0 data strcnt cnt ret = NoFuel"
| "calc_hash (Suc n) data strcnt cnt ret = (case data of [] \<Rightarrow> Fault | t # rest \<Rightarrow>
     if t = RPARAM_END then Ret (rest, strcnt, ret + 16 * cnt)
     else obind (calc_ret_len n data strcnt) (\<lambda>(data, strcnt, r1).
       obind (calc_ret_len n data strcnt) (\<lambda>(data, strcnt, r2).
       if data = [] then Fail else calc_hash n data strcnt (cnt + 1) (ret + r1 + r2))))"

subsection \<open>Second pass\<close>

text \<open>\<open>used\<close> is the distance of \<^verbatim>\<open>odata\<close> from the start of the allocated block.\<close>

definition read_data :: "nat \<Rightarrow> bytes \<Rightarrow> (bytes \<times> bytes) outcome" where
  "read_data n data = (if length data < n then Fault else Ret (take n data, drop n data))"

type_synonym 'v parsed = "('v \<times> bytes \<times> bytes list \<times> nat) outcome"

fun do_parse_result :: "nat \<Rightarrow> bytes \<Rightarrow> bytes list \<Rightarrow> nat \<Rightarrow> binresult parsed"
  and parse_array :: "nat \<Rightarrow> bytes \<Rightarrow> bytes list \<Rightarrow> nat \<Rightarrow> binresult list \<Rightarrow> binresult parsed"
  and parse_hash :: "nat \<Rightarrow> bytes \<Rightarrow> bytes list \<Rightarrow> nat \<Rightarrow> (bytes \<times> binresult) list \<Rightarrow> binresult parsed" where
  "do_parse_result 0 data strings used = NoFuel"
| "do_parse_result (Suc n) data strings used = (case data of [] \<Rightarrow> Fault | t # data \<Rightarrow>
     (case tag_of t of
        TShortStr len \<Rightarrow> obind (read_data len data) (\<lambda>(s, data).
          Ret (BStr s, data, strings @ [s], used + str_space len))
      | TStr l \<Rightarrow> obind (read_data l data) (\<lambda>(lb, data). obind (read_data (le_val lb) data) (\<lambda>(s, data).
          Ret (BStr s, data, strings @ [s], used + str_space (le_val lb))))
      | TRstr l \<Rightarrow> obind (read_data l data) (\<lambda>(lb, data).
          if le_val lb < length strings then Ret (BStr (strings ! le_val lb), data, strings, used) else Fault)
      | TShortRstr i \<Rightarrow> if i < length strings then Ret (BStr (strings ! i), data, strings, used) else Fault
      | TNum len \<Rightarrow> obind (read_data len data) (\<lambda>(b, data). Ret (BNum (of_nat (le_val b)), data, strings, used + 16))
      | TSmall v \<Rightarrow> Ret (BNum (of_nat v), data, strings, used)
      | TBool b \<Rightarrow> Ret (BBool b, data, strings, used)
      | TArray \<Rightarrow> parse_array n data strings (used + 16) []
      | THash \<Rightarrow> parse_hash n data strings (used + 16) []
      | TData \<Rightarrow> obind (read_data 8 data) (\<lambda>(b, data). Ret (BData (of_nat (le_val b)), data, strings, used + 16))
      | TBad \<Rightarrow> Fault))"
| "parse_array 0 data strings used arr = NoFuel"
| "parse_array (Suc n) data strings used arr = (case data of [] \<Rightarrow> Fault | t # rest \<Rightarrow>
     if t = RPARAM_END then Ret (BArray arr, rest, strings, used + 8 * length arr)
     else obind (do_parse_result n data strings used) (\<lambda>(v, data, strings, used).
       parse_array n data strings used (arr @ [v])))"
| "parse_hash 0 data strings used arr = NoFuel"
| "parse_hash (Suc n) data strings used arr = (case data of [] \<Rightarrow> Fault | t # rest \<Rightarrow>
     if t = RPARAM_END then Ret (BHash arr, rest, strings, used + 16 * length arr)
     else obind (do_parse_result n data strings used) (\<lambda>(key, data, strings, used).
       obind (do_parse_result n data strings used) (\<lambda>(v, data, strings, used).
       parse_hash n data strings used (case key of BStr k \<Rightarrow> arr @ [(k, v)] | _ \<Rightarrow> arr))))"

text \<open>The pass over the whole reply: \<open>Fail\<close> is the \<^verbatim>\<open>NULL\<close> result.\<close>

definition fuel_for :: "bytes \<Rightarrow> nat" where
  "fuel_for data = 2 * length data + 1"

definition parse_result :: "bytes \<Rightarrow> binresult outcome" where
  "parse_result data = obind (calc_ret_len (fuel_for data) data 0) (\<lambda>(_, strcnt, retlen).
     obind (do_parse_result (fuel_for data) data [] 0) (\<lambda>(res, _, strings, used). Ret res))"

subsection \<open>Looking up keys\<close>

text \<open>\<^verbatim>\<open>strcmp\<close> reads a key up to its first zero byte; the name that is looked up is a C string.\<close>

definition c_string :: "bytes \<Rightarrow> bytes" where
  "c_string s = takeWhile (\<lambda>b. b \<noteq> 0) s"

fun find_key :: "(bytes \<times> binresult) list \<Rightarrow> bytes \<Rightarrow> binresult option" where
  "find_key [] name = None"
| "find_key ((k, v) # hash) name = (if c_string k = name then Some v else find_key hash name)"

definition psync_do_find_result :: "binresult option \<Rightarrow> bytes \<Rightarrow> paramtype \<Rightarrow> binresult" where
  "psync_do_find_result res name type = (case res of
     Some (BHash hash) \<Rightarrow> (case find_key hash name of
         Some v \<Rightarrow> if result_type v = type then v else empty_types type
       | None \<Rightarrow> empty_types type)
   | _ \<Rightarrow> empty_types type)"

definition psync_do_check_result :: "binresult option \<Rightarrow> bytes \<Rightarrow> paramtype \<Rightarrow> binresult option" where
  "psync_do_check_result res name type = (case res of
     Some (BHash hash) \<Rightarrow> (case find_key hash name of
         Some v \<Rightarrow> if result_type v = type then Some v else None
       | None \<Rightarrow> None)
   | _ \<Rightarrow> None)"

subsection \<open>Sending commands\<close>

text \<open>The parameters that the macros \<^verbatim>\<open>P_STR\<close>, \<^verbatim>\<open>P_LSTR\<close>, \<^verbatim>\<open>P_NUM\<close> and \<^verbatim>\<open>P_BOOL\<close> build; \<^verbatim>\<open>paramnamelen\<close>
  and \<^verbatim>\<open>opts\<close> are the lengths of the name and the string.  \<^verbatim>\<open>datalen\<close> is \<open>None\<close> for \<open>-1\<close>.\<close>

datatype binparam = PStr bytes bytes | PNum bytes u64 | PBool bytes u64

fun param_len :: "binparam \<Rightarrow> nat" where
  "param_len (PStr name str) = length name + length str + 5"
| "param_len (PNum name num) = length name + 1 + 8"
| "param_len (PBool name num) = length name + 2"

definition calculate_params_len :: "nat \<Rightarrow> binparam list \<Rightarrow> u64 option \<Rightarrow> nat" where
  "calculate_params_len cmdlen params datalen =
     cmdlen + 2 + (if datalen = None then 0 else 8) + sum_list (map param_len params)"

fun put_param :: "binparam \<Rightarrow> bytes" where
  "put_param (PStr name str) = word_of_nat (0 * 64 + length name) # name @ le_bytes 4 (length str) @ str"
| "put_param (PNum name num) = word_of_nat (1 * 64 + length name) # name @ le_bytes 8 (unat num)"
| "put_param (PBool name num) = word_of_nat (2 * 64 + length name) # name @ [word_of_nat (unat (num AND 1))]"

definition do_prepare_command :: "bytes \<Rightarrow> binparam list \<Rightarrow> u64 option \<Rightarrow> bytes option" where
  "do_prepare_command command params datalen =
     (let plen = calculate_params_len (length command) params datalen in
      if plen > 0xffff then None
      else Some (le_bytes 2 plen
        @ (case datalen of Some d \<Rightarrow> (word_of_nat (length command) OR 0x80) # le_bytes 8 (unat d)
           | None \<Rightarrow> [word_of_nat (length command)])
        @ command @ word_of_nat (length params) # concat (map put_param params)))"

subsection \<open>Receiving replies\<close>

text \<open>\<^verbatim>\<open>psync_socket_readall\<close> and \<^verbatim>\<open>psync_socket_writeall\<close> are parameters over a socket state: the bytes that
  were read, and the number of bytes written.  \<open>None\<close> is the \<^verbatim>\<open>NULL\<close> result.\<close>

definition result_or_null :: "binresult outcome \<Rightarrow> binresult option" where
  "result_or_null r = (case r of Ret v \<Rightarrow> Some v | _ \<Rightarrow> None)"

definition get_result :: "('s \<Rightarrow> nat \<Rightarrow> bytes \<times> 's) \<Rightarrow> 's \<Rightarrow> binresult option \<times> 's" where
  "get_result readall s =
     (let (hdr, s) = readall s 4 in
      if length hdr \<noteq> 4 then (None, s)
      else let ressize = le_val hdr; (data, s) = readall s ressize in
        if length data \<noteq> ressize then (None, s)
        else (result_or_null (parse_result data), s))"

datatype sent = NullResult | PtrOk | Reply "binresult option"

definition do_send_command :: "('s \<Rightarrow> nat \<Rightarrow> bytes \<times> 's) \<Rightarrow> ('s \<Rightarrow> bytes \<Rightarrow> int \<times> 's) \<Rightarrow> ('s \<Rightarrow> bytes \<Rightarrow> int \<times> 's) \<Rightarrow> 's
    \<Rightarrow> bytes \<Rightarrow> binparam list \<Rightarrow> u64 option \<Rightarrow> u32 \<Rightarrow> sent \<times> 's" where
  "do_send_command readall writeall writeall_thread s command params datalen readres =
     (case do_prepare_command command params datalen of
        None \<Rightarrow> (NullResult, s)
      | Some sdata \<Rightarrow>
          let (n, s) = (if bit readres 1 then writeall_thread s sdata else writeall s sdata) in
          if n \<noteq> int (length sdata) then (NullResult, s)
          else if bit readres 0 then let (r, s) = get_result readall s in (Reply r, s)
          else (PtrOk, s))"

text \<open>The incremental reader.  The result of a non-blocking read is one of the three kinds below; \<open>rdata\<close>
  are the bytes received of the current part.\<close>

datatype sock_read = WouldBlock | SockError | Got bytes

record async_result_reader =
  rstate :: nat
  bytestoread :: nat
  rdata :: bytes
  result :: "binresult option"

datatype async_res = ASYNC_RES_NEEDMORE | ASYNC_RES_READY

definition async_result_reader_init :: "async_result_reader \<Rightarrow> async_result_reader" where
  "async_result_reader_init r = r\<lparr>rstate := 0, bytestoread := 4, rdata := []\<rparr>"

fun get_result_async :: "sock_read list \<Rightarrow> async_result_reader \<Rightarrow> async_res \<times> async_result_reader \<times> sock_read list" where
  "get_result_async [] r = (ASYNC_RES_NEEDMORE, r, [])"
| "get_result_async (WouldBlock # evs) r = (ASYNC_RES_NEEDMORE, r, evs)"
| "get_result_async (SockError # evs) r = (ASYNC_RES_READY, (async_result_reader_init r)\<lparr>result := None\<rparr>, evs)"
| "get_result_async (Got b # evs) r =
     (if b = [] then (ASYNC_RES_READY, (async_result_reader_init r)\<lparr>result := None\<rparr>, evs)
      else let r = r\<lparr>rdata := rdata r @ b\<rparr> in
        if length (rdata r) = bytestoread r
        then if rstate r = 0
             then get_result_async evs (r\<lparr>rstate := 1, bytestoread := le_val (rdata r), rdata := []\<rparr>)
             else (ASYNC_RES_READY,
               async_result_reader_init (r\<lparr>result := result_or_null (parse_result (rdata r))\<rparr>), evs)
        else (ASYNC_RES_NEEDMORE, r, evs))"

subsection \<open>Connecting\<close>

text \<open>\<open>connect\<close> stands for \<^verbatim>\<open>psync_socket_connect\<close> to a host.  The state is the time \<^verbatim>\<open>notuntil\<close> before which the
  given host is not tried; the result is the host that was connected.\<close>

definition psync_api_connect :: "(bytes \<Rightarrow> bool) \<Rightarrow> bytes \<Rightarrow> int \<Rightarrow> int \<Rightarrow> bytes \<Rightarrow> bytes option \<times> int" where
  "psync_api_connect connect PSYNC_API_HOST now notuntil hostname =
     (if now > notuntil
      then if connect hostname then (Some hostname, notuntil)
           else if hostname = PSYNC_API_HOST then (None, notuntil)
           else if connect PSYNC_API_HOST then (Some PSYNC_API_HOST, now + 1800)
           else (None, notuntil)
      else (if connect PSYNC_API_HOST then Some PSYNC_API_HOST else None, notuntil))"

definition psync_api_conn_fail_inc :: "u32 \<Rightarrow> u32" where
  "psync_api_conn_fail_inc connfailures = connfailures + 1"

definition psync_api_conn_fail_reset :: "u32 \<Rightarrow> u32" where
  "psync_api_conn_fail_reset connfailures = (if connfailures mod 5 = 4 then 4 else 0)"

subsection \<open>The second pass follows the first\<close>

lemma obind_Ret_iff: "obind m f = Ret y \<longleftrightarrow> (\<exists>x. m = Ret x \<and> f x = Ret y)"
  by (cases m) auto

lemma need_read: "need_data n data = Ret x \<Longrightarrow> read_data n data = Ret x"
  by (simp add: need_data_def read_data_def split: if_splits)

lemma second_pass_follows:
  "(\<forall>data sc strings used d' sc' r. calc_ret_len n data sc = Ret (d', sc', r) \<longrightarrow> length strings = sc \<longrightarrow>
      (\<exists>v strings' used'. do_parse_result n data strings used = Ret (v, d', strings', used')
         \<and> length strings' = sc' \<and> used' \<le> used + r))
   \<and> (\<forall>data sc cnt ret strings used base arr d' sc' r. calc_array n data sc cnt ret = Ret (d', sc', r) \<longrightarrow>
      length strings = sc \<longrightarrow> length arr = cnt \<longrightarrow> used \<le> base + ret \<longrightarrow>
      (\<exists>v strings' used'. parse_array n data strings used arr = Ret (v, d', strings', used')
         \<and> length strings' = sc' \<and> used' \<le> base + r))
   \<and> (\<forall>data sc cnt ret strings used base arr d' sc' r. calc_hash n data sc cnt ret = Ret (d', sc', r) \<longrightarrow>
      length strings = sc \<longrightarrow> length arr \<le> cnt \<longrightarrow> used \<le> base + ret \<longrightarrow>
      (\<exists>v strings' used'. parse_hash n data strings used arr = Ret (v, d', strings', used')
         \<and> length strings' = sc' \<and> used' \<le> base + r))"
proof (induction n)
  case 0
  then show ?case by simp
next
  case (Suc n)
  have one: "\<exists>v strings' used'. do_parse_result n data strings used = Ret (v, d', strings', used')
      \<and> length strings' = sc' \<and> used' \<le> used + r"
    if "calc_ret_len n data (length strings) = Ret (d', sc', r)" for data strings used d' sc' r
    by (rule Suc.IH [THEN conjunct1, rule_format, OF that refl])
  have arrs: "\<exists>v strings' used'. parse_array n data strings used arr = Ret (v, d', strings', used')
      \<and> length strings' = sc' \<and> used' \<le> base + r"
    if "calc_array n data (length strings) (length arr) ret = Ret (d', sc', r)" "used \<le> base + ret"
    for data strings arr ret d' sc' r used base
    by (rule Suc.IH [THEN conjunct2, THEN conjunct1, rule_format, OF that(1) refl refl that(2)])
  have hashes: "\<exists>v strings' used'. parse_hash n data strings used arr = Ret (v, d', strings', used')
      \<and> length strings' = sc' \<and> used' \<le> base + r"
    if "calc_hash n data (length strings) cnt ret = Ret (d', sc', r)" "length arr \<le> cnt" "used \<le> base + ret"
    for data strings arr cnt ret d' sc' r used base
    by (rule Suc.IH [THEN conjunct2, THEN conjunct2, rule_format, OF that(1) refl that(2,3)])
  have "\<exists>v strings' used'. do_parse_result (Suc n) data strings used = Ret (v, d', strings', used')
      \<and> length strings' = sc' \<and> used' \<le> used + r"
    if a: "calc_ret_len (Suc n) data (length strings) = Ret (d', sc', r)" for data strings used d' sc' r
  proof -
    obtain t rest where data: "data = t # rest" using a by (cases data) auto
    show ?thesis
      using a arrs [of rest strings "[]" 16 d' sc' r "used + 16" used]
        hashes [of rest strings 0 16 d' sc' r "[]" "used + 16" used]
      by (cases "tag_of t") (auto simp: data obind_Ret_iff dest!: need_read split: if_splits)
  qed
  moreover have "\<exists>v strings' used'. parse_array (Suc n) data strings used arr = Ret (v, d', strings', used')
      \<and> length strings' = sc' \<and> used' \<le> base + r"
    if a: "calc_array (Suc n) data (length strings) (length arr) ret = Ret (d', sc', r)" "used \<le> base + ret"
    for data strings arr ret d' sc' r used base
  proof -
    obtain t rest where data: "data = t # rest" using a(1) by (cases data) auto
    show ?thesis
    proof (cases "t = RPARAM_END")
      case True
      with a show ?thesis by (auto simp: data)
    next
      case False
      then obtain d1 sc1 r1 where c: "calc_ret_len n data (length strings) = Ret (d1, sc1, r1)"
          "calc_array n d1 sc1 (length arr + 1) (ret + r1) = Ret (d', sc', r)"
        using a(1) by (auto simp: data obind_Ret_iff split: if_splits)
      obtain v strings1 used1 where p: "do_parse_result n data strings used = Ret (v, d1, strings1, used1)"
          "length strings1 = sc1" "used1 \<le> used + r1"
        using one [OF c(1)] by blast
      with c(2) arrs [of d1 strings1 "arr @ [v]" "ret + r1" d' sc' r used1 base] a(2) False show ?thesis
        by (auto simp: data)
    qed
  qed
  moreover have "\<exists>v strings' used'. parse_hash (Suc n) data strings used arr = Ret (v, d', strings', used')
      \<and> length strings' = sc' \<and> used' \<le> base + r"
    if a: "calc_hash (Suc n) data (length strings) cnt ret = Ret (d', sc', r)" "length arr \<le> cnt" "used \<le> base + ret"
    for data strings arr cnt ret d' sc' r used base
  proof -
    obtain t rest where data: "data = t # rest" using a(1) by (cases data) auto
    show ?thesis
    proof (cases "t = RPARAM_END")
      case True
      with a show ?thesis by (auto simp: data)
    next
      case False
      then obtain d1 sc1 r1 d2 sc2 r2 where c: "calc_ret_len n data (length strings) = Ret (d1, sc1, r1)"
          "calc_ret_len n d1 sc1 = Ret (d2, sc2, r2)" "calc_hash n d2 sc2 (cnt + 1) (ret + r1 + r2) = Ret (d', sc', r)"
        using a(1) by (auto simp: data obind_Ret_iff split: if_splits)
      obtain key strings1 used1 where p1: "do_parse_result n data strings used = Ret (key, d1, strings1, used1)"
          "length strings1 = sc1" "used1 \<le> used + r1"
        using one [OF c(1)] by blast
      obtain v strings2 used2 where p2: "do_parse_result n d1 strings1 used1 = Ret (v, d2, strings2, used2)"
          "length strings2 = sc2" "used2 \<le> used1 + r2"
        using one [of d1 strings1] c(2) p1(2) by blast
      let ?arr = "case key of BStr k \<Rightarrow> arr @ [(k, v)] | _ \<Rightarrow> arr"
      have "length ?arr \<le> cnt + 1" using a(2) by (cases key) auto
      moreover have "used2 \<le> base + (ret + r1 + r2)" using p1(3) p2(3) a(3) by simp
      ultimately show ?thesis
        using hashes [of d2 strings2 "cnt + 1" "ret + r1 + r2" d' sc' r ?arr used2 base] c(3) p1 p2 False
        by (auto simp: data)
    qed
  qed
  ultimately show ?case by (intro conjI allI impI; simp only:)
qed

subsection \<open>The first pass\<close>

definition opens_container :: "u8 \<Rightarrow> bool" where
  "opens_container t = (tag_of t = TArray \<or> tag_of t = THash)"

lemma obind_Fault_iff: "obind m f = Fault \<longleftrightarrow> m = Fault \<or> (\<exists>x. m = Ret x \<and> f x = Fault)"
  by (cases m) auto

lemma obind_NoFuel_iff: "obind m f = NoFuel \<longleftrightarrow> m = NoFuel \<or> (\<exists>x. m = Ret x \<and> f x = NoFuel)"
  by (cases m) auto

lemma need_data_suffix: "need_data k data = Ret (b, d) \<Longrightarrow> suffix d data"
  by (auto simp: need_data_def suffix_drop split: if_splits)

lemma need_data_total [simp]: "need_data k data \<noteq> Fault" "need_data k data \<noteq> NoFuel"
  by (simp_all add: need_data_def)

lemma suffix_tail: "suffix d data \<Longrightarrow> strict_suffix d (t # data)"
  by (auto simp: strict_suffix_def suffix_def)

lemmas suffix_chain = suffix_order.less_imp_le suffix_order.less_trans suffix_order.le_less_trans suffix_order.order_trans suffix_tail

text \<open>A call returns a shorter rest of its data.\<close>

lemma first_pass_rest:
  "calc_ret_len n data sc = Ret (d, sc', r) \<Longrightarrow> strict_suffix d data"
  "calc_array n data sc cnt ret = Ret (d, sc', r) \<Longrightarrow> strict_suffix d data"
  "calc_hash n data sc cnt ret = Ret (d, sc', r) \<Longrightarrow> strict_suffix d data"
proof (induction n arbitrary: data sc cnt ret d sc' r)
  case (Suc n)
  {
    case 1
    then obtain t rest where data: "data = t # rest" by (cases data) auto
    show ?case
      using 1 Suc.IH(2) [of rest sc 0 16 d sc' r] Suc.IH(3) [of rest sc 0 16 d sc' r]
      by (cases "tag_of t") (auto simp: data obind_Ret_iff split: if_splits
          dest!: need_data_suffix intro: suffix_chain)
  next
    case 2
    then obtain t rest where data: "data = t # rest" by (cases data) auto
    show ?case
      using 2 by (auto simp: data obind_Ret_iff suffix_tail split: if_splits dest!: Suc.IH intro: suffix_chain)
  next
    case 3
    then obtain t rest where data: "data = t # rest" by (cases data) auto
    show ?case
      using 3 by (auto simp: data obind_Ret_iff suffix_tail split: if_splits dest!: Suc.IH intro: suffix_chain)
  }
qed simp_all

text \<open>Fuel for two steps per byte is enough.\<close>

lemma strict_suffix_length: "strict_suffix d data \<Longrightarrow> length d < length data"
  by (auto simp: strict_suffix_def suffix_def)

lemmas rest_shorter = first_pass_rest [THEN strict_suffix_length]

lemma first_pass_fuel:
  "2 * length data < n \<Longrightarrow> calc_ret_len n data sc \<noteq> NoFuel"
  "2 * length data + 1 < n \<Longrightarrow> calc_array n data sc cnt ret \<noteq> NoFuel"
  "2 * length data + 1 < n \<Longrightarrow> calc_hash n data sc cnt ret \<noteq> NoFuel"
proof (induction n arbitrary: data sc cnt ret)
  case (Suc n)
  {
    case 1
    then show ?case
      using Suc.IH(2) [of "tl data" sc 0 16] Suc.IH(3) [of "tl data" sc 0 16]
      by (cases data; cases "tag_of (hd data)") (auto simp: obind_NoFuel_iff split: if_splits)
  next
    case 2
    have "calc_ret_len n data sc \<noteq> NoFuel" using Suc.IH(1) [of data sc] 2 by simp
    moreover have "calc_array n d sc' (cnt + 1) (ret + r) \<noteq> NoFuel" if "calc_ret_len n data sc = Ret (d, sc', r)" for d sc' r
      using Suc.IH(2) [of d] rest_shorter(1) [OF that] 2 by simp
    ultimately show ?case by (auto simp: obind_NoFuel_iff split: list.splits if_splits)
  next
    case 3
    have one: "calc_ret_len n d sc' \<noteq> NoFuel" if "length d \<le> length data" for d sc'
      using Suc.IH(1) [of d sc'] 3 that by simp
    have "calc_hash n d2 sc2 (cnt + 1) (ret + r1 + r2) \<noteq> NoFuel"
      if "calc_ret_len n data sc = Ret (d1, sc1, r1)" "calc_ret_len n d1 sc1 = Ret (d2, sc2, r2)" for d1 sc1 r1 d2 sc2 r2
      using Suc.IH(3) [of d2] rest_shorter(1) [OF that(1)] rest_shorter(1) [OF that(2)] 3 by simp
    then show ?case using one [of data] one rest_shorter(1) [of n data sc]
      by (fastforce simp: obind_NoFuel_iff split: list.splits if_splits)
  }
qed simp_all

text \<open>A read outside the data happens only when the data ends behind the tag of a container.\<close>

lemma suffix_last: "strict_suffix d data \<Longrightarrow> d \<noteq> [] \<Longrightarrow> last d = last data"
  by (auto simp: strict_suffix_def suffix_def)

lemma first_pass_fault:
  "calc_ret_len n data sc = Fault \<Longrightarrow> data \<noteq> [] \<and> opens_container (last data)"
  "calc_array n data sc cnt ret = Fault \<Longrightarrow> data \<noteq> [] \<longrightarrow> opens_container (last data)"
  "calc_hash n data sc cnt ret = Fault \<Longrightarrow> data \<noteq> [] \<longrightarrow> opens_container (last data)"
proof (induction n arbitrary: data sc cnt ret)
  case (Suc n)
  {
    case 1
    then show ?case
      using Suc.IH(2) [of "tl data" sc 0 16] Suc.IH(3) [of "tl data" sc 0 16]
      by (cases data; cases "tag_of (hd data)")
        (auto simp: obind_Fault_iff opens_container_def split: if_splits)
  next
    case 2
    have "opens_container (last data)" if "calc_ret_len n data sc = Ret (d, sc', r)" "d \<noteq> []"
        "calc_array n d sc' (cnt + 1) (ret + r) = Fault" for d sc' r
      using Suc.IH(2) [OF that(3)] suffix_last [OF first_pass_rest(1) [OF that(1)] that(2)] that(2) by simp
    then show ?case using 2 Suc.IH(1) [of data sc]
      by (auto simp: obind_Fault_iff split: list.splits if_splits)
  next
    case 3
    have two: "opens_container (last data)" if "calc_ret_len n data sc = Ret (d1, sc1, r1)" "calc_ret_len n d1 sc1 = Fault" for d1 sc1 r1
      using Suc.IH(1) [OF that(2)] suffix_last [OF first_pass_rest(1) [OF that(1)]] by simp
    have "opens_container (last data)" if c: "calc_ret_len n data sc = Ret (d1, sc1, r1)"
        "calc_ret_len n d1 sc1 = Ret (d2, sc2, r2)" "d2 \<noteq> []" "calc_hash n d2 sc2 (cnt + 1) (ret + r1 + r2) = Fault"
      for d1 sc1 r1 d2 sc2 r2
      using Suc.IH(3) [OF c(4)] c(3) suffix_last [of d2 data]
        suffix_order.less_trans [OF first_pass_rest(1) [OF c(2)] first_pass_rest(1) [OF c(1)]] by simp
    then show ?case using 3 two Suc.IH(1) [of data sc]
      by (auto simp: obind_Fault_iff split: list.splits if_splits)
  }
qed simp_all

subsection \<open>The wire format\<close>

definition byte :: "nat \<Rightarrow> u8" where
  "byte n = word_of_nat n"

text \<open>The encodings of a value: \<open>wire S v bs S'\<close> says that \<open>bs\<close> encodes \<open>v\<close> when the strings \<open>S\<close> came before, and that
  \<open>S'\<close> are the strings seen afterwards.  Every length has several forms, and a string may refer to an earlier one.\<close>

inductive wire :: "bytes list \<Rightarrow> binresult \<Rightarrow> bytes \<Rightarrow> bytes list \<Rightarrow> bool"
  and wires :: "bytes list \<Rightarrow> binresult list \<Rightarrow> bytes \<Rightarrow> bytes list \<Rightarrow> bool"
  and wire_pairs :: "bytes list \<Rightarrow> (bytes \<times> binresult) list \<Rightarrow> bytes \<Rightarrow> bytes list \<Rightarrow> bool" where
  wire_short_str: "length s < 50 \<Longrightarrow> wire S (BStr s) (byte (100 + length s) # s) (S @ [s])"
| wire_str: "\<lbrakk>Suc 0 \<le> length l; length l \<le> 4; le_val l = length s\<rbrakk> \<Longrightarrow>
     wire S (BStr s) (byte (length l - Suc 0) # l @ s) (S @ [s])"
| wire_rstr: "\<lbrakk>Suc 0 \<le> length l; length l \<le> 4; le_val l < length S\<rbrakk> \<Longrightarrow>
     wire S (BStr (S ! le_val l)) (byte (length l + 3) # l) S"
| wire_short_rstr: "\<lbrakk>i < 50; i < length S\<rbrakk> \<Longrightarrow> wire S (BStr (S ! i)) [byte (150 + i)] S"
| wire_num: "\<lbrakk>Suc 0 \<le> length l; length l \<le> 8\<rbrakk> \<Longrightarrow> wire S (BNum (of_nat (le_val l))) (byte (length l + 7) # l) S"
| wire_small: "v < 20 \<Longrightarrow> wire S (BNum (of_nat v)) [byte (200 + v)] S"
| wire_false: "wire S (BBool False) [18] S"
| wire_true: "wire S (BBool True) [19] S"
| wire_data: "length l = 8 \<Longrightarrow> wire S (BData (of_nat (le_val l))) (20 # l) S"
| wire_array: "wires S vs bs S' \<Longrightarrow> wire S (BArray vs) (17 # bs @ [255]) S'"
| wire_hash: "wire_pairs S kvs bs S' \<Longrightarrow> wire S (BHash kvs) (16 # bs @ [255]) S'"
| wires_Nil: "wires S [] [] S"
| wires_Cons: "\<lbrakk>wire S v bs S1; wires S1 vs cs S2\<rbrakk> \<Longrightarrow> wires S (v # vs) (bs @ cs) S2"
| pairs_Nil: "wire_pairs S [] [] S"
| pairs_Cons: "\<lbrakk>wire S (BStr k) ks S1; wire S1 v bs S2; wire_pairs S2 kvs cs S3\<rbrakk> \<Longrightarrow>
     wire_pairs S ((k, v) # kvs) (ks @ bs @ cs) S3"

lemma tag_of_byte [simp]:
  "t < 50 \<Longrightarrow> tag_of (byte (100 + t)) = TShortStr t"
  "Suc 0 \<le> l \<Longrightarrow> l \<le> 4 \<Longrightarrow> tag_of (byte (l - Suc 0)) = TStr l"
  "Suc 0 \<le> l \<Longrightarrow> l \<le> 4 \<Longrightarrow> tag_of (byte (l + 3)) = TRstr l"
  "i < 50 \<Longrightarrow> tag_of (byte (150 + i)) = TShortRstr i"
  "Suc 0 \<le> l \<Longrightarrow> l \<le> 8 \<Longrightarrow> tag_of (byte (l + 7)) = TNum l"
  "v < 20 \<Longrightarrow> tag_of (byte (200 + v)) = TSmall v"
  "tag_of 18 = TBool False" "tag_of 19 = TBool True" "tag_of 20 = TData" "tag_of 17 = TArray" "tag_of 16 = THash"
  by (simp_all only: byte_def tag_of_def Let_def unat_of_nat, auto simp: take_bit_eq_mod)

lemma tag_END [simp]: "tag_of 255 = TBad"
  by (simp add: tag_of_def)

lemma need_data_append [simp]: "need_data (length b) (b @ d) = Ret (b, d)"
  by (simp add: need_data_def)

lemma read_data_append [simp]: "read_data (length b) (b @ d) = Ret (b, d)"
  by (simp add: read_data_def)

lemma need_data_append' [simp]: "length b = k \<Longrightarrow> need_data k (b @ d) = Ret (b, d)"
  by (auto simp: need_data_def)

lemma read_data_append' [simp]: "length b = k \<Longrightarrow> read_data k (b @ d) = Ret (b, d)"
  by (auto simp: read_data_def)

lemma wire_start: "wire S v bs S' \<Longrightarrow> \<exists>t r. bs = t # r \<and> t \<noteq> 255"
proof -
  assume "wire S v bs S'"
  then have "bs \<noteq> [] \<and> tag_of (hd bs) \<noteq> TBad"
    by (cases rule: wire.cases) simp_all
  then show ?thesis by (cases bs) auto
qed

text \<open>What both passes make of an encoding that is followed by anything.\<close>

definition accepts :: "nat \<Rightarrow> bytes list \<Rightarrow> binresult \<Rightarrow> bytes \<Rightarrow> bytes list \<Rightarrow> bytes \<Rightarrow> nat \<Rightarrow> bool" where
  "accepts n S v bs S' rest used =
     ((\<exists>r. calc_ret_len n (bs @ rest) (length S) = Ret (rest, length S', r))
      \<and> (\<exists>u. do_parse_result n (bs @ rest) S used = Ret (v, rest, S', u)))"

lemma wire_accepted:
  "wire S v bs S' \<Longrightarrow> 2 * length (bs @ rest) < n \<Longrightarrow> accepts n S v bs S' rest used"
  "wires S vs bs S' \<Longrightarrow> 2 * length (bs @ 255 # rest) + 1 < n \<Longrightarrow>
     (\<exists>r. calc_array n (bs @ 255 # rest) (length S) cnt ret = Ret (rest, length S', r))
     \<and> (\<exists>u. parse_array n (bs @ 255 # rest) S used arr = Ret (BArray (arr @ vs), rest, S', u))"
  "wire_pairs S kvs bs S' \<Longrightarrow> 2 * length (bs @ 255 # rest) + 1 < n \<Longrightarrow>
     (\<exists>r. calc_hash n (bs @ 255 # rest) (length S) cnt ret = Ret (rest, length S', r))
     \<and> (\<exists>u. parse_hash n (bs @ 255 # rest) S used harr = Ret (BHash (harr @ kvs), rest, S', u))"
proof (induction arbitrary: n rest used and n rest used arr cnt ret and n rest used harr cnt ret
    rule: wire_wires_wire_pairs.inducts)
  case (wire_array S vs bs S' n rest used)
  then obtain m where m: "n = Suc m" by (cases n) auto
  show ?case
    using wire_array.IH [of rest m 0 16 "used + 16" "[]"] wire_array.prems by (simp add: accepts_def m)
next
  case (wire_hash S kvs bs S' n rest used)
  then obtain m where m: "n = Suc m" by (cases n) auto
  show ?case
    using wire_hash.IH [of rest m 0 16 "used + 16" "[]"] wire_hash.prems by (simp add: accepts_def m)
next
  case (wires_Nil S n)
  then show ?case by (cases n) auto
next
  case (wires_Cons S v bs S1 vs cs S2 n rest used arr cnt ret)
  then obtain m where m: "n = Suc m" by (cases n) auto
  obtain t r where t: "bs = t # r" "t \<noteq> 255" using wire_start [OF wires_Cons.hyps(1)] by blast
  obtain r1 u1 where "calc_ret_len m (bs @ cs @ 255 # rest) (length S) = Ret (cs @ 255 # rest, length S1, r1)"
      "do_parse_result m (bs @ cs @ 255 # rest) S used = Ret (v, cs @ 255 # rest, S1, u1)"
    using wires_Cons.IH(1) [of "cs @ 255 # rest" m used] wires_Cons.prems by (auto simp: accepts_def m)
  then show ?case
    using wires_Cons.IH(2) [of rest m "cnt + 1" "ret + r1" u1 "arr @ [v]"] wires_Cons.prems t by (simp add: m)
next
  case (pairs_Nil S n)
  then show ?case by (cases n) auto
next
  case (pairs_Cons S k ks S1 v bs S2 kvs cs S3 n rest used harr cnt ret)
  then obtain m where m: "n = Suc m" by (cases n) auto
  obtain t r where t: "ks = t # r" "t \<noteq> 255" using wire_start [OF pairs_Cons.hyps(1)] by blast
  obtain r1 u1 where "calc_ret_len m (ks @ bs @ cs @ 255 # rest) (length S) = Ret (bs @ cs @ 255 # rest, length S1, r1)"
      "do_parse_result m (ks @ bs @ cs @ 255 # rest) S used = Ret (BStr k, bs @ cs @ 255 # rest, S1, u1)"
    using pairs_Cons.IH(1) [of "bs @ cs @ 255 # rest" m used] pairs_Cons.prems by (auto simp: accepts_def m)
  moreover obtain r2 u2 where "calc_ret_len m (bs @ cs @ 255 # rest) (length S1) = Ret (cs @ 255 # rest, length S2, r2)"
      "do_parse_result m (bs @ cs @ 255 # rest) S1 u1 = Ret (v, cs @ 255 # rest, S2, u2)"
    using pairs_Cons.IH(2) [of "cs @ 255 # rest" m u1] pairs_Cons.prems by (auto simp: accepts_def m)
  ultimately show ?case
    using pairs_Cons.IH(3) [of rest m "cnt + 1" "ret + r1 + r2" u2 "harr @ [(k, v)]"] pairs_Cons.prems t
    by (simp add: m)
qed (case_tac n; simp add: accepts_def)+

subsection \<open>Commands\<close>

lemma length_put_param [codec_len]: "length (put_param p) = param_len p"
  by (cases p) auto

lemma prepared_length:
  "do_prepare_command command params datalen = Some out \<Longrightarrow>
   length out = calculate_params_len (length command) params datalen + 2"
  by (auto simp: do_prepare_command_def calculate_params_len_def Let_def length_concat length_put_param comp_def
      split: if_splits option.splits)

text \<open>How the server reads a command: a reference decoder for the format described in the comments.\<close>

definition decode_param :: "bytes \<Rightarrow> (binparam \<times> bytes) option" where
  "decode_param bs = (case bs of [] \<Rightarrow> None | t # bs \<Rightarrow>
     let type = unat t div 64; name = take (unat t mod 64) bs; bs = drop (unat t mod 64) bs in
     if type = 0 then let n = le_val (take 4 bs) in Some (PStr name (take n (drop 4 bs)), drop (4 + n) bs)
     else if type = 1 then Some (PNum name (of_nat (le_val (take 8 bs))), drop 8 bs)
     else if type = 2 then Some (PBool name (of_nat (le_val (take 1 bs))), drop 1 bs)
     else None)"

fun decode_params :: "nat \<Rightarrow> bytes \<Rightarrow> binparam list option" where
  "decode_params 0 bs = (if bs = [] then Some [] else None)"
| "decode_params (Suc n) bs = Option.bind (decode_param bs) (\<lambda>(p, bs). map_option ((#) p) (decode_params n bs))"

definition decode_command :: "bytes \<Rightarrow> (bytes \<times> binparam list \<times> u64 option) option" where
  "decode_command bs =
     (if le_val (take 2 bs) \<noteq> length (drop 2 bs) then None
      else case drop 2 bs of [] \<Rightarrow> None | c # bs \<Rightarrow>
        let n = unat c mod 128;
            (datalen, bs) = (if unat c \<ge> 128 then (Some (of_nat (le_val (take 8 bs))), drop 8 bs) else (None, bs));
            command = take n bs
        in case drop n bs of [] \<Rightarrow> None
           | k # bs \<Rightarrow> map_option (\<lambda>ps. (command, ps, datalen)) (decode_params (unat k) bs))"

definition param_ok :: "binparam \<Rightarrow> bool" where
  "param_ok p = (case p of PStr name str \<Rightarrow> length name < 64 \<and> length str < 2 ^ 32
     | PNum name num \<Rightarrow> length name < 64 | PBool name num \<Rightarrow> length name < 64 \<and> (num = 0 \<or> num = 1))"

lemma unat_small [simp]: "n < 256 \<Longrightarrow> unat (word_of_nat n :: u8) = n"
  by (simp add: unat_of_nat take_bit_eq_mod)

lemma tag_bytes:
  "n < 64 \<Longrightarrow> unat (word_of_nat n :: u8) = n"
  "n < 64 \<Longrightarrow> unat (word_of_nat (64 + n) :: u8) = 64 + n"
  "n < 64 \<Longrightarrow> unat (word_of_nat (128 + n) :: u8) = 128 + n"
  by (simp_all only: unat_of_nat take_bit_eq_mod) auto

lemma tag_parts [simp]:
  "n < 64 \<Longrightarrow> (64 + n) div 64 = 1" "n < 64 \<Longrightarrow> (64 + n) mod 64 = (n :: nat)"
  "n < 64 \<Longrightarrow> (128 + n) div 64 = 2" "n < 64 \<Longrightarrow> (128 + n) mod 64 = (n :: nat)"
  using div_mult_self1 [of 64 n 2] mod_mult_self1 [of n 2 64] by (simp_all add: add.commute)

lemma decode_put_param: "param_ok p \<Longrightarrow> decode_param (put_param p @ bs) = Some (p, bs)"
proof (cases p)
  case (PStr name str)
  assume "param_ok p"
  then have "length name < 64" "length str < 256 ^ 4" by (simp_all add: PStr param_ok_def)
  then show ?thesis by (simp add: PStr decode_param_def tag_bytes Let_def del: of_nat_add)
next
  case (PNum name num)
  assume "param_ok p"
  then have n: "length name < 64" by (simp add: PNum param_ok_def)
  with unat_u64 [of num] show ?thesis by (simp add: PNum decode_param_def tag_bytes Let_def del: of_nat_add)
next
  case (PBool name num)
  assume "param_ok p"
  then have "length name < 64" "num = 0 \<or> num = 1" by (simp_all add: PBool param_ok_def)
  then show ?thesis by (auto simp: PBool decode_param_def tag_bytes Let_def simp del: of_nat_add)
qed

lemma decode_put_params:
  "\<forall>p \<in> set params. param_ok p \<Longrightarrow> decode_params (length params) (concat (map put_param params)) = Some params"
  by (induction params) (auto simp: decode_put_param)

lemma cmdlen_byte:
  assumes "n < 128"
  shows "unat (word_of_nat n OR 0x80 :: u8) = n + 128"
proof -
  have "\<forall>n \<in> set [0..<128]. unat (word_of_nat n OR 0x80 :: u8) = n + 128" by code_simp
  with assms show ?thesis by simp
qed

lemma decode_prepared:
  assumes "do_prepare_command command params datalen = Some out"
    and "length command < 128" "length params < 256" "\<forall>p \<in> set params. param_ok p"
  shows "decode_command out = Some (command, params, datalen)"
proof -
  let ?plen = "calculate_params_len (length command) params datalen"
  have plen: "\<not> 0xffff < ?plen" using assms(1) by (simp add: do_prepare_command_def Let_def split: if_splits)
  then have v: "le_val (le_bytes 2 ?plen) = ?plen" by (intro le_val_bytes) simp
  have len: "length out = ?plen + 2" by (rule prepared_length [OF assms(1)])
  obtain hd where out: "out = le_bytes 2 ?plen @ hd" and
    hd: "hd = (case datalen of Some d \<Rightarrow> (word_of_nat (length command) OR 0x80) # le_bytes 8 (unat d)
           | None \<Rightarrow> [word_of_nat (length command)])
        @ command @ word_of_nat (length params) # concat (map put_param params)"
    using assms(1) plen by (simp add: do_prepare_command_def Let_def split: if_splits)
  have parts: "take 2 out = le_bytes 2 ?plen" "drop 2 out = hd" by (simp_all add: out)
  have "le_val (take 2 out) = length (drop 2 out)" using len by (simp add: parts(1) v)
  then show ?thesis
    unfolding decode_command_def parts(2) hd
    using assms(2,3) decode_put_params [OF assms(4)] unat_u64
    by (cases datalen) (simp_all add: cmdlen_byte Let_def del: unat_of_nat)
qed

subsection \<open>The incremental reader\<close>

text \<open>Calling the reader until it has a result, over the results of the reads; one read is used up per call at least.\<close>

fun poll :: "nat \<Rightarrow> sock_read list \<Rightarrow> async_result_reader \<Rightarrow> (async_result_reader \<times> sock_read list) option" where
  "poll 0 evs r = None"
| "poll (Suc n) evs r = (case get_result_async evs r of
     (ASYNC_RES_READY, r', evs') \<Rightarrow> Some (r', evs')
   | (ASYNC_RES_NEEDMORE, r', evs') \<Rightarrow> if evs = [] then None else poll n evs' r')"

fun received :: "sock_read list \<Rightarrow> bytes" where
  "received [] = []"
| "received (Got b # evs) = b @ received evs"
| "received (_ # evs) = received evs"

text \<open>Reads that deliver data or would block, none of them beyond the end of the current part.\<close>

fun fits :: "nat \<Rightarrow> sock_read list \<Rightarrow> bool" where
  "fits room [] = True"
| "fits room (Got b # evs) = (b \<noteq> [] \<and> length b \<le> room \<and> fits (room - length b) evs)"
| "fits room (WouldBlock # evs) = fits room evs"
| "fits room (SockError # evs) = False"

lemma fits_length: "fits room evs \<Longrightarrow> length (received evs) \<le> room"
  by (induction room evs rule: fits.induct) auto

lemma received_append [simp]: "received (evs @ evs') = received evs @ received evs'"
  by (induction evs rule: received.induct) auto

lemma fits_blocks: "fits 0 hs \<Longrightarrow> fits n bs \<Longrightarrow> fits n (hs @ bs)"
  by (induction "0 :: nat" hs rule: fits.induct) auto

definition completed :: "async_result_reader \<Rightarrow> bytes \<Rightarrow> async_result_reader" where
  "completed r data = async_result_reader_init (r\<lparr>rdata := data, result := result_or_null (parse_result data)\<rparr>)"

lemma poll_body:
  "\<lbrakk>fits room evs; rstate r = 1; bytestoread r = length (rdata r) + room; length (received evs) = room; 0 < room;
    length evs < n\<rbrakk> \<Longrightarrow>
   \<exists>evs'. poll n (evs @ later) r = Some (completed r (rdata r @ received evs), evs') \<and> received evs' = received later"
proof (induction room evs arbitrary: n r rule: fits.induct)
  case (2 room b evs)
  then obtain m where m: "n = Suc m" by (cases n) auto
  show ?case
  proof (cases "length b = room")
    case True
    then have e: "received evs = []" using 2(5) by simp
    have "get_result_async (Got b # evs @ later) r = (ASYNC_RES_READY, completed r (rdata r @ b), evs @ later)"
      using 2(2-4) True by (simp add: Let_def completed_def)
    then show ?thesis using e by (simp add: m)
  next
    case False
    let ?r = "r\<lparr>rdata := rdata r @ b\<rparr>"
    have "get_result_async (Got b # evs @ later) r = (ASYNC_RES_NEEDMORE, ?r, evs @ later)"
      using 2(2-4) False by (simp add: Let_def)
    moreover have "\<exists>evs'. poll m (evs @ later) ?r = Some (completed ?r (rdata ?r @ received evs), evs')
        \<and> received evs' = received later"
      using 2 False m by (intro "2.IH") auto
    ultimately show ?thesis by (simp add: m completed_def)
  qed
next
  case (3 room evs)
  then obtain m where m: "n = Suc m" by (cases n) auto
  have "\<exists>evs'. poll m (evs @ later) r = Some (completed r (rdata r @ received evs), evs') \<and> received evs' = received later"
    using 3 m by (intro "3.IH") auto
  then show ?case by (simp add: m)
qed auto

lemma poll_cong:
  "get_result_async evs r = get_result_async evs' r' \<Longrightarrow> evs \<noteq> [] \<Longrightarrow> evs' \<noteq> [] \<Longrightarrow>
   poll (Suc n) evs r = poll (Suc n) evs' r'"
  by (simp only: poll.simps if_False)

lemma poll_header:
  "\<lbrakk>fits room hs; rstate r = 0; bytestoread r = length (rdata r) + room; length (received hs) = room; 0 < room;
    le_val (rdata r @ received hs) = len; 0 < len; fits len bs; length (received bs) = len; length hs + length bs < n\<rbrakk> \<Longrightarrow>
   \<exists>evs'. poll n (hs @ bs @ later) r = Some (completed r (received bs), evs') \<and> received evs' = received later"
proof (induction room hs arbitrary: n r rule: fits.induct)
  case (2 room b hs)
  then obtain m where m: "n = Suc m" by (cases n) auto
  show ?case
  proof (cases "length b = room")
    case True
    let ?r = "r\<lparr>rstate := 1, bytestoread := len, rdata := []\<rparr>"
    have e: "received hs = []" using 2(5) True by simp
    have "get_result_async (Got b # hs @ bs @ later) r = get_result_async (hs @ bs @ later) ?r"
      using 2(2-8) True e by (simp add: Let_def)
    moreover have "hs @ bs @ later \<noteq> []" using 2(8,10) by auto
    ultimately have "poll n (Got b # hs @ bs @ later) r = poll n ((hs @ bs) @ later) ?r"
      unfolding m append_assoc by (intro poll_cong) auto
    moreover have "\<exists>evs'. poll n ((hs @ bs) @ later) ?r = Some (completed ?r (rdata ?r @ received (hs @ bs)), evs')
        \<and> received evs' = received later"
      using 2 True e fits_blocks [of hs len bs] by (intro poll_body [of len]) auto
    ultimately show ?thesis using e by (simp add: completed_def async_result_reader_init_def)
  next
    case False
    let ?r = "r\<lparr>rdata := rdata r @ b\<rparr>"
    have "get_result_async (Got b # hs @ bs @ later) r = (ASYNC_RES_NEEDMORE, ?r, hs @ bs @ later)"
      using 2(2-4) False by (simp add: Let_def)
    moreover have "\<exists>evs'. poll m (hs @ bs @ later) ?r = Some (completed ?r (received bs), evs') \<and> received evs' = received later"
      using 2 False m by (intro "2.IH") auto
    ultimately show ?thesis by (simp add: m completed_def)
  qed
next
  case (3 room hs)
  then obtain m where m: "n = Suc m" by (cases n) auto
  have "\<exists>evs'. poll m (hs @ bs @ later) r = Some (completed r (received bs), evs') \<and> received evs' = received later"
    using 3 m by (intro "3.IH") auto
  then show ?case by (simp add: m)
qed auto

subsection \<open>Properties\<close>

text \<open>C3: Parsing an arbitrary reply ends.  When the first pass accepts it, the second pass, which checks nothing, reads
  only inside the reply, uses only string slots it has filled, fills as many as were counted, writes no more bytes
  than were allocated, and ends at the same byte.\<close>

theorem parse_two_pass_safe:
  "calc_ret_len (fuel_for data) data 0 \<noteq> NoFuel \<and>
   (\<forall>rest strcnt retlen. calc_ret_len (fuel_for data) data 0 = Ret (rest, strcnt, retlen) \<longrightarrow>
      (\<exists>v strings used. do_parse_result (fuel_for data) data [] 0 = Ret (v, rest, strings, used)
         \<and> length strings = strcnt \<and> used \<le> retlen \<and> parse_result data = Ret v))"
proof (intro conjI allI impI)
  show "calc_ret_len (fuel_for data) data 0 \<noteq> NoFuel" by (rule first_pass_fuel(1)) (simp add: fuel_for_def)
  fix rest strcnt retlen
  assume c: "calc_ret_len (fuel_for data) data 0 = Ret (rest, strcnt, retlen)"
  then show "\<exists>v strings used. do_parse_result (fuel_for data) data [] 0 = Ret (v, rest, strings, used)
         \<and> length strings = strcnt \<and> used \<le> retlen \<and> parse_result data = Ret v"
    using second_pass_follows [THEN conjunct1, rule_format, of "fuel_for data" data 0 rest strcnt retlen "[]" 0]
    by (auto simp: parse_result_def)
qed

theorem parse_two_pass_safe_witness:
  "\<exists>v. parse_result [17, 101, 65, 150, 255] = Ret v"
proof -
  have "calc_ret_len (fuel_for [17, 101, 65, 150, 255]) [17, 101, 65, 150, 255] 0 = Ret ([], 1, 48)"
    by code_simp
  with parse_two_pass_safe [of "[17, 101, 65, 150, 255]"] show ?thesis by blast
qed

text \<open>C4: Every encoding of a value, with any choice of length forms and of references to earlier strings, and
  whatever follows it in the reply, is parsed back to that value.\<close>

theorem parse_wire_roundtrip:
  assumes "wire [] v bs S"
  shows "parse_result (bs @ rest) = Ret v"
  using wire_accepted(1) [OF assms, of rest "fuel_for (bs @ rest)" 0]
  by (auto simp: accepts_def parse_result_def fuel_for_def)

theorem parse_wire_roundtrip_witness:
  "parse_result [16, 101, 107, 101, 118, 150, 151, 255] = Ret (BHash [([107], BStr [118]), ([107], BStr [118])])"
proof -
  have k: "wire [] (BStr [107]) (byte 101 # [107]) [[107]]"
    using wire_short_str [of "[107]" "[]"] by simp
  have v: "wire [[107]] (BStr [118]) (byte 101 # [118]) [[107], [118]]"
    using wire_short_str [of "[118]" "[[107]]"] by simp
  have rk: "wire [[107], [118]] (BStr [107]) [byte 150] [[107], [118]]"
    using wire_short_rstr [of 0 "[[107], [118]]"] by simp
  have rv: "wire [[107], [118]] (BStr [118]) [byte 151] [[107], [118]]"
    using wire_short_rstr [of 1 "[[107], [118]]"] by simp
  have "wire [] (BHash [([107], BStr [118]), ([107], BStr [118])])
      (16 # ((byte 101 # [107]) @ (byte 101 # [118]) @ [byte 150] @ [byte 151] @ []) @ [255]) [[107], [118]]"
    by (intro wire_hash pairs_Cons [OF k v] pairs_Cons [OF rk rv] pairs_Nil)
  from parse_wire_roundtrip [OF this, of "[]"] show ?thesis by (simp add: byte_def)
qed

text \<open>C18: The first pass reads outside the reply only when the reply ends directly behind the tag of an array or a
  hash; all other malformed replies are rejected with an error.\<close>

theorem parse_overread_only_at_container:
  "parse_result data = Fault \<Longrightarrow> data \<noteq> [] \<and> (last data = 16 \<or> last data = 17)"
proof -
  assume f: "parse_result data = Fault"
  have "calc_ret_len (fuel_for data) data 0 = Fault"
  proof (cases "calc_ret_len (fuel_for data) data 0")
    case (Ret x)
    then show ?thesis
      using second_pass_follows [THEN conjunct1, rule_format, of "fuel_for data" data 0 "fst x" "fst (snd x)" "snd (snd x)" "[]" 0] f
      by (auto simp: parse_result_def)
  qed (use f in \<open>auto simp: parse_result_def\<close>)
  then have "data \<noteq> []" "opens_container (last data)" by (auto dest: first_pass_fault(1))
  moreover have "b = 16 \<or> b = 17" if "opens_container b" for b :: u8
    using that by (auto simp: opens_container_def tag_of_def Let_def split: if_splits)
      (simp_all add: word_unat_eq_iff)
  ultimately show ?thesis by blast
qed

theorem parse_overread_only_at_container_witness:
  "parse_result [17] = Fault \<and> (last [17 :: u8] = 16 \<or> last [17 :: u8] = 17)"
proof -
  have "parse_result [17] = Fault" by code_simp
  with parse_overread_only_at_container [of "[17]"] show ?thesis by blast
qed

text \<open>C16: A prepared command fills exactly the buffer that was allocated for it, is refused exactly when its length
  does not fit the two length bytes, and is read back by the format's decoder as the command, the parameters and the
  data length it was made of (for names shorter than 64 bytes, as the format needs).\<close>

theorem command_roundtrip:
  assumes "length command < 128" "length params < 256" "\<forall>p \<in> set params. param_ok p"
  shows "case do_prepare_command command params datalen of
      Some out \<Rightarrow> length out = calculate_params_len (length command) params datalen + 2
        \<and> decode_command out = Some (command, params, datalen)
    | None \<Rightarrow> 0xffff < calculate_params_len (length command) params datalen"
proof (cases "do_prepare_command command params datalen")
  case None
  then show ?thesis by (simp add: do_prepare_command_def Let_def split: if_splits)
next
  case (Some out)
  then show ?thesis using decode_prepared [OF Some assms] prepared_length [OF Some] by simp
qed

theorem command_roundtrip_witness:
  "\<exists>out. do_prepare_command [100, 105, 102, 102] [PStr [97] [98, 99], PNum [110] 5, PBool [111] 1] None = Some out
     \<and> decode_command out = Some ([100, 105, 102, 102], [PStr [97] [98, 99], PNum [110] 5, PBool [111] 1], None)"
  using command_roundtrip [of "[100, 105, 102, 102]" "[PStr [97] [98, 99], PNum [110] 5, PBool [111] 1]" None]
  by (simp add: param_ok_def calculate_params_len_def split: option.splits)

text \<open>C17: However the network splits a reply (the header and the body arrive in pieces of any size, with any number of
  reads that would block), polling the incremental reader returns exactly the parse of the whole body, leaves the reader
  ready for the next reply and consumes nothing of it.\<close>

theorem async_reader_assembles:
  assumes "fits 4 hs" "received hs = le_bytes 4 (length body)" "fits (length body) bs" "received bs = body"
    and "body \<noteq> []" "length body < 2 ^ 32" "rstate r = 0" "bytestoread r = 4" "rdata r = []" "length hs + length bs < n"
  shows "\<exists>evs' r'. poll n (hs @ bs @ later) r = Some (r', evs') \<and> received evs' = received later
    \<and> result r' = result_or_null (parse_result body) \<and> rstate r' = 0 \<and> bytestoread r' = 4 \<and> rdata r' = []"
proof -
  have "le_val (rdata r @ received hs) = length body" using assms(2,6,9) by simp
  then obtain evs' where "poll n (hs @ bs @ later) r = Some (completed r body, evs')" "received evs' = received later"
    using poll_header [of 4 hs r "length body" bs n later] assms by auto
  then show ?thesis by (auto simp: completed_def async_result_reader_init_def)
qed

theorem async_reader_assembles_witness:
  "\<exists>evs' r'. poll 9 ([Got [1], WouldBlock, Got [0, 0, 0]] @ [WouldBlock, Got [19]] @ [Got [7]])
       \<lparr>rstate = 0, bytestoread = 4, rdata = [], result = None\<rparr> = Some (r', evs')
     \<and> received evs' = [7] \<and> result r' = result_or_null (parse_result [19])"
proof -
  have "received [Got [1], WouldBlock, Got [0, 0, 0]] = le_bytes 4 (length [19 :: u8])" by code_simp
  moreover have "fits 4 [Got [1], WouldBlock, Got [0, 0, 0]]" "fits (length [19 :: u8]) [WouldBlock, Got [19]]"
    "received [WouldBlock, Got [19]] = [19]" "received [Got [7]] = [7]" by simp_all
  ultimately show ?thesis
    using async_reader_assembles [of "[Got [1], WouldBlock, Got [0, 0, 0]]" "[19]" "[WouldBlock, Got [19]]"
        "\<lparr>rstate = 0, bytestoread = 4, rdata = [], result = None\<rparr>" 9 "[Got [7]]"] by force
qed

text \<open>After the given host could not be connected but the default one could, only the default host is tried
  for half an hour; otherwise the given host is preferred.  Whenever one of the hosts that may be used answers, a
  connection results.\<close>

lemma api_connect_fallback:
  "psync_api_connect connect api now notuntil host = (res, notuntil') \<Longrightarrow>
   (res = Some host \<or> res = Some api \<or> res = None)
   \<and> (connect api \<longrightarrow> res \<noteq> None) \<and> (\<forall>h. res = Some h \<longrightarrow> connect h)
   \<and> (notuntil < now \<and> connect host \<longrightarrow> res = Some host \<and> notuntil' = notuntil)
   \<and> (notuntil' \<noteq> notuntil \<longrightarrow> notuntil' = now + 1800 \<and> \<not> connect host \<and> res = Some api)"
  by (auto simp: psync_api_connect_def split: if_splits)

end
