(* ===== verification/Pcrypto.thy ===== *)
theory Pcrypto
  imports Prelude
begin

unbundle bit_operations_syntax

section \<open>File, name and sector encryption (\<open>pcrypto.c\<close>)\<close>

text \<open>
  The encryption modes built on AES-256 and SHA-512.  The cipher and the hash come from an SSL library: a prepared
  encoder and decoder are functions \<open>enc\<close> and \<open>dec\<close> on blocks of 16 bytes (\<open>aes_ok\<close> states that decoding inverts
  encoding), the hash is a function \<open>sha\<close> on byte strings, and random bytes are an argument.  Functions that encode several
  consecutive blocks do so block by block.  Buffers are byte lists; writing in place is returning the new
  contents.  The platform is little-endian with 64-bit \<^verbatim>\<open>unsigned long\<close>; the tests for aligned pointers are the
  arguments \<open>al\<close>.  \<open>None\<close> is a failed assertion, a write beyond a buffer or the \<^verbatim>\<open>NULL\<close> result.
\<close>

subsection \<open>Blocks\<close>

abbreviation BS :: nat where "BS \<equiv> 16"

definition xor_bytes :: "bytes \<Rightarrow> bytes \<Rightarrow> bytes" where
  "xor_bytes xs ys = map2 (XOR) xs ys"

definition xor16_unaligned_inplace :: "bytes \<Rightarrow> bytes \<Rightarrow> bytes" where
  "xor16_unaligned_inplace data key = xor_bytes (take BS data) (take BS key)"

definition LONG_DEREF :: "bytes \<Rightarrow> nat \<Rightarrow> u64" where
  "LONG_DEREF x a = of_nat (le_val (take 8 (drop (8 * a) x)))"

definition put_long :: "u64 \<Rightarrow> bytes" where
  "put_long v = le_bytes 8 (unat v)"

definition xor16_aligned_inplace :: "bytes \<Rightarrow> bytes \<Rightarrow> bytes" where
  "xor16_aligned_inplace data key =
     put_long (LONG_DEREF data 0 XOR LONG_DEREF key 0) @ put_long (LONG_DEREF data 1 XOR LONG_DEREF key 1)"

definition xor_cnt_inplace :: "bytes \<Rightarrow> bytes \<Rightarrow> nat \<Rightarrow> bytes option" where
  "xor_cnt_inplace data key cnt =
     (if cnt \<le> length data \<and> cnt \<le> length key
      then Some (xor_bytes (take cnt data) (take cnt key) @ drop cnt data) else None)"

definition copy_iv_and_xor_with_counter :: "bytes \<Rightarrow> bytes \<Rightarrow> u64 \<Rightarrow> bytes" where
  "copy_iv_and_xor_with_counter dest iv counter = put_long (LONG_DEREF iv 0 XOR counter) @ drop 8 dest"

definition copy_unaligned :: "bytes \<Rightarrow> bytes" where
  "copy_unaligned src = take BS src"

definition copy_aligned :: "bytes \<Rightarrow> bytes" where
  "copy_aligned src = put_long (LONG_DEREF src 0) @ put_long (LONG_DEREF src 1)"

definition copy_pad :: "nat \<Rightarrow> bytes \<Rightarrow> bytes \<times> bytes" where
  "copy_pad cnt txt =
     (if cnt \<le> length txt then (take cnt txt, drop cnt txt) else (txt @ replicate (cnt - length txt) 0, []))"

definition ALIGN_A256_BS :: "nat \<Rightarrow> nat" where
  "ALIGN_A256_BS n = ((n + BS - 1) div BS) * BS"

text \<open>The comparison that does not stop at the first difference; \<open>r\<close> is 32 bits wide.\<close>

definition memcmp_const :: "bytes \<Rightarrow> bytes \<Rightarrow> nat \<Rightarrow> int" where
  "memcmp_const s1 s2 cnt =
     (let r = fold (\<lambda>(a, b) r. r OR ucast (a XOR b)) (zip (take cnt s1) (take cnt s2)) (0 :: u32)
      in uint ((drop_bit 8 (r - 1) AND 1) XOR 1))"

subsection \<open>HMAC\<close>

abbreviation SHA512_BLOCK_LEN :: nat where "SHA512_BLOCK_LEN \<equiv> 128"

definition hmac_pad :: "u8 \<Rightarrow> bytes \<Rightarrow> bytes" where
  "hmac_pad c key = map (\<lambda>b. b XOR c) (take SHA512_BLOCK_LEN key)
     @ replicate (SHA512_BLOCK_LEN - min SHA512_BLOCK_LEN (length key)) c"

definition psync_hmac_sha512 :: "(bytes \<Rightarrow> bytes) \<Rightarrow> bytes \<Rightarrow> bytes \<Rightarrow> bytes" where
  "psync_hmac_sha512 sha msg key = sha (hmac_pad 0x5c key @ sha (hmac_pad 0x36 key @ msg))"

text \<open>The streaming interface; the context of the hash is the bytes fed to it.\<close>

record hmac_ctx =
  sha_input :: bytes
  final :: bytes

definition psync_hmac_sha512_init :: "bytes \<Rightarrow> hmac_ctx" where
  "psync_hmac_sha512_init key = \<lparr>sha_input = hmac_pad 0x36 key, final = hmac_pad 0x5c key\<rparr>"

definition psync_hmac_sha512_update :: "hmac_ctx \<Rightarrow> bytes \<Rightarrow> hmac_ctx" where
  "psync_hmac_sha512_update ctx data = ctx\<lparr>sha_input := sha_input ctx @ data\<rparr>"

definition psync_hmac_sha512_final :: "(bytes \<Rightarrow> bytes) \<Rightarrow> hmac_ctx \<Rightarrow> bytes" where
  "psync_hmac_sha512_final sha ctx = sha (final ctx @ sha (sha_input ctx))"

subsection \<open>Keys\<close>

abbreviation KEY_SIZE :: nat where "KEY_SIZE \<equiv> 32"

text \<open>\<open>mk_enc\<close> and \<open>mk_dec\<close> stand for the library's creation of an encoder and decoder.\<close>

definition psync_crypto_aes256_ctr_encoder_decoder_create ::
    "(bytes \<Rightarrow> 'e option) \<Rightarrow> bytes \<Rightarrow> ('e \<times> bytes) option" where
  "psync_crypto_aes256_ctr_encoder_decoder_create mk_enc key =
     (if length key < KEY_SIZE + BS then None
      else map_option (\<lambda>e. (e, take BS (drop KEY_SIZE key))) (mk_enc key))"

definition psync_crypto_aes256_text_encoder_create :: "(bytes \<Rightarrow> 'e option) \<Rightarrow> bytes \<Rightarrow> ('e \<times> bytes) option" where
  "psync_crypto_aes256_text_encoder_create mk_enc key =
     (if length key < KEY_SIZE + BS then None else map_option (\<lambda>e. (e, drop KEY_SIZE key)) (mk_enc key))"

definition psync_crypto_aes256_text_decoder_create :: "(bytes \<Rightarrow> 'd option) \<Rightarrow> bytes \<Rightarrow> ('d \<times> bytes) option" where
  "psync_crypto_aes256_text_decoder_create mk_dec key =
     (if length key < KEY_SIZE + BS then None else map_option (\<lambda>d. (d, drop KEY_SIZE key)) (mk_dec key))"

text \<open>The second test is on the encoder again, so a missing decoder goes unnoticed: it is part of the result.\<close>

definition psync_crypto_aes256_sector_encoder_decoder_create ::
    "(bytes \<Rightarrow> 'e option) \<Rightarrow> (bytes \<Rightarrow> 'd option) \<Rightarrow> bytes \<Rightarrow> ('e \<times> 'd option \<times> bytes) option" where
  "psync_crypto_aes256_sector_encoder_decoder_create mk_enc mk_dec key =
     (if length key < KEY_SIZE then None
      else case mk_enc key of None \<Rightarrow> None
           | Some e \<Rightarrow> let dec = mk_dec key in Some (e, dec, drop KEY_SIZE key))"

subsection \<open>Counter mode\<close>

fun ctr_blocks :: "(bytes \<Rightarrow> bytes) \<Rightarrow> bytes \<Rightarrow> bool \<Rightarrow> nat \<Rightarrow> bytes \<Rightarrow> u64 \<Rightarrow> bytes \<Rightarrow> bytes \<times> u64" where
  "ctr_blocks enc iv al 0 aessrc counter data = (data, counter)"
| "ctr_blocks enc iv al (Suc blocksrem) aessrc counter data =
     (let aessrc = copy_iv_and_xor_with_counter aessrc iv counter; aesdst = enc aessrc;
          blk = (if al then xor16_aligned_inplace (take BS data) aesdst else xor16_unaligned_inplace (take BS data) aesdst);
          (rest, c) = ctr_blocks enc iv al blocksrem aessrc (counter + 1) (drop BS data)
      in (blk @ rest, c))"

definition psync_crypto_aes256_ctr_encode_decode_inplace ::
    "(bytes \<Rightarrow> bytes) \<Rightarrow> bytes \<Rightarrow> bool \<Rightarrow> bytes \<Rightarrow> u64 \<Rightarrow> bytes option" where
  "psync_crypto_aes256_ctr_encode_decode_inplace enc iv al data dataoffset =
     (let counter = dataoffset div 16; aessrc = replicate 8 0 @ drop 8 iv; off = unat (dataoffset mod 16) in
      Option.bind
        (if off \<noteq> 0
         then let aesdst = enc (copy_iv_and_xor_with_counter aessrc iv counter); blocksrem = BS - off in
           map_option (\<lambda>d. (take blocksrem d, drop blocksrem d, counter + 1))
             (xor_cnt_inplace data (drop off aesdst) blocksrem)
         else Some ([], data, counter))
        (\<lambda>(done, data, counter).
          let n = length data div BS; (blocks, counter) = ctr_blocks enc iv al n aessrc counter data;
              tail = drop (n * BS) blocks; datalen = length tail
          in if datalen = 0 then Some (done @ blocks)
             else let aesdst = enc (copy_iv_and_xor_with_counter aessrc iv counter) in
               map_option (\<lambda>t. done @ take (n * BS) blocks @ t) (xor_cnt_inplace tail aesdst datalen)))"

subsection \<open>Text mode\<close>

function cbc_text :: "(bytes \<Rightarrow> bytes) \<Rightarrow> bytes \<Rightarrow> bytes \<Rightarrow> bytes" where
  "cbc_text enc aesdst txt =
     (let (aessrc, txt') = copy_pad BS txt; c = enc (xor16_aligned_inplace aessrc aesdst)
      in copy_aligned c @ (if txt' = [] then [] else cbc_text enc c txt'))"
  by pat_completeness auto
termination by (relation "measure (\<lambda>(enc, c, txt). length txt)") (auto simp: copy_pad_def split: if_splits)

definition psync_crypto_aes256_encode_text :: "(bytes \<Rightarrow> bytes) \<Rightarrow> (bytes \<Rightarrow> bytes) \<Rightarrow> bytes \<Rightarrow> bytes \<Rightarrow> bytes option" where
  "psync_crypto_aes256_encode_text enc sha iv txt =
     (let ol = ALIGN_A256_BS (length txt);
          out = (if length txt \<le> BS
            then if length iv < BS then None
                 else Some (copy_aligned (enc (xor16_aligned_inplace (fst (copy_pad BS txt)) iv)))
            else let hmac = psync_hmac_sha512 sha (drop BS txt) iv;
                     c = enc (xor16_aligned_inplace (copy_unaligned txt) hmac)
                 in Some (copy_aligned c @ cbc_text enc c (drop BS txt)))
      in Option.bind out (\<lambda>res. if length res \<le> ol then Some res else None))"

fun decode_blocks :: "(bytes \<Rightarrow> bytes) \<Rightarrow> bool \<Rightarrow> nat \<Rightarrow> bytes \<Rightarrow> bytes \<Rightarrow> bytes" where
  "decode_blocks dec al 0 xorptr data = []"
| "decode_blocks dec al (Suc n) xorptr data =
     (let aesdst = dec (if al then copy_aligned data else copy_unaligned data);
          b = (if al then xor16_aligned_inplace aesdst xorptr else xor16_unaligned_inplace aesdst xorptr)
      in copy_aligned b @ decode_blocks dec al n (take BS data) (drop BS data))"

definition strlen :: "bytes \<Rightarrow> nat" where
  "strlen s = length (takeWhile (\<lambda>b. b \<noteq> 0) s)"

text \<open>The result is the buffer without the terminating zero behind its end; what callers use is the C string in it.\<close>

definition psync_crypto_aes256_decode_text ::
    "(bytes \<Rightarrow> bytes) \<Rightarrow> (bytes \<Rightarrow> bytes) \<Rightarrow> bytes \<Rightarrow> bool \<Rightarrow> bytes \<Rightarrow> bytes option" where
  "psync_crypto_aes256_decode_text dec sha iv al data =
     (if length data mod BS \<noteq> 0 \<or> data = [] then None
      else let n = length data div BS in
        if n = 1
        then if length iv < BS then None
             else let ret = copy_aligned (xor16_aligned_inplace (dec (copy_unaligned data)) iv) in
               if \<forall>b \<in> set (drop (strlen ret + 1) ret). b = 0 then Some ret else None
        else let first = dec (if al then copy_aligned data else copy_unaligned data);
                 rest = decode_blocks dec al (n - 1) (take BS data) (drop BS data);
                 len = strlen rest;
                 hmac = psync_hmac_sha512 sha (take len rest) iv;
                 ret = xor16_aligned_inplace (copy_aligned first) hmac @ rest
             in if \<forall>b \<in> set (drop (BS + len + 1) ret). b = 0 then Some ret else None)"

subsection \<open>Sector mode\<close>

text \<open>Cipher block chaining over whole blocks, and the two directions of the four-block decoder.\<close>

fun cbc_sector :: "(bytes \<Rightarrow> bytes) \<Rightarrow> bool \<Rightarrow> nat \<Rightarrow> bytes \<Rightarrow> bytes \<Rightarrow> bytes \<times> bytes" where
  "cbc_sector enc al 0 aessrc data = ([], aessrc)"
| "cbc_sector enc al (Suc n) aessrc data =
     (let x = (if al then xor16_aligned_inplace aessrc data else xor16_unaligned_inplace aessrc data);
          c = enc x; (out, last) = cbc_sector enc al n c (drop BS data)
      in ((if al then copy_aligned c else copy_unaligned c) @ out, last))"

definition encode_2blocks_consec :: "(bytes \<Rightarrow> bytes) \<Rightarrow> bytes \<Rightarrow> bytes" where
  "encode_2blocks_consec enc src = enc (take BS src) @ enc (take BS (drop BS src))"

definition decode_2blocks_consec :: "(bytes \<Rightarrow> bytes) \<Rightarrow> bytes \<Rightarrow> bytes" where
  "decode_2blocks_consec dec src = dec (take BS src) @ dec (take BS (drop BS src))"

definition decode_4blocks_consec_xor :: "(bytes \<Rightarrow> bytes) \<Rightarrow> bytes \<Rightarrow> bytes \<Rightarrow> bytes" where
  "decode_4blocks_consec_xor dec src bxor =
     concat (map (\<lambda>i. xor_bytes (dec (take BS (drop (BS * i) src))) (take BS (drop (BS * i) bxor))) [0..<4])"

definition sector_hmac :: "(bytes \<Rightarrow> bytes) \<Rightarrow> bytes \<Rightarrow> bytes \<Rightarrow> u64 \<Rightarrow> bytes \<Rightarrow> bytes" where
  "sector_hmac sha iv data sectorid rnd =
     psync_hmac_sha512_final sha (psync_hmac_sha512_update (psync_hmac_sha512_update (psync_hmac_sha512_update
       (psync_hmac_sha512_init iv) data) (put_long sectorid)) rnd)"

definition psync_crypto_aes256_encode_sector :: "(bytes \<Rightarrow> bytes) \<Rightarrow> (bytes \<Rightarrow> bytes) \<Rightarrow> bytes \<Rightarrow> bytes \<Rightarrow> bool
    \<Rightarrow> bytes \<Rightarrow> u64 \<Rightarrow> (bytes \<times> bytes) option" where
  "psync_crypto_aes256_encode_sector enc sha iv rnd al data sectorid =
     (let hmac = sector_hmac sha iv data sectorid rnd in
      if length data < BS
      then map_option (\<lambda>aessrc. (take (length data) rnd, encode_2blocks_consec enc (aessrc @ take BS hmac)))
             (xor_cnt_inplace rnd data (length data))
      else let needsteal = length data mod 16;
               datalen = (if needsteal \<noteq> 0 then length data - (needsteal + BS) else length data);
               auth = encode_2blocks_consec enc (take 8 rnd @ take BS hmac @ take 8 (drop 8 rnd));
               (out, aessrc) = cbc_sector enc al (datalen div BS) (take BS hmac) data;
               data = drop datalen data
           in if needsteal = 0 then Some (out, auth)
              else let c = enc (xor16_unaligned_inplace aessrc data); data = drop BS data in
                map_option (\<lambda>aesdst. (out @ copy_unaligned (enc aesdst) @ take needsteal c, auth))
                  (xor_cnt_inplace c data needsteal))"

text \<open>Decoding: four blocks at a time, then single blocks.  The results are the plain bytes and the block that the
  next one is combined with.\<close>

fun decode_quads :: "(bytes \<Rightarrow> bytes) \<Rightarrow> nat \<Rightarrow> bytes \<Rightarrow> bytes \<Rightarrow> bytes \<times> bytes \<times> bytes" where
  "decode_quads dec 0 aesxor data = ([], aesxor, data)"
| "decode_quads dec (Suc n) aesxor data =
     (let aessrc = take (BS * 4) data; bxor = aesxor @ take (BS * 3) aessrc;
          (out, x, rest) = decode_quads dec n (take BS (drop (BS * 3) aessrc)) (drop (BS * 4) data)
      in (decode_4blocks_consec_xor dec aessrc bxor @ out, x, rest))"

fun decode_singles :: "(bytes \<Rightarrow> bytes) \<Rightarrow> nat \<Rightarrow> bytes \<Rightarrow> bytes \<Rightarrow> bytes \<times> bytes" where
  "decode_singles dec 0 aesxor data = ([], aesxor)"
| "decode_singles dec (Suc n) aesxor data =
     (let aessrc = copy_unaligned data; b = xor16_aligned_inplace (dec aessrc) aesxor;
          (out, x) = decode_singles dec n aessrc (drop BS data)
      in (copy_unaligned b @ out, x))"

definition psync_crypto_aes256_decode_sector :: "(bytes \<Rightarrow> bytes) \<Rightarrow> (bytes \<Rightarrow> bytes) \<Rightarrow> bytes
    \<Rightarrow> bytes \<Rightarrow> bytes \<Rightarrow> u64 \<Rightarrow> (bytes \<times> int) option" where
  "psync_crypto_aes256_decode_sector dec sha iv data auth sectorid =
     (let hmac = decode_2blocks_consec dec (take (BS * 2) auth) in
      Option.bind
        (if length data < BS
         then map_option (\<lambda>h. (take (length data) h, data @ drop (length data) h)) (xor_cnt_inplace hmac data (length data))
         else let needsteal = length data mod 16;
                  datalen = (if needsteal \<noteq> 0 then length data - (needsteal + BS) else length data);
                  aesxor = take BS (drop 8 hmac);
                  hmac' = take 8 hmac @ take 8 (drop 24 hmac) @ aesxor;
                  quads = datalen div (BS * 4);
                  (out1, aesxor, rest) = decode_quads dec quads aesxor data;
                  n = (datalen - quads * (BS * 4)) div BS;
                  (out2, aesxor) = decode_singles dec n aesxor rest;
                  data = drop datalen data
              in if needsteal = 0 then Some (out1 @ out2, hmac')
                 else let d = dec (copy_unaligned data); tail = drop BS data in
                   map_option (\<lambda>p. (out1 @ out2
                        @ copy_unaligned (xor16_aligned_inplace (dec (take needsteal tail @ drop needsteal p)) aesxor)
                        @ take needsteal p, hmac'))
                     (xor_cnt_inplace d tail needsteal))
        (\<lambda>(out, hmac).
          let h = sector_hmac sha iv out sectorid (take BS hmac)
          in Some (out, - memcmp_const h (drop BS hmac) BS)))"

definition psync_crypto_sign_auth_sector :: "(bytes \<Rightarrow> bytes) \<Rightarrow> (bytes \<Rightarrow> bytes) \<Rightarrow> bytes \<Rightarrow> bytes \<Rightarrow> bytes" where
  "psync_crypto_sign_auth_sector enc sha iv data = encode_2blocks_consec enc (psync_hmac_sha512 sha data iv)"

subsection \<open>Bytes and words\<close>

lemma length_xor_bytes [simp, byte_ops]: "length (xor_bytes xs ys) = min (length xs) (length ys)"
  by (simp add: xor_bytes_def)

lemma nth_xor_bytes [byte_ops]: "i < length xs \<Longrightarrow> i < length ys \<Longrightarrow> xor_bytes xs ys ! i = xs ! i XOR ys ! i"
  by (simp add: xor_bytes_def)

lemma take_xor_bytes [byte_ops]: "take n (xor_bytes xs ys) = xor_bytes (take n xs) (take n ys)"
  by (simp add: xor_bytes_def take_map take_zip)

lemma xor_bytes_append:
  "length xs = length ys \<Longrightarrow> xor_bytes (xs @ xs') (ys @ ys') = xor_bytes xs ys @ xor_bytes xs' ys'"
  by (simp add: xor_bytes_def)

lemma xor_bytes_cancel [simp]: "length xs \<le> length ys \<Longrightarrow> xor_bytes (xor_bytes xs ys) ys = xs"
  by (rule nth_equalityI) (simp_all add: nth_xor_bytes xor.assoc)

lemma xor_bytes_commute: "xor_bytes xs ys = xor_bytes ys xs"
  by (rule nth_equalityI) (simp_all add: nth_xor_bytes xor.commute)

lemma xor_bytes_take:
  "length xs \<le> n \<Longrightarrow> xor_bytes xs (take n ys) = xor_bytes xs ys"
  by (rule nth_equalityI) (auto simp: nth_xor_bytes)

lemma bit_split8: "bit n k = (if k < 8 then bit (take_bit 8 n) k else bit (drop_bit 8 n) (k - 8))" for n :: nat
  by (simp add: bit_take_bit_iff bit_drop_bit_eq)

lemma glue_xor:
  "unat (a XOR b :: u8) + 256 * (m XOR n) = (unat a + 256 * m) XOR (unat b + 256 * n)"
proof (rule bit_eqI)
  fix k
  have t: "take_bit 8 (unat x + 256 * j) = unat x" "drop_bit 8 (unat x + 256 * j) = j" for x :: u8 and j
    using unat_u8 [of x] by (simp_all add: take_bit_eq_mod drop_bit_eq_div)
  show "bit (unat (a XOR b) + 256 * (m XOR n)) k = bit ((unat a + 256 * m) XOR (unat b + 256 * n)) k"
    unfolding bit_xor_iff bit_split8 [of "_ + _" k] t by (simp add: unsigned_xor_eq bit_xor_iff)
qed

lemma le_val_xor: "length xs = length ys \<Longrightarrow> le_val (xor_bytes xs ys) = le_val xs XOR le_val ys"
  by (induction xs ys rule: list_induct2) (simp_all add: xor_bytes_def glue_xor)

lemma put_long_of_nat [simp]: "length bs = 8 \<Longrightarrow> put_long (of_nat (le_val bs)) = bs"
  using le_val_less [of bs] by (simp add: put_long_def unat_of_nat take_bit_eq_mod)

lemma length_put_long [simp, byte_ops]: "length (put_long v) = 8"
  by (simp add: put_long_def)

lemma put_long_xor:
  assumes "8 * a + 8 \<le> length x" "8 * b + 8 \<le> length y"
  shows "put_long (LONG_DEREF x a XOR LONG_DEREF y b) = xor_bytes (take 8 (drop (8 * a) x)) (take 8 (drop (8 * b) y))"
proof -
  have "LONG_DEREF x a XOR LONG_DEREF y b = of_nat (le_val (xor_bytes (take 8 (drop (8 * a) x)) (take 8 (drop (8 * b) y))))"
    using assms by (simp add: LONG_DEREF_def le_val_xor of_nat_xor_eq)
  then show ?thesis using assms by simp
qed

lemma take_16_halves: "take 8 xs @ take 8 (drop 8 xs) = take 16 xs"
  by (metis add.commute numeral_Bit0 take_add)

text \<open>The word-wise routines agree with the bytewise ones.\<close>

lemma xor16_aligned_eq:
  assumes "16 \<le> length data" "16 \<le> length key"
  shows "xor16_aligned_inplace data key = xor16_unaligned_inplace data key"
proof -
  have "xor16_aligned_inplace data key = xor_bytes (take 8 data) (take 8 key) @ xor_bytes (take 8 (drop 8 data)) (take 8 (drop 8 key))"
    using put_long_xor [of 0 data 0 key] put_long_xor [of 1 data 1 key] assms by (simp add: xor16_aligned_inplace_def)
  also have "\<dots> = xor_bytes (take 16 data) (take 16 key)"
    using assms by (subst xor_bytes_append [symmetric]) (simp_all add: take_16_halves)
  finally show ?thesis by (simp add: xor16_unaligned_inplace_def)
qed

lemma copy_aligned_eq: "16 \<le> length src \<Longrightarrow> copy_aligned src = copy_unaligned src"
  by (simp add: copy_aligned_def copy_unaligned_def LONG_DEREF_def take_16_halves)

subsection \<open>Comparison in constant time\<close>

lemma memcmp_fold:
  fixes ps :: "(u8 \<times> u8) list"
  shows "\<exists>x :: u8. fold (\<lambda>(a, b) r. r OR ucast (a XOR b)) ps (ucast (y :: u8)) = (ucast x :: u32)
     \<and> (x = 0 \<longleftrightarrow> y = 0 \<and> (\<forall>(a, b) \<in> set ps. a = b))"
proof (induction ps arbitrary: y)
  case Nil
  show ?case by (rule exI [of _ y]) simp
next
  case (Cons p ps)
  obtain a b where p: "p = (a, b)" by (cases p)
  have "(ucast y OR ucast (a XOR b) :: u32) = ucast (y OR (a XOR b))" by (simp add: unsigned_or_eq)
  moreover have "y OR (a XOR b) = 0 \<longleftrightarrow> y = 0 \<and> a = b"
    by (auto simp: bit_eq_iff bit_or_iff bit_xor_iff)
  ultimately show ?case using Cons [of "y OR (a XOR b)"] by (auto simp: p)
qed

lemma memcmp_last: "uint ((drop_bit 8 ((ucast (x :: u8) :: u32) - 1) AND 1) XOR 1) = (if x = 0 then 0 else 1)"
proof -
  have "\<forall>n \<in> set [0..<256]. uint ((drop_bit 8 ((ucast (word_of_nat n :: u8) :: u32) - 1) AND 1) XOR 1)
      = (if (word_of_nat n :: u8) = 0 then 0 else 1)" by code_simp
  then have "\<forall>n < 256. uint ((drop_bit 8 ((ucast (word_of_nat n :: u8) :: u32) - 1) AND 1) XOR 1)
      = (if (word_of_nat n :: u8) = 0 then 0 else 1)" by simp
  from this [rule_format, OF unat_u8 [of x]] show ?thesis by simp
qed

lemma memcmp_const_eq:
  assumes "length (take cnt s1) = length (take cnt s2)"
  shows "memcmp_const s1 s2 cnt = (if take cnt s1 = take cnt s2 then 0 else 1)"
proof -
  let ?ps = "zip (take cnt s1) (take cnt s2)"
  from memcmp_fold [of ?ps 0] obtain x :: u8 where
      "fold (\<lambda>(a, b) r. r OR ucast (a XOR b)) ?ps (ucast (0 :: u8)) = (ucast x :: u32)"
      and x0: "x = 0 \<longleftrightarrow> (0 :: u8) = 0 \<and> (\<forall>(a, b) \<in> set ?ps. a = b)" by (elim exE conjE)
  then have x: "fold (\<lambda>(a, b) r. r OR ucast (a XOR b)) ?ps (0 :: u32) = ucast x" by simp
  have "(\<forall>(a, b) \<in> set (zip xs ys). a = b) \<longleftrightarrow> xs = ys" if "length xs = length ys" for xs ys :: bytes
    using that by (induction xs ys rule: list_induct2) auto
  from this [OF assms] x0 show ?thesis unfolding memcmp_const_def Let_def x memcmp_last by simp
qed

subsection \<open>HMAC\<close>

lemma hmac_stream:
  "psync_hmac_sha512_final sha (fold (\<lambda>d ctx. psync_hmac_sha512_update ctx d) parts (psync_hmac_sha512_init key))
     = psync_hmac_sha512 sha (concat parts) key"
proof -
  have "fold (\<lambda>d ctx. psync_hmac_sha512_update ctx d) parts ctx = ctx\<lparr>sha_input := sha_input ctx @ concat parts\<rparr>" for ctx
    by (induction parts arbitrary: ctx) (simp_all add: psync_hmac_sha512_update_def)
  then show ?thesis by (simp add: psync_hmac_sha512_final_def psync_hmac_sha512_init_def psync_hmac_sha512_def)
qed

lemma sector_hmac_eq: "sector_hmac sha iv data sectorid rnd = psync_hmac_sha512 sha (data @ put_long sectorid @ rnd) iv"
  using hmac_stream [of sha "[data, put_long sectorid, rnd]" iv] by (simp add: sector_hmac_def)

subsection \<open>Counter mode\<close>

text \<open>The reference: byte \<open>p\<close> of the file is combined with byte \<open>p mod 16\<close> of the encoded counter block
  \<open>p div 16\<close>.\<close>

definition ctr_pad :: "(bytes \<Rightarrow> bytes) \<Rightarrow> bytes \<Rightarrow> nat \<Rightarrow> bytes" where
  "ctr_pad enc iv k = enc (put_long (LONG_DEREF iv 0 XOR of_nat k) @ drop 8 iv)"

definition ctr_ref :: "(bytes \<Rightarrow> bytes) \<Rightarrow> bytes \<Rightarrow> nat \<Rightarrow> bytes \<Rightarrow> bytes" where
  "ctr_ref enc iv p data = map (\<lambda>i. data ! i XOR ctr_pad enc iv ((p + i) div BS) ! ((p + i) mod BS)) [0..<length data]"

definition block_fun :: "(bytes \<Rightarrow> bytes) \<Rightarrow> bool" where
  "block_fun enc = (\<forall>b. length b = BS \<longrightarrow> length (enc b) = BS)"

lemma length_ctr_ref [simp]: "length (ctr_ref enc iv p data) = length data"
  by (simp add: ctr_ref_def)

lemma ctr_ref_append: "ctr_ref enc iv p (a @ b) = ctr_ref enc iv p a @ ctr_ref enc iv (p + length a) b"
  by (rule nth_equalityI) (auto simp: ctr_ref_def nth_append)

lemma length_ctr_pad: "block_fun enc \<Longrightarrow> length iv = BS \<Longrightarrow> length (ctr_pad enc iv k) = BS"
  by (simp add: ctr_pad_def block_fun_def)

lemma same_block: "r + i < BS \<Longrightarrow> (BS * q + r + i) div BS = q \<and> (BS * q + r + i) mod BS = r + i"
  by (simp add: add.assoc)

lemma ctr_ref_block:
  assumes "p mod BS + length a \<le> BS" "block_fun enc" "length iv = BS"
  shows "ctr_ref enc iv p a = xor_bytes a (drop (p mod BS) (ctr_pad enc iv (p div BS)))"
proof (rule nth_equalityI)
  fix i assume "i < length (ctr_ref enc iv p a)"
  then have i: "i < length a" by simp
  then have "(p + i) div BS = p div BS" "(p + i) mod BS = p mod BS + i"
    using assms(1) same_block [of "p mod BS" i "p div BS"] mult_div_mod_eq [of BS p] by simp_all
  with i assms(1) length_ctr_pad [OF assms(2,3)] show
    "ctr_ref enc iv p a ! i = xor_bytes a (drop (p mod BS) (ctr_pad enc iv (p div BS))) ! i"
    by (simp add: ctr_ref_def nth_xor_bytes)
qed (use assms(1) length_ctr_pad [OF assms(2,3)] in simp)

lemma counter_block:
  "drop 8 aessrc = drop 8 iv \<Longrightarrow> enc (copy_iv_and_xor_with_counter aessrc iv (of_nat k)) = ctr_pad enc iv k"
  by (simp add: copy_iv_and_xor_with_counter_def ctr_pad_def)

lemma ctr_blocks_ref:
  assumes "block_fun enc" "length iv = BS" "drop 8 aessrc = drop 8 iv" "n * BS \<le> length data"
  shows "ctr_blocks enc iv al n aessrc (of_nat k) data
    = (ctr_ref enc iv (k * BS) (take (n * BS) data) @ drop (n * BS) data, of_nat (k + n))"
  using assms(3,4)
proof (induction n arbitrary: k data aessrc)
  case 0
  then show ?case by (simp add: ctr_ref_def)
next
  case (Suc n)
  let ?src = "copy_iv_and_xor_with_counter aessrc iv (of_nat k)"
  have src: "drop 8 ?src = drop 8 iv" using Suc.prems(1) by (simp add: copy_iv_and_xor_with_counter_def)
  have pad: "enc ?src = ctr_pad enc iv k" by (rule counter_block [OF Suc.prems(1)])
  have IH: "ctr_blocks enc iv al n ?src (of_nat (Suc k)) (drop BS data)
      = (ctr_ref enc iv (Suc k * BS) (take (n * BS) (drop BS data)) @ drop (n * BS) (drop BS data), of_nat (Suc k + n))"
    by (rule Suc.IH [OF src]) (use Suc.prems(2) in simp)
  have len: "length (take BS data) = BS" using Suc.prems(2) by simp
  have blk: "xor16_aligned_inplace (take BS data) (ctr_pad enc iv k) = ctr_ref enc iv (k * BS) (take BS data)"
      "xor16_unaligned_inplace (take BS data) (ctr_pad enc iv k) = ctr_ref enc iv (k * BS) (take BS data)"
  proof -
    have "ctr_ref enc iv (k * BS) (take BS data) = xor_bytes (take BS data) (ctr_pad enc iv k)"
      using len ctr_ref_block [of "k * BS" "take BS data" enc iv] assms(1,2) by simp
    moreover have "length (ctr_pad enc iv k) = BS" by (rule length_ctr_pad [OF assms(1,2)])
    ultimately show "xor16_aligned_inplace (take BS data) (ctr_pad enc iv k) = ctr_ref enc iv (k * BS) (take BS data)"
      "xor16_unaligned_inplace (take BS data) (ctr_pad enc iv k) = ctr_ref enc iv (k * BS) (take BS data)"
      using len by (simp_all add: xor16_aligned_eq xor16_unaligned_inplace_def)
  qed
  have "take (Suc n * BS) data = take BS data @ take (n * BS) (drop BS data)"
    by (simp add: take_add [symmetric])
  then have "ctr_ref enc iv (k * BS) (take (Suc n * BS) data)
      = ctr_ref enc iv (k * BS) (take BS data) @ ctr_ref enc iv (Suc k * BS) (take (n * BS) (drop BS data))"
    using len by (simp add: ctr_ref_append add.commute)
  with IH blk pad show ?case by (simp add: Let_def add.commute)
qed

lemma xor_cnt_ref:
  assumes "cnt \<le> length data" "p mod BS + cnt \<le> BS" "block_fun enc" "length iv = BS"
  shows "xor_cnt_inplace data (drop (p mod BS) (ctr_pad enc iv (p div BS))) cnt
    = Some (ctr_ref enc iv p (take cnt data) @ drop cnt data)"
  using assms ctr_ref_block [of p "take cnt data" enc iv] length_ctr_pad [OF assms(3,4), of "p div BS"]
  by (simp add: xor_cnt_inplace_def xor_bytes_take)

lemma ctr_tail:
  fixes data :: bytes
  assumes "block_fun enc" "length iv = BS" "drop 8 aessrc = drop 8 iv"
  defines "n \<equiv> length data div BS"
  shows "(let (blocks, counter) = ctr_blocks enc iv al n aessrc (of_nat k) data;
              tail = drop (n * BS) blocks; datalen = length tail
          in if datalen = 0 then Some (out @ blocks)
             else let aesdst = enc (copy_iv_and_xor_with_counter aessrc iv counter) in
               map_option (\<lambda>t. out @ take (n * BS) blocks @ t) (xor_cnt_inplace tail aesdst datalen))
    = Some (out @ ctr_ref enc iv (k * BS) data)"
proof -
  have n: "n * BS \<le> length data" "length data - n * BS < BS" by (simp_all add: n_def minus_div_mult_eq_mod)
  let ?a = "take (n * BS) data" and ?t = "drop (n * BS) data"
  have blocks: "ctr_blocks enc iv al n aessrc (of_nat k) data = (ctr_ref enc iv (k * BS) ?a @ ?t, of_nat (k + n))"
    by (rule ctr_blocks_ref [OF assms(1-3) n(1)])
  have cut: "drop (n * BS) (ctr_ref enc iv (k * BS) ?a @ ?t) = ?t" "take (n * BS) (ctr_ref enc iv (k * BS) ?a @ ?t) = ctr_ref enc iv (k * BS) ?a"
    using n(1) by simp_all
  have "ctr_ref enc iv (k * BS) (?a @ ?t) = ctr_ref enc iv (k * BS) ?a @ ctr_ref enc iv ((k + n) * BS) ?t"
    using n(1) by (simp add: ctr_ref_append add_mult_distrib del: append_take_drop_id)
  then have whole: "ctr_ref enc iv (k * BS) data = ctr_ref enc iv (k * BS) ?a @ ctr_ref enc iv ((k + n) * BS) ?t"
    by simp
  have x: "xor_cnt_inplace ?t (enc (copy_iv_and_xor_with_counter aessrc iv (of_nat (k + n)))) (length ?t)
      = Some (ctr_ref enc iv ((k + n) * BS) ?t)"
    using xor_cnt_ref [of "length ?t" ?t "(k + n) * BS" enc iv] n assms(1,2) counter_block [OF assms(3)]
    by (simp del: of_nat_add)
  show ?thesis
  proof (cases "?t = []")
    case True
    then have "ctr_ref enc iv ((k + n) * BS) ?t = []" by (simp add: ctr_ref_def)
    with True show ?thesis unfolding blocks Let_def prod.case cut whole by simp
  next
    case False
    then show ?thesis unfolding blocks Let_def prod.case cut whole x by simp
  qed
qed

lemma u64_div16: "(x :: u64) div 16 = of_nat (unat x div 16)" "unat (x mod 16) = unat x mod 16"
  by (simp_all add: word_arith_nat_div [of x] unat_mod)

lemma ctr_encode_ref:
  assumes "block_fun enc" "length iv = BS" "unat off mod BS = 0 \<or> BS - unat off mod BS \<le> length data"
  shows "psync_crypto_aes256_ctr_encode_decode_inplace enc iv al data off = Some (ctr_ref enc iv (unat off) data)"
proof -
  let ?src = "replicate 8 0 @ drop 8 iv" and ?q = "unat off div BS" and ?r = "unat off mod BS"
  have src: "drop 8 ?src = drop 8 iv" by simp
  have q: "off div 16 = of_nat ?q" "unat (off mod 16) = ?r" by (rule u64_div16)+
  note tail = ctr_tail [OF assms(1,2) src]
  show ?thesis
  proof (cases "?r = 0")
    case True
    then have "?q * BS = unat off" by (metis add_0_right div_mult_mod_eq)
    with tail [where al = al and k = ?q and data = data and out = "[]"] True show ?thesis
      unfolding psync_crypto_aes256_ctr_encode_decode_inplace_def q by (simp add: Let_def)
  next
    case False
    let ?k = "BS - ?r"
    have k: "?k \<le> length data" "?r + ?k \<le> BS" using assms(3) False by auto
    have x: "xor_cnt_inplace data (drop ?r (enc (copy_iv_and_xor_with_counter ?src iv (of_nat ?q)))) ?k
        = Some (ctr_ref enc iv (unat off) (take ?k data) @ drop ?k data)"
      unfolding counter_block [OF src] by (rule xor_cnt_ref [OF k assms(1,2)])
    have "(?q + 1) * BS = unat off + ?k"
      using div_mult_mod_eq [of "unat off" BS] by presburger
    then have "ctr_ref enc iv (unat off) data
        = ctr_ref enc iv (unat off) (take ?k data) @ ctr_ref enc iv ((?q + 1) * BS) (drop ?k data)"
      using ctr_ref_append [of enc iv "unat off" "take ?k data" "drop ?k data"] k by simp
    moreover have "of_nat ?q + 1 = (of_nat (?q + 1) :: u64)" by simp
    ultimately show ?thesis
      using tail [where al = al and k = "?q + 1" and data = "drop ?k data" and out = "ctr_ref enc iv (unat off) (take ?k data)"] False k
      unfolding psync_crypto_aes256_ctr_encode_decode_inplace_def q Let_def x
      by (simp add: Let_def del: of_nat_add of_nat_Suc)
  qed
qed

subsection \<open>Text mode round trip\<close>

definition aes_ok :: "(bytes \<Rightarrow> bytes) \<Rightarrow> (bytes \<Rightarrow> bytes) \<Rightarrow> bool" where
  "aes_ok enc dec \<longleftrightarrow> (\<forall>b. length b = BS \<longrightarrow> length (enc b) = BS \<and> length (dec b) = BS \<and> dec (enc b) = b)"

lemma aes_okD [simp]:
  "aes_ok enc dec \<Longrightarrow> length b = BS \<Longrightarrow> length (enc b) = BS"
  "aes_ok enc dec \<Longrightarrow> length b = BS \<Longrightarrow> length (dec b) = BS"
  "aes_ok enc dec \<Longrightarrow> length b = BS \<Longrightarrow> dec (enc b) = b"
  by (simp_all add: aes_ok_def)

lemma xor16_block:
  assumes "BS \<le> length a" "BS \<le> length b"
  shows "xor16_aligned_inplace a b = xor_bytes (take BS a) (take BS b)"
  using assms by (simp add: xor16_aligned_eq xor16_unaligned_inplace_def)

lemma copy_block [simp]: "length b = BS \<Longrightarrow> copy_aligned b = b" "length b = BS \<Longrightarrow> copy_unaligned b = b"
  by (simp_all add: copy_aligned_eq copy_unaligned_def)

lemma copy_block_take: "BS \<le> length b \<Longrightarrow> copy_aligned b = take BS b"
  by (simp add: copy_aligned_eq copy_unaligned_def)

lemma xor_bytes_block_cancel: "length a = BS \<Longrightarrow> BS \<le> length k \<Longrightarrow> xor_bytes (xor_bytes a (take BS k)) (take BS k) = a"
  by simp

lemma copy_pad_cases:
  "length txt \<le> BS \<Longrightarrow> copy_pad BS txt = (txt @ replicate (BS - length txt) 0, [])"
  "BS \<le> length txt \<Longrightarrow> copy_pad BS txt = (take BS txt, drop BS txt)"
  by (auto simp: copy_pad_def)

lemma ALIGN_cases:
  "txt \<noteq> [] \<Longrightarrow> length txt \<le> BS \<Longrightarrow> ALIGN_A256_BS (length txt) = BS"
  "BS < length txt \<Longrightarrow> ALIGN_A256_BS (length txt) = BS + ALIGN_A256_BS (length txt - BS)"
proof -
  assume "txt \<noteq> []" "length txt \<le> BS"
  then have "0 < length txt" by simp
  then have "length txt + BS - 1 = BS * 1 + (length txt - 1)" "length txt - 1 < BS" using \<open>length txt \<le> BS\<close> by linarith+
  then show "ALIGN_A256_BS (length txt) = BS" unfolding ALIGN_A256_BS_def by simp
next
  assume "BS < length txt"
  then have "length txt + BS - 1 = (length txt - BS + BS - 1) + BS" by simp
  then show "ALIGN_A256_BS (length txt) = BS + ALIGN_A256_BS (length txt - BS)"
    unfolding ALIGN_A256_BS_def by (metis add.commute add_mult_distrib div_add_self2 mult_1 zero_neq_numeral)
qed

lemma ALIGN_bounds: "n \<le> ALIGN_A256_BS n" "ALIGN_A256_BS n mod BS = 0" "ALIGN_A256_BS n < n + BS"
  unfolding ALIGN_A256_BS_def by simp_all

declare cbc_text.simps [simp del]

lemma glue_pad:
  "BS < length txt \<Longrightarrow>
    take BS txt @ drop BS txt @ replicate (m - (length txt - BS)) 0 = txt @ replicate (BS + m - length txt) 0"
  by (simp add: add.commute flip: append_assoc)

lemma cbc_text_decode:
  assumes "aes_ok enc dec"
  shows "length c = BS \<Longrightarrow> txt \<noteq> [] \<Longrightarrow> length (cbc_text enc c txt) = ALIGN_A256_BS (length txt)
    \<and> decode_blocks dec al (ALIGN_A256_BS (length txt) div BS) c (cbc_text enc c txt)
      = txt @ replicate (ALIGN_A256_BS (length txt) - length txt) 0"
proof (induction "length txt" arbitrary: c "txt" rule: less_induct)
  case less
  show ?case
  proof (cases "length txt \<le> BS")
    case True
    let ?p = "txt @ replicate (BS - length txt) 0"
    have p: "length ?p = BS" using True by simp
    then have "cbc_text enc c txt = enc (xor_bytes ?p c)" 
      using True less.prems assms by (subst cbc_text.simps) (simp add: copy_pad_cases xor16_block)
    then show ?thesis using p True less.prems assms
      by (simp add: ALIGN_cases xor16_block xor16_unaligned_inplace_def)
  next
    case False
    let ?b = "take BS txt" and ?r = "drop BS txt" and ?m = "ALIGN_A256_BS (length txt - BS)"
    let ?e = "enc (xor_bytes ?b c)"
    have b: "length ?b = BS" "length ?e = BS" "?r \<noteq> []" "length ?r < length txt" using False less.prems assms by simp_all
    have e: "cbc_text enc c txt = ?e @ cbc_text enc ?e ?r"
      using False less.prems assms b by (subst cbc_text.simps) (simp add: copy_pad_cases xor16_block Let_def)
    have ih: "length (cbc_text enc ?e ?r) = ?m"
      "decode_blocks dec al (?m div BS) ?e (cbc_text enc ?e ?r) = ?r @ replicate (?m - (length txt - BS)) 0"
      using less.hyps [OF b(4,2,3)] by simp_all
    have n: "ALIGN_A256_BS (length txt) = BS + ?m" "(BS + ?m) div BS = Suc (?m div BS)"
      using ALIGN_cases(2) [of "txt"] False by simp_all
    show ?thesis unfolding e n using ih b less.prems assms False glue_pad [of "txt" ?m]
      by (simp add: xor16_block xor16_unaligned_inplace_def copy_aligned_eq copy_unaligned_def)
  qed
qed

lemma strlen_pad:
  "0 \<notin> set s \<Longrightarrow> strlen (s @ replicate n 0) = length s"
  by (subst strlen_def, subst takeWhile_append2) (auto simp: takeWhile_eq_Nil_iff)

lemma decode_short:
  assumes "aes_ok enc dec" "BS \<le> length iv" "0 \<notin> set txt" "txt \<noteq> []" "length txt \<le> BS"
  shows "Option.bind (psync_crypto_aes256_encode_text enc sha iv txt) (psync_crypto_aes256_decode_text dec sha iv al)
    = Some (txt @ replicate (ALIGN_A256_BS (length txt) - length txt) 0)"
proof -
  let ?p = "txt @ replicate (BS - length txt) 0" and ?e = "enc (xor_bytes (txt @ replicate (BS - length txt) 0) (take BS iv))"
  have p: "length ?p = BS" using assms by simp
  then have e: "length ?e = BS" "dec ?e = xor_bytes ?p (take BS iv)" using assms by simp_all
  have "psync_crypto_aes256_encode_text enc sha iv txt = Some ?e"
    using assms p e(1) by (simp add: psync_crypto_aes256_encode_text_def copy_pad_cases xor16_block ALIGN_cases)
  moreover have "psync_crypto_aes256_decode_text dec sha iv al ?e = Some ?p"
    using assms e p unfolding psync_crypto_aes256_decode_text_def
    by (auto simp: xor16_block strlen_pad Let_def dest: arg_cong [of _ _ length])
  ultimately show ?thesis using assms by (simp add: ALIGN_cases)
qed

lemma decode_long:
  assumes "aes_ok enc dec" "\<forall>x. length (sha x) = 64" "0 \<notin> set txt" "BS < length txt"
  shows "Option.bind (psync_crypto_aes256_encode_text enc sha iv txt) (psync_crypto_aes256_decode_text dec sha iv al)
    = Some (txt @ replicate (ALIGN_A256_BS (length txt) - length txt) 0)"
proof -
  let ?b = "take BS txt" and ?r = "drop BS txt" and ?m = "ALIGN_A256_BS (length txt - BS)"
  let ?h = "take BS (psync_hmac_sha512 sha (drop BS txt) iv)"
  let ?e = "enc (xor_bytes (take BS txt) (take BS (psync_hmac_sha512 sha (drop BS txt) iv)))"
  let ?z = "replicate (?m - (length txt - BS)) (0 :: u8)"
  have h: "BS \<le> length (psync_hmac_sha512 sha x iv)" for x using assms(2) by (simp add: psync_hmac_sha512_def)
  have b: "length ?b = BS" "?r \<noteq> []" "0 \<notin> set ?r" using assms(3,4) by (auto dest: in_set_dropD)
  then have e: "length ?e = BS" "dec ?e = xor_bytes ?b ?h" using assms h [of ?r] by simp_all
  have m: "ALIGN_A256_BS (length txt) = BS + ?m" using ALIGN_cases(2) [of "txt"] assms(4) by simp
  have t: "length (cbc_text enc ?e ?r) = ?m"
      "decode_blocks dec al (?m div BS) ?e (cbc_text enc ?e ?r) = ?r @ ?z"
    using cbc_text_decode [OF assms(1) e(1) b(2), of al] by simp_all
  have m1: "?m mod BS = 0" "?m \<noteq> 0" "0 < ?m div BS" "length txt - BS \<le> ?m"
    using ALIGN_bounds [of "length txt - BS"] assms(4) by (auto simp: div_greater_zero_iff intro!: dvd_imp_le)
  have "psync_crypto_aes256_encode_text enc sha iv txt = Some (?e @ cbc_text enc ?e ?r)"
    using assms b(1) e(1) h [of ?r] m t(1) by (simp add: psync_crypto_aes256_encode_text_def copy_unaligned_def xor16_block Let_def)
  moreover have "psync_crypto_aes256_decode_text dec sha iv al (?e @ cbc_text enc ?e ?r) = Some (?b @ ?r @ ?z)"
  proof -
    have l: "length (?e @ cbc_text enc ?e ?r) = BS + ?m" using e(1) t(1) by simp
    have c: "length (?e @ cbc_text enc ?e ?r) mod BS = 0" "?e @ cbc_text enc ?e ?r \<noteq> []"
      "length (?e @ cbc_text enc ?e ?r) div BS \<noteq> 1" "length (?e @ cbc_text enc ?e ?r) div BS - 1 = ?m div BS"
      unfolding l using m1 e(1) by auto
    have f: "(if al then copy_aligned (?e @ cbc_text enc ?e ?r) else copy_unaligned (?e @ cbc_text enc ?e ?r)) = ?e"
      "take BS (?e @ cbc_text enc ?e ?r) = ?e" "drop BS (?e @ cbc_text enc ?e ?r) = cbc_text enc ?e ?r"
      using e(1) by (simp_all add: copy_block_take copy_unaligned_def)
    have x: "xor16_aligned_inplace (copy_aligned (dec ?e)) (psync_hmac_sha512 sha ?r iv) = ?b"
      using e b(1) h [of ?r] by (simp add: xor16_block)
    have s: "strlen (?r @ ?z) = length ?r" "take (length ?r) (?r @ ?z) = ?r" using strlen_pad [OF b(3)] by auto
    have z: "\<forall>y \<in> set (drop (BS + length ?r + 1) (?b @ ?r @ ?z)). y = 0" using b(1) assms(4) by auto
    show ?thesis
      unfolding psync_crypto_aes256_decode_text_def Let_def c(4) f t(2) s x using c(1-3) z by simp
  qed
  ultimately show ?thesis using m glue_pad [OF assms(4), of ?m] by simp
qed

text \<open>C22: Text encoding: a non-empty name without zero bytes, encoded and decoded with the same key, comes back,
  padded with zero bytes to a multiple of the block size (so that it is the C string in the buffer).\<close>

theorem text_roundtrip:
  assumes "aes_ok enc dec" "\<forall>x. length (sha x) = 64" "BS \<le> length iv" "txt \<noteq> []" "0 \<notin> set txt"
  shows "Option.bind (psync_crypto_aes256_encode_text enc sha iv txt) (psync_crypto_aes256_decode_text dec sha iv al)
    = Some (txt @ replicate (ALIGN_A256_BS (length txt) - length txt) 0)"
  using decode_short [OF assms(1,3,5,4)] decode_long [OF assms(1,2,5)] by (cases "length txt \<le> BS") simp_all

subsection \<open>Sector mode round trip\<close>

lemma dec2_enc2:
  assumes "aes_ok enc dec" "length x = 2 * BS"
  shows "decode_2blocks_consec dec (take (BS * 2) (encode_2blocks_consec enc x)) = x"
proof -
  have "length (take BS x) = BS" "length (take BS (drop BS x)) = BS" using assms(2) by simp_all
  moreover have "take BS x @ drop BS x = x" by simp
  ultimately show ?thesis using assms
    by (simp add: decode_2blocks_consec_def encode_2blocks_consec_def)
qed

lemma cbc_sector_decode:
  assumes "aes_ok enc dec"
  shows "length c = BS \<Longrightarrow> n * BS \<le> length data \<Longrightarrow> cbc_sector enc al n c data = (out, l) \<Longrightarrow>
    length out = n * BS \<and> length l = BS \<and> decode_singles dec n c (out @ rest) = (take (n * BS) data, l)"
proof (induction n arbitrary: c data out l)
  case 0
  then show ?case by simp
next
  case (Suc n)
  let ?e = "enc (xor_bytes c (take BS data))"
  obtain out' l' where r: "cbc_sector enc al n ?e (drop BS data) = (out', l')" by fastforce
  have e: "length ?e = BS" "length (take BS data) = BS" using Suc.prems assms by simp_all
  have x: "xor_bytes (xor_bytes c (take BS data)) c = take BS data"
    using e Suc.prems(1) by (simp add: xor_bytes_commute [of c])
  have o: "out = ?e @ out'" "l = l'"
    using Suc.prems r e assms by (auto simp: xor16_block xor16_unaligned_inplace_def split: if_splits)
  have "take (BS + n * BS) data = take BS data @ take (n * BS) (drop BS data)" by (rule take_add)
  then show ?case using Suc.IH [OF e(1) _ r] Suc.prems e o x assms by (simp add: xor16_block copy_unaligned_def)
qed

lemma decode_singles_add:
  "decode_singles dec (m + n) x data =
     (let (o1, x1) = decode_singles dec m x data; (o2, x2) = decode_singles dec n x1 (drop (m * BS) data) in (o1 @ o2, x2))"
  by (induction m arbitrary: x data) (simp_all add: Let_def split_beta add.commute)

lemma decode_4:
  assumes "aes_ok enc dec" "length x = BS" "BS * 4 \<le> length data"
  shows "decode_singles dec 4 x data
    = (decode_4blocks_consec_xor dec (take (BS * 4) data) (x @ take (BS * 3) (take (BS * 4) data)),
       take BS (drop (BS * 3) (take (BS * 4) data)))"
proof -
  have four: "4 = Suc (Suc (Suc (Suc 0)))" "[0..<4] = [0, 1, 2, 3]" by (simp_all add: upt_rec)
  have "length (dec (take BS (drop 48 data))) = BS" using assms by (intro aes_okD [of enc dec]) auto
  then show ?thesis unfolding four using assms
    by (simp add: decode_4blocks_consec_xor_def four copy_unaligned_def xor16_block drop_take min_def Let_def)
qed

lemma decode_quads_singles:
  assumes "aes_ok enc dec"
  shows "length x = BS \<Longrightarrow> q * (BS * 4) \<le> length data \<Longrightarrow> decode_quads dec q x data =
    (let (out, x') = decode_singles dec (4 * q) x data in (out, x', drop (q * (BS * 4)) data))"
proof (induction q arbitrary: x data)
  case 0
  then show ?case by simp
next
  case (Suc q)
  have n: "4 * Suc q = 4 + 4 * q" by simp
  let ?x = "take BS (drop (BS * 3) (take (BS * 4) data))"
  have x: "length ?x = BS" using Suc.prems by simp
  have ih: "decode_quads dec q ?x (drop (BS * 4) data) = (let (out, x') = decode_singles dec (4 * q) ?x (drop (BS * 4) data)
      in (out, x', drop (q * (BS * 4)) (drop (BS * 4) data)))"
    using Suc.IH [OF x] Suc.prems by simp
  show ?case unfolding n decode_singles_add
    using decode_4 [OF assms, of x data] Suc.prems ih
    by (simp add: Let_def split_beta add.commute)
qed

text \<open>The blocks that do not take part in ciphertext stealing: the four-block loop and the single-block loop together
  invert the chaining.\<close>

lemma sector_blocks:
  assumes "aes_ok enc dec" "length c = BS" "n * BS \<le> length data" "cbc_sector enc al n c data = (out, l)" "q = n div 4"
  shows "\<exists>o1 x1 o2. decode_quads dec q c (out @ rest) = (o1, x1, drop (q * (BS * 4)) (out @ rest))
    \<and> decode_singles dec (n - 4 * q) x1 (drop (q * (BS * 4)) (out @ rest)) = (o2, l) \<and> o1 @ o2 = take (n * BS) data"
proof -
  have s: "length out = n * BS" "decode_singles dec n c (out @ rest) = (take (n * BS) data, l)"
    using cbc_sector_decode [OF assms(1-4)] by simp_all
  have n: "n = 4 * q + (n - 4 * q)" "q * (BS * 4) \<le> length (out @ rest)" using s(1) assms(5) by simp_all
  obtain o1 x1 where 1: "decode_singles dec (4 * q) c (out @ rest) = (o1, x1)" by fastforce
  have 2: "decode_quads dec q c (out @ rest) = (o1, x1, drop (q * (BS * 4)) (out @ rest))"
    using decode_quads_singles [OF assms(1,2) n(2)] 1 by simp
  obtain o2 x2 where 3: "decode_singles dec (n - 4 * q) x1 (drop (q * (BS * 4)) (out @ rest)) = (o2, x2)" by fastforce
  have "decode_singles dec (4 * q + (n - 4 * q)) c (out @ rest) = (o1 @ o2, x2)"
    unfolding decode_singles_add using 1 3 by (simp add: mult.commute mult.left_commute)
  with s(2) n(1) have "o1 @ o2 = take (n * BS) data" "x2 = l" by simp_all
  with 2 3 show ?thesis by blast
qed

text \<open>Ciphertext stealing: the last whole block \<open>p\<close> and the incomplete block \<open>t\<close> behind it.\<close>

lemma steal_inverse:
  assumes "aes_ok enc dec" "length l = BS" "length p = BS" "length t < BS"
  shows "\<exists>a. xor_cnt_inplace (enc (xor_bytes l p)) t (length t) = Some a \<and> length (enc a) = BS
    \<and> (\<exists>b. xor_cnt_inplace (dec (enc a)) (take (length t) (enc (xor_bytes l p))) (length t) = Some b
      \<and> take (length t) b = t
      \<and> xor_bytes (dec (take (length t) (enc (xor_bytes l p)) @ drop (length t) b)) l = p)"
proof -
  let ?c = "enc (xor_bytes l p)" and ?k = "length t"
  let ?a = "xor_bytes (take ?k ?c) t @ drop ?k ?c"
  have c: "length ?c = BS" "dec ?c = xor_bytes l p" using assms by simp_all
  have a: "length ?a = BS" using c assms(4) by simp
  have k: "length (take ?k ?c) = ?k" "take ?k ?a = xor_bytes (take ?k ?c) t" "drop ?k ?a = drop ?k ?c"
    using c assms(4) by simp_all
  have x1: "xor_cnt_inplace ?c t ?k = Some ?a" using c assms(4) by (simp add: xor_cnt_inplace_def)
  have "xor_bytes (xor_bytes (take ?k ?c) t) (take ?k ?c) = t"
    using k(1) by (metis order_refl xor_bytes_cancel xor_bytes_commute)
  then have x2: "xor_cnt_inplace (dec (enc ?a)) (take ?k ?c) ?k = Some (t @ drop ?k ?c)"
    using a k assms(1,4) by (simp add: xor_cnt_inplace_def)
  have "xor_bytes (dec (take ?k ?c @ drop ?k (t @ drop ?k ?c))) l = p"
    using c(2) assms(2,3) by (simp add: xor_bytes_commute [of l])
  then show ?thesis using x1 x2 a assms(1) by (intro exI conjI) auto
qed

lemma sector_verify:
  assumes "length hm = BS" "take BS (sector_hmac sha iv data sectorid rnd) = hm" "length rnd = BS"
    "\<forall>x. length (sha x) = 64"
  shows "memcmp_const (sector_hmac sha iv data sectorid (take BS (rnd @ hm))) (drop BS (rnd @ hm)) BS = 0"
  using assms by (simp add: memcmp_const_eq)

lemma sector_short:
  assumes "aes_ok enc dec" "\<forall>x. length (sha x) = 64" "length rnd = BS" "length data < BS"
  shows "Option.bind (psync_crypto_aes256_encode_sector enc sha iv rnd al data sectorid)
      (\<lambda>(out, auth). psync_crypto_aes256_decode_sector dec sha iv out auth sectorid) = Some (data, 0)"
proof -
  let ?n = "length data" and ?hm = "take BS (sector_hmac sha iv data sectorid rnd)"
  let ?a = "xor_bytes (take ?n rnd) data @ drop ?n rnd"
  have hm: "length ?hm = BS" using assms(2) by (simp add: sector_hmac_eq psync_hmac_sha512_def)
  have x: "xor_cnt_inplace rnd data ?n = Some ?a" "length ?a = BS" using assms(3,4) by (simp_all add: xor_cnt_inplace_def)
  have d: "decode_2blocks_consec dec (take (BS * 2) (encode_2blocks_consec enc (?a @ ?hm))) = ?a @ ?hm"
    using hm x(2) by (intro dec2_enc2 [OF assms(1)]) simp
  have r: "length (take ?n rnd) = ?n" using assms(3,4) by simp
  have "xor_bytes (xor_bytes (take ?n rnd) data) (take ?n rnd) = data"
    using r by (metis order_refl xor_bytes_cancel xor_bytes_commute)
  then have y: "xor_cnt_inplace (?a @ ?hm) (take ?n rnd) ?n = Some (data @ drop ?n rnd @ ?hm)"
    using assms(3,4) hm by (simp add: xor_cnt_inplace_def)
  have t: "take ?n rnd @ drop ?n (data @ drop ?n rnd @ ?hm) = rnd @ ?hm" "take ?n (data @ drop ?n rnd @ ?hm) = data"
    by (simp_all flip: append_assoc)
  have e: "psync_crypto_aes256_encode_sector enc sha iv rnd al data sectorid
      = Some (take ?n rnd, encode_2blocks_consec enc (?a @ ?hm))"
    using assms(4) x(1) by (simp add: psync_crypto_aes256_encode_sector_def Let_def)
  show ?thesis
    unfolding e bind.bind_lunit prod.case psync_crypto_aes256_decode_sector_def Let_def d r y t option.map
      if_P [OF assms(4)] sector_verify [OF hm refl assms(3,2)] by simp
qed

lemma steal_split:
  fixes n :: nat
  assumes "BS \<le> n" "dl = (if n mod 16 \<noteq> 0 then n - (n mod 16 + BS) else n)"
  shows "dl div BS * BS = dl" "dl \<le> n" "n mod 16 \<noteq> 0 \<Longrightarrow> n = dl + BS + n mod 16"
    "(dl - dl div (BS * 4) * (BS * 4)) div BS = dl div BS - 4 * (dl div (BS * 4))" "dl div (BS * 4) = dl div BS div 4"
proof -
  obtain q where q: "n = Suc q * 16 + n mod 16"
    using assms(1) by (metis div_mult_mod_eq div_greater_zero_iff gr0_implies_Suc zero_less_numeral)
  have dq: "dl = (if n mod 16 \<noteq> 0 then q * 16 else Suc q * 16)" unfolding assms(2) using q by (cases "n mod 16 = 0") simp_all
  then obtain k where k: "dl = k * 16" by (metis)
  show "dl div BS * BS = dl" "dl div (BS * 4) = dl div BS div 4" unfolding k by (simp_all add: div_mult2_eq)
  have "k * 16 div (BS * 4) = k div 4" by simp
  then show "(dl - dl div (BS * 4) * (BS * 4)) div BS = dl div BS - 4 * (dl div (BS * 4))"
    unfolding k by (simp add: div_mult2_eq flip: diff_mult_distrib)
  show "dl \<le> n" "n mod 16 \<noteq> 0 \<Longrightarrow> n = dl + BS + n mod 16"
    using dq q by (auto split: if_splits)
qed

lemma auth_block:
  assumes "aes_ok enc dec" "length rnd = BS" "length hm = BS" "a = take 8 rnd @ hm @ take 8 (drop 8 rnd)"
  shows "decode_2blocks_consec dec (take (BS * 2) (encode_2blocks_consec enc a)) = a" "take 8 a = take 8 rnd"
    "take BS (drop 8 a) = hm" "take 8 (drop 24 a) = take 8 (drop 8 rnd)" "take 8 rnd @ take 8 (drop 8 rnd) @ hm = rnd @ hm"
  using assms dec2_enc2 [OF assms(1), of a] take_16_halves [of rnd] by (simp_all flip: append_assoc)

text \<open>Data of whole blocks.\<close>

lemma sector_whole:
  assumes "aes_ok enc dec" "\<forall>x. length (sha x) = 64" "length rnd = BS" "BS \<le> length data" "length data mod 16 = 0"
  shows "Option.bind (psync_crypto_aes256_encode_sector enc sha iv rnd al data sectorid)
      (\<lambda>(out, auth). psync_crypto_aes256_decode_sector dec sha iv out auth sectorid) = Some (data, 0)"
proof -
  let ?hm = "take BS (sector_hmac sha iv data sectorid rnd)" and ?s = "length data mod 16"
  define dl where dl: "dl = (if ?s \<noteq> 0 then length data - (?s + BS) else length data)"
  define a where a: "a = take 8 rnd @ ?hm @ take 8 (drop 8 rnd)"
  obtain out l where o: "cbc_sector enc al (dl div BS) ?hm data = (out, l)" by fastforce
  note sp = steal_split [OF assms(4) dl]
  have nl: "\<not> length data < BS" and db: "dl div BS * BS \<le> length data" using assms(4) sp(1,2) by simp_all
  have hm: "length ?hm = BS" using assms(2) by (simp add: sector_hmac_eq psync_hmac_sha512_def)
  note au = auth_block [OF assms(1,3) hm a]
  have out: "length out = dl" "length l = BS" using cbc_sector_decode [OF assms(1) hm db o] sp(1) by simp_all
  note enc_u = psync_crypto_aes256_encode_sector_def Let_def dl [symmetric] a [symmetric] o prod.case
  have len: "dl = length data" "length out = length data" using out(1) assms(5) by (simp_all add: dl)
  from sector_blocks [OF assms(1) hm db o sp(5), of "[]"] obtain o1 x1 o2 where b: "decode_quads dec (dl div (BS * 4)) ?hm out = (o1, x1, drop (dl div (BS * 4) * (BS * 4)) out)"
      "decode_singles dec (dl div BS - 4 * (dl div (BS * 4))) x1 (drop (dl div (BS * 4) * (BS * 4)) out) = (o2, l)"
      "o1 @ o2 = take (dl div BS * BS) data" unfolding append_Nil2 by blast
  have o12: "o1 @ o2 = data" using b(3) sp(1) len(1) by simp
  have e: "psync_crypto_aes256_encode_sector enc sha iv rnd al data sectorid = Some (out, encode_2blocks_consec enc a)"
    unfolding enc_u using nl assms(5) by simp
  have "psync_crypto_aes256_decode_sector dec sha iv out (encode_2blocks_consec enc a) sectorid = Some (data, 0)"
    unfolding psync_crypto_aes256_decode_sector_def Let_def au prod.case len(2) dl [symmetric] sp(4) b(1) prod.case b(2) o12 if_not_P [OF nl]
    using assms(5) sector_verify [OF hm refl assms(3,2)] by (simp del: take_append drop_append)
  from e this show ?thesis by simp
qed

text \<open>Data with an incomplete block at the end.\<close>

lemma sector_steal:
  assumes "aes_ok enc dec" "\<forall>x. length (sha x) = 64" "length rnd = BS" "BS \<le> length data" "length data mod 16 \<noteq> 0"
  shows "Option.bind (psync_crypto_aes256_encode_sector enc sha iv rnd al data sectorid)
      (\<lambda>(out, auth). psync_crypto_aes256_decode_sector dec sha iv out auth sectorid) = Some (data, 0)"
proof -
  let ?hm = "take BS (sector_hmac sha iv data sectorid rnd)" and ?s = "length data mod 16"
  define dl where dl: "dl = (if ?s \<noteq> 0 then length data - (?s + BS) else length data)"
  define a where a: "a = take 8 rnd @ ?hm @ take 8 (drop 8 rnd)"
  obtain out l where o: "cbc_sector enc al (dl div BS) ?hm data = (out, l)" by fastforce
  note sp = steal_split [OF assms(4) dl]
  have nl: "\<not> length data < BS" and db: "dl div BS * BS \<le> length data" using assms(4) sp(1,2) by simp_all
  have hm: "length ?hm = BS" using assms(2) by (simp add: sector_hmac_eq psync_hmac_sha512_def)
  note au = auth_block [OF assms(1,3) hm a]
  have out: "length out = dl" "length l = BS" using cbc_sector_decode [OF assms(1) hm db o] sp(1) by simp_all
  note enc_u = psync_crypto_aes256_encode_sector_def Let_def dl [symmetric] a [symmetric] o prod.case
  let ?p = "take BS (drop dl data)" and ?t = "drop (dl + BS) data"
  let ?c = "enc (xor_bytes l (take BS (drop dl data)))"
  have len: "length data = dl + BS + ?s" by (rule sp(3) [OF assms(5)])
  have pt: "length ?p = BS" "length ?t = ?s" "?s < BS" "take BS ?t = ?t" using len by simp_all
  have split: "take dl data @ ?p @ ?t = data" by (metis append_take_drop_id drop_drop add.commute)
  from steal_inverse [OF assms(1) out(2) pt(1), of ?t] obtain x y where x: "xor_cnt_inplace ?c ?t ?s = Some x" "length (enc x) = BS"
      and y: "xor_cnt_inplace (dec (enc x)) (take ?s ?c) ?s = Some y" "take ?s y = ?t"
        "xor_bytes (dec (take ?s ?c @ drop ?s y)) l = ?p"
    unfolding pt(2) using pt(3) by blast
  let ?rest = "enc x @ take ?s ?c"
  have c: "length ?c = BS" using pt(1) out(2) assms(1) by simp
  from sector_blocks [OF assms(1) hm db o sp(5), of ?rest] obtain o1 x1 o2 where b:
      "decode_quads dec (dl div (BS * 4)) ?hm (out @ ?rest) = (o1, x1, drop (dl div (BS * 4) * (BS * 4)) (out @ ?rest))"
      "decode_singles dec (dl div BS - 4 * (dl div (BS * 4))) x1 (drop (dl div (BS * 4) * (BS * 4)) (out @ ?rest)) = (o2, l)"
      "o1 @ o2 = take (dl div BS * BS) data" by blast
  have o12: "(o1 @ o2) @ ?p @ ?t = data" using b(3) sp(1) split by simp
  have e: "psync_crypto_aes256_encode_sector enc sha iv rnd al data sectorid = Some (out @ ?rest, encode_2blocks_consec enc a)"
    unfolding enc_u xor16_unaligned_inplace_def using nl assms(5) x out(2) by (simp add: copy_unaligned_def add.commute)
  have lout: "length (out @ ?rest) = length data" using len out(1) x(2) c pt(3) by simp
  have r: "drop dl (out @ ?rest) = ?rest" "copy_unaligned ?rest = enc x" "drop BS ?rest = take ?s ?c"
    "take ?s (take ?s ?c) = take ?s ?c"
    using out(1) x(2) by (simp_all add: copy_unaligned_def)
  have yl: "length (dec (take ?s ?c @ drop ?s y)) = BS"
    using y(1) c pt(3) x assms(1) by (intro aes_okD(2) [of enc dec]) (auto simp: xor_cnt_inplace_def)
  have z: "copy_unaligned (xor16_aligned_inplace (dec (take ?s ?c @ drop ?s y)) l) = ?p"
    using y(3) yl out(2) pt(1) by (simp add: xor16_block copy_unaligned_def)
  have "psync_crypto_aes256_decode_sector dec sha iv (out @ ?rest) (encode_2blocks_consec enc a) sectorid = Some (data, 0)"
    unfolding psync_crypto_aes256_decode_sector_def Let_def au prod.case lout dl [symmetric] sp(4) b(1) prod.case b(2) if_not_P [OF nl] if_not_P [OF assms(5)] r y(1,2) option.map
      z append_assoc
    using o12 sector_verify [OF hm refl assms(3,2)] by (simp del: take_append drop_append)
  with e show ?thesis by simp
qed

text \<open>C21: A sector encoded with some random bytes is decoded to the same data, whatever its length, and passes the
  authentication.\<close>

theorem sector_roundtrip:
  assumes "aes_ok enc dec" "\<forall>x. length (sha x) = 64" "length rnd = BS"
  shows "Option.bind (psync_crypto_aes256_encode_sector enc sha iv rnd al data sectorid)
      (\<lambda>(out, auth). psync_crypto_aes256_decode_sector dec sha iv out auth sectorid) = Some (data, 0)"
  using sector_short [OF assms] sector_whole [OF assms] sector_steal [OF assms]
  by (cases "length data < BS"; cases "length data mod 16 = 0") simp_all

subsection \<open>Counter mode, authentication and the word-wise routines\<close>



theorem text_roundtrip_witness:
  "Option.bind (psync_crypto_aes256_encode_text rev (\<lambda>_. replicate 64 3) (replicate BS 7) [65, 66, 67])
     (psync_crypto_aes256_decode_text rev (\<lambda>_. replicate 64 3) (replicate BS 7) False)
   = Some ([65, 66, 67] @ replicate 13 0)"
  using text_roundtrip [of rev rev "\<lambda>_. replicate 64 3" "replicate BS 7" "[65, 66, 67]" False]
  by (simp add: aes_ok_def ALIGN_A256_BS_def)

theorem sector_roundtrip_witness:
  "Option.bind (psync_crypto_aes256_encode_sector rev (\<lambda>_. replicate 64 3) [] (replicate BS 9) False (replicate 20 1) 0)
      (\<lambda>(out, auth). psync_crypto_aes256_decode_sector rev (\<lambda>_. replicate 64 3) [] out auth 0) = Some (replicate 20 1, 0)"
  using sector_roundtrip [of rev rev "\<lambda>_. replicate 64 3" "replicate BS 9" "[]" False "replicate 20 1" 0]
  by (simp add: aes_ok_def)

text \<open>The comparison that takes the same time wherever the buffers differ is the comparison of the buffers: the
  arithmetic on the accumulated differences gives 0 for equal and 1 for different contents.\<close>

lemma memcmp_const_compares:
  assumes "cnt \<le> length s1" "cnt \<le> length s2"
  shows "memcmp_const s1 s2 cnt = (if take cnt s1 = take cnt s2 then 0 else 1)"
  using assms by (simp add: memcmp_const_eq)

end
