(* ===== verification/Pqsort.thy ===== *)
theory Pqsort
  imports Prelude "HOL-Library.Multiset"
begin

unbundle bit_operations_syntax

section \<open>Partial sorting (\<open>plibs.c\<close>)\<close>

text \<open>
  \<^verbatim>\<open>psync_pqsort\<close> sorts the first \<open>sort_first\<close> elements of an array, \<^verbatim>\<open>psync_qpartition\<close> only moves the smallest
  elements in front of a position.  The array is a list; a pointer into it is the (integer) index of the element it
  points to, so that the pointers one element before and behind the array exist as in the code.  Swapping two elements
  byte by byte or word by word is swapping them.  The comparison is a function \<open>c\<close> with an integer result; the state
  of the random generator that picks pivots is threaded through.  \<open>None\<close> is an access outside the array or the
  stack of segments; a loop that does not end would have the value \<open>None\<close> too.
\<close>

subsection \<open>Elements and pivots\<close>

abbreviation at :: "'a list \<Rightarrow> int \<Rightarrow> 'a" where
  "at xs i \<equiv> xs ! nat i"

definition pqsswap :: "'a list \<Rightarrow> int \<Rightarrow> int \<Rightarrow> 'a list" where
  "pqsswap xs i j = xs[nat i := at xs j, nat j := at xs i]"

definition rot :: "u32 \<Rightarrow> nat \<Rightarrow> u32" where
  "rot x k = push_bit k x OR drop_bit (32 - k) x"

record pq_state =
  rnd_a :: u32
  rnd_b :: u32
  rnd_c :: u32
  rnd_d :: u32

definition pq_init :: pq_state where
  "pq_init = \<lparr>rnd_a = 0x95ae3d25, rnd_b = 0xe225d755, rnd_c = 0xc63a2ae7, rnd_d = 0xe4556265\<rparr>"

definition pq_rnd :: "pq_state \<Rightarrow> u32 \<times> pq_state" where
  "pq_rnd s = (let e = rnd_a s - rot (rnd_b s) 27; a = rnd_b s XOR rot (rnd_c s) 17; b = rnd_c s + rnd_d s;
     c = rnd_d s + e; d = e + a in (d, \<lparr>rnd_a = a, rnd_b = b, rnd_c = c, rnd_d = d\<rparr>))"

definition med5 :: "('a \<Rightarrow> 'a \<Rightarrow> int) \<Rightarrow> 'a list \<Rightarrow> int \<Rightarrow> int \<Rightarrow> int \<Rightarrow> int \<Rightarrow> int \<Rightarrow> int" where
  "med5 cmp xs a b c d e =
     (let lt = (\<lambda>i j. cmp (at xs i) (at xs j) < 0);
          (a, b) = (if lt b a then (b, a) else (a, b));
          (c, d) = (if lt d c then (d, c) else (c, d));
          (a, b, c, d) =
            (if lt a c then (let a = e in if lt b a then (b, a, c, d) else (a, b, c, d))
             else (let c = e in if lt d c then (a, b, d, c) else (a, b, c, d)));
          (a, c) = (if lt a c then (b, c) else (a, d))
      in if lt a c then a else c)"

abbreviation QSORT_TRESH :: int where "QSORT_TRESH \<equiv> 8"
abbreviation QSORT_MTR :: int where "QSORT_MTR \<equiv> 64"
abbreviation QSORT_REC_M :: nat where "QSORT_REC_M \<equiv> 16384"

function pq_choose_part :: "('a \<Rightarrow> 'a \<Rightarrow> int) \<Rightarrow> 'a list \<Rightarrow> pq_state \<Rightarrow> int \<Rightarrow> nat \<Rightarrow> int \<times> pq_state" where
  "pq_choose_part cmp xs s base cnt =
     (if QSORT_REC_M \<le> cnt
      then let n = cnt div 5;
               (a, s) = pq_choose_part cmp xs s base n;
               (b, s) = pq_choose_part cmp xs s (base + int n) n;
               (c, s) = pq_choose_part cmp xs s (base + int n * 2) n;
               (d, s) = pq_choose_part cmp xs s (base + int n * 3) n;
               (e, s) = pq_choose_part cmp xs s (base + int n * 4) n
           in (med5 cmp xs a b c d e, s)
      else let (a, s) = pq_rnd s; (b, s) = pq_rnd s; (c, s) = pq_rnd s; (d, s) = pq_rnd s; (e, s) = pq_rnd s;
               pos = (\<lambda>r. base + int (unat r mod cnt))
           in (med5 cmp xs (pos a) (pos b) (pos c) (pos d) (pos e), s))"
  by pat_completeness auto
termination by (relation "measure (\<lambda>(cmp, xs, s, base, cnt). cnt)") auto

subsection \<open>Partitioning\<close>

text \<open>The median of three that makes the first and last element good, and the two scanning loops.\<close>

definition sort3 :: "('a \<Rightarrow> 'a \<Rightarrow> int) \<Rightarrow> 'a list \<Rightarrow> int \<Rightarrow> int \<Rightarrow> int \<Rightarrow> 'a list" where
  "sort3 c xs lo mid hi =
     (let xs = (if c (at xs mid) (at xs lo) < 0 then pqsswap xs mid lo else xs) in
      if c (at xs hi) (at xs mid) < 0
      then let xs = pqsswap xs mid hi in if c (at xs mid) (at xs lo) < 0 then pqsswap xs mid lo else xs
      else xs)"

function scan_up :: "('a \<Rightarrow> 'a \<Rightarrow> int) \<Rightarrow> 'a list \<Rightarrow> int \<Rightarrow> int \<Rightarrow> int option" where
  "scan_up c xs mid l =
     (let l' = l + 1 in
      if 0 \<le> l' \<and> l' < int (length xs)
      then if c (at xs l') (at xs mid) < 0 then scan_up c xs mid l' else Some l'
      else None)"
  by pat_completeness auto
termination by (relation "measure (\<lambda>(c, xs, mid, l). nat (int (length xs) - l))") auto

function scan_down :: "('a \<Rightarrow> 'a \<Rightarrow> int) \<Rightarrow> 'a list \<Rightarrow> int \<Rightarrow> int \<Rightarrow> int option" where
  "scan_down c xs mid r =
     (let r' = r - 1 in
      if 0 \<le> r' \<and> r' < int (length xs)
      then if c (at xs mid) (at xs r') < 0 then scan_down c xs mid r' else Some r'
      else None)"
  by pat_completeness auto
termination by (relation "measure (\<lambda>(c, xs, mid, r). nat r)") auto

declare scan_up.simps [simp del] scan_down.simps [simp del]

lemma scan_up_greater: "scan_up c xs mid l = Some l' \<Longrightarrow> l < l'"
  by (induction c xs mid l rule: scan_up.induct) (subst (asm) scan_up.simps, auto simp: Let_def split: if_splits)

lemma scan_down_less: "scan_down c xs mid r = Some r' \<Longrightarrow> r' < r"
  by (induction c xs mid r rule: scan_down.induct) (subst (asm) scan_down.simps, auto simp: Let_def split: if_splits)

text \<open>The pivot stays in the array while elements are exchanged; \<open>mid\<close> follows it.\<close>

function part_loop :: "('a \<Rightarrow> 'a \<Rightarrow> int) \<Rightarrow> 'a list \<Rightarrow> int \<Rightarrow> int \<Rightarrow> int \<Rightarrow> ('a list \<times> int) option" where
  "part_loop c xs l r mid =
     (case scan_up c xs mid l of None \<Rightarrow> None | Some l' \<Rightarrow>
      (case scan_down c xs mid r of None \<Rightarrow> None | Some r' \<Rightarrow>
        if r' \<le> l' then Some (xs, mid)
        else let xs = pqsswap xs l' r' in
          if mid = l' then part_loop c xs l' (r' + 1) r'
          else if mid = r' then part_loop c xs (l' - 1) r' l'
          else part_loop c xs l' r' mid))"
  by pat_completeness auto
termination
  by (relation "measure (\<lambda>(c, xs, l, r, mid). nat (r - l))") (auto dest!: scan_up_greater scan_down_less)

declare part_loop.simps [simp del]

definition pq_setup :: "('a \<Rightarrow> 'a \<Rightarrow> int) \<Rightarrow> 'a list \<Rightarrow> pq_state \<Rightarrow> int \<Rightarrow> int \<Rightarrow> 'a list \<times> int \<times> int \<times> int \<times> pq_state" where
  "pq_setup c xs s lo hi =
     (let n = hi - lo in
      if n \<le> QSORT_MTR then (let mid = lo + n div 2 in (sort3 c xs lo mid hi, mid, lo, hi, s))
      else let (mid, s) = pq_choose_part c xs s lo (nat n) in (xs, mid, lo - 1, hi + 1, s))"

subsection \<open>The two entry points\<close>

abbreviation STACK_SIZE :: nat where "STACK_SIZE \<equiv> 64"

partial_function (option) pqsort_loop ::
    "('a \<Rightarrow> 'a \<Rightarrow> int) \<Rightarrow> int \<Rightarrow> 'a list \<Rightarrow> pq_state \<Rightarrow> int \<Rightarrow> int \<Rightarrow> (int \<times> int) list \<Rightarrow> ('a list \<times> pq_state) option" where
  "pqsort_loop c sf xs s lo hi stack =
     (case pq_setup c xs s lo hi of (xs, mid, l, r, s) \<Rightarrow>
      (case part_loop c xs l r mid of None \<Rightarrow> None | Some (xs, mid) \<Rightarrow>
        if hi - mid \<le> QSORT_TRESH \<or> sf \<le> mid
        then if mid - lo \<le> QSORT_TRESH
             then (case stack of [] \<Rightarrow> Some (xs, s) | (lo', hi') # stack' \<Rightarrow> pqsort_loop c sf xs s lo' hi' stack')
             else pqsort_loop c sf xs s lo (mid - 1) stack
        else if mid - lo \<le> QSORT_TRESH then pqsort_loop c sf xs s (mid + 1) hi stack
        else if STACK_SIZE \<le> length stack + 1 then None
        else if hi - mid < mid - lo then pqsort_loop c sf xs s (mid + 1) hi ((lo, mid - 1) # stack)
        else pqsort_loop c sf xs s lo (mid - 1) ((mid + 1, hi) # stack)))"

text \<open>The final insertion sort: the smallest element goes to the front and stops the search for a position.\<close>

definition find_min :: "('a \<Rightarrow> 'a \<Rightarrow> int) \<Rightarrow> 'a list \<Rightarrow> nat \<Rightarrow> nat" where
  "find_min c xs r = fold (\<lambda>l lo. if c (xs ! l) (xs ! lo) < 0 then l else lo) [1..<Suc r] 0"

fun insert_pos :: "('a \<Rightarrow> 'a \<Rightarrow> int) \<Rightarrow> 'a list \<Rightarrow> nat \<Rightarrow> nat \<Rightarrow> nat option" where
  "insert_pos c xs l 0 = (if c (xs ! l) (xs ! 0) < 0 then None else Some 1)"
| "insert_pos c xs l (Suc lo) = (if c (xs ! l) (xs ! Suc lo) < 0 then insert_pos c xs l lo else Some (Suc (Suc lo)))"

definition move_down :: "'a list \<Rightarrow> nat \<Rightarrow> nat \<Rightarrow> 'a list" where
  "move_down xs lo l = take lo xs @ xs ! l # take (l - lo) (drop lo xs) @ drop (Suc l) xs"

fun insert_loop :: "('a \<Rightarrow> 'a \<Rightarrow> int) \<Rightarrow> 'a list \<Rightarrow> nat list \<Rightarrow> 'a list option" where
  "insert_loop c xs [] = Some xs"
| "insert_loop c xs (l # ls) =
     (case insert_pos c xs l (l - 1) of None \<Rightarrow> None
      | Some lo \<Rightarrow> insert_loop c (if lo \<noteq> l then move_down xs lo l else xs) ls)"

definition insertion_phase :: "('a \<Rightarrow> 'a \<Rightarrow> int) \<Rightarrow> nat \<Rightarrow> nat \<Rightarrow> 'a list \<Rightarrow> 'a list option" where
  "insertion_phase c esize sort_first xs =
     (let hi = min (length xs - 1) (sort_first + 8); r = min ((8 * esize + 4) div esize) hi;
          xs = pqsswap xs 0 (int (find_min c xs r))
      in insert_loop c xs [2..<Suc hi])"

definition psync_pqsort :: "('a \<Rightarrow> 'a \<Rightarrow> int) \<Rightarrow> nat \<Rightarrow> nat \<Rightarrow> 'a list \<Rightarrow> pq_state \<Rightarrow> ('a list \<times> pq_state) option" where
  "psync_pqsort c esize sort_first xs s =
     (if 8 < length xs
      then Option.bind (pqsort_loop c (int sort_first) xs s 0 (int (length xs) - 1) [])
             (\<lambda>(xs, s). map_option (\<lambda>xs. (xs, s)) (insertion_phase c esize sort_first xs))
      else if length xs \<le> 1 then Some (xs, s)
      else map_option (\<lambda>xs. (xs, s)) (insertion_phase c esize sort_first xs))"

partial_function (option) qpartition_loop ::
    "('a \<Rightarrow> 'a \<Rightarrow> int) \<Rightarrow> int \<Rightarrow> 'a list \<Rightarrow> pq_state \<Rightarrow> int \<Rightarrow> int \<Rightarrow> ('a list \<times> pq_state) option" where
  "qpartition_loop c sf xs s lo hi =
     (case pq_setup c xs s lo hi of (xs, mid, l, r, s) \<Rightarrow>
      if hi - lo \<le> 2 then Some (xs, s)
      else case part_loop c xs l r mid of None \<Rightarrow> None | Some (xs, mid) \<Rightarrow>
        if mid < sf then qpartition_loop c sf xs s (mid + 1) hi
        else if sf < mid then qpartition_loop c sf xs s lo (mid - 1)
        else Some (xs, s))"

definition psync_qpartition :: "('a \<Rightarrow> 'a \<Rightarrow> int) \<Rightarrow> nat \<Rightarrow> 'a list \<Rightarrow> pq_state \<Rightarrow> ('a list \<times> pq_state) option" where
  "psync_qpartition c sort_first xs s =
     (if length xs \<le> 1 then Some (xs, s) else qpartition_loop c (int sort_first) xs s 0 (int (length xs) - 1))"

subsection \<open>Rearranging inside a segment\<close>

definition within :: "'a list \<Rightarrow> 'a list \<Rightarrow> int \<Rightarrow> int \<Rightarrow> bool" where
  "within xs ys lo hi \<longleftrightarrow> length ys = length xs \<and> mset ys = mset xs
     \<and> (\<forall>i. 0 \<le> i \<and> (i < lo \<or> hi < i) \<longrightarrow> at ys i = at xs i)
     \<and> (\<forall>i. lo \<le> i \<and> i \<le> hi \<longrightarrow> (\<exists>j. lo \<le> j \<and> j \<le> hi \<and> at ys i = at xs j))"

abbreviation in_array :: "'a list \<Rightarrow> int \<Rightarrow> bool" where
  "in_array xs i \<equiv> 0 \<le> i \<and> i < int (length xs)"

lemma within_refl [simp]: "within xs xs lo hi"
  by (auto simp: within_def)

lemma within_trans: "within xs ys lo hi \<Longrightarrow> within ys zs lo hi \<Longrightarrow> within xs zs lo hi"
  unfolding within_def by metis

lemma within_mono:
  assumes "within xs ys lo hi" "0 \<le> lo'" "lo' \<le> lo" "hi \<le> hi'"
  shows "within xs ys lo' hi'"
proof -
  have "\<exists>j. lo' \<le> j \<and> j \<le> hi' \<and> at ys i = at xs j" if i: "lo' \<le> i" "i \<le> hi'" for i
  proof (cases "lo \<le> i \<and> i \<le> hi")
    case True
    then obtain j where "lo \<le> j" "j \<le> hi" "at ys i = at xs j" using assms(1) unfolding within_def by blast
    then show ?thesis using assms(3,4) by (intro exI [of _ j]) auto
  next
    case False
    then have "at ys i = at xs i" using assms i unfolding within_def by (metis linorder_not_less order_trans)
    then show ?thesis using i by blast
  qed
  then show ?thesis using assms unfolding within_def by auto
qed

lemma length_pqsswap [simp]: "length (pqsswap xs i j) = length xs"
  by (simp add: pqsswap_def)

lemma at_pqsswap:
  assumes "in_array xs i" "in_array xs j" "0 \<le> k"
  shows "at (pqsswap xs i j) k = (if k = i then at xs j else if k = j then at xs i else at xs k)"
  using assms by (auto simp: pqsswap_def nth_list_update nat_eq_iff)

lemma mset_pqsswap: "in_array xs i \<Longrightarrow> in_array xs j \<Longrightarrow> mset (pqsswap xs i j) = mset xs"
  by (simp add: pqsswap_def mset_swap nat_less_iff)

lemma take_pqsswap: "0 \<le> i \<Longrightarrow> 0 \<le> j \<Longrightarrow> nat i < n \<Longrightarrow> nat j < n \<Longrightarrow> n \<le> length xs \<Longrightarrow> take n (pqsswap xs i j) = pqsswap (take n xs) i j"
  by (simp add: pqsswap_def take_update_swap)

lemma drop_pqsswap: "nat i < n \<Longrightarrow> nat j < n \<Longrightarrow> drop n (pqsswap xs i j) = drop n xs"
  by (simp add: pqsswap_def)

lemma within_pqsswap:
  assumes "in_array xs i" "in_array xs j" "lo \<le> i" "i \<le> hi" "lo \<le> j" "j \<le> hi" "0 \<le> lo"
  shows "within xs (pqsswap xs i j) lo hi"
  using assms unfolding within_def
  by (auto simp: at_pqsswap mset_pqsswap)

lemma set_within: "within xs ys lo hi \<Longrightarrow> set ys = set xs"
  unfolding within_def by (metis set_mset_mset)

lemma within_source:
  assumes "within xs ys lo hi" "0 \<le> i"
  shows "\<exists>k. (if lo \<le> i \<and> i \<le> hi then lo \<le> k \<and> k \<le> hi else k = i) \<and> at ys i = at xs k"
proof (cases "lo \<le> i \<and> i \<le> hi")
  case True
  then show ?thesis using assms(1) by (simp add: within_def)
next
  case False
  then have "i < lo \<or> hi < i" by linarith
  with False assms show ?thesis by (auto simp: within_def)
qed

subsection \<open>Choosing the pivot\<close>

lemma med5_choice:
  fixes lt :: "int \<Rightarrow> int \<Rightarrow> bool"
  shows "(let (a, b) = (if lt b a then (b, a) else (a, b));
          (c, d) = (if lt d c then (d, c) else (c, d));
          (a, b, c, d) =
            (if lt a c then (let a = e in if lt b a then (b, a, c, d) else (a, b, c, d))
             else (let c = e in if lt d c then (a, b, d, c) else (a, b, c, d)));
          (a, c) = (if lt a c then (b, c) else (a, d))
      in if lt a c then a else c) \<in> {a, b, c, d, e}" 
  by (simp only: Let_def if_distrib [of "case_prod _"] prod.case) simp

lemma med5_mem: "med5 cmp xs a b c d e \<in> {a, b, c, d, e}"
  unfolding med5_def by (subst Let_def) (rule med5_choice)

lemma med5_range:
  "(\<And>x. x \<in> {a, b, c, d, e} \<Longrightarrow> lo \<le> x \<and> x < hi) \<Longrightarrow> lo \<le> med5 cmp xs a b c d e \<and> med5 cmp xs a b c d e < hi"
  using med5_mem [of cmp xs a b c d e] by blast

declare pq_choose_part.simps [simp del]

lemma pq_choose_part_range:
  "0 < cnt \<Longrightarrow> base \<le> fst (pq_choose_part cmp xs s base cnt) \<and> fst (pq_choose_part cmp xs s base cnt) < base + int cnt"
proof (induction cnt arbitrary: s base rule: less_induct)
  case (less cnt)
  show ?case
  proof (cases "QSORT_REC_M \<le> cnt")
    case True
    let ?n = "cnt div 5"
    have n: "?n < cnt" "0 < ?n" "int ?n * 5 \<le> int cnt" using True by auto
    have ih: "lo \<le> fst (pq_choose_part cmp xs t lo ?n) \<and> fst (pq_choose_part cmp xs t lo ?n) < lo + int ?n" for t lo
      by (rule less.IH [OF n(1,2)])
    have r: "base \<le> fst (pq_choose_part cmp xs t (base + int ?n * k) ?n)
        \<and> fst (pq_choose_part cmp xs t (base + int ?n * k) ?n) < base + int cnt" if "k \<in> {0, 1, 2, 3, 4}" for t k
      using ih [of "base + int ?n * k" t] that n(3) by auto
    show ?thesis
      using True r [of 0] r [of 1] r [of 2] r [of 3] r [of 4]
      by (subst (1 2) pq_choose_part.simps) (simp only: Let_def split_beta if_True fst_conv, intro med5_range, auto)
  next
    case False
    have "base \<le> base + int (k mod cnt) \<and> base + int (k mod cnt) < base + int cnt" for k using less.prems by simp
    then show ?thesis
      using False by (subst (1 2) pq_choose_part.simps) (simp only: Let_def split_beta if_False fst_conv, intro med5_range, blast)
  qed
qed

subsection \<open>Sorting under the contract of the comparison\<close>

text \<open>The comparison is a strict weak order on the elements that satisfy \<open>ok\<close>.\<close>

abbreviation cle :: "('a \<Rightarrow> 'a \<Rightarrow> int) \<Rightarrow> 'a \<Rightarrow> 'a \<Rightarrow> bool" where
  "cle c x y \<equiv> \<not> c y x < 0"

locale compar =
  fixes c :: "'a \<Rightarrow> 'a \<Rightarrow> int" and ok :: "'a \<Rightarrow> bool"
  assumes asym: "ok x \<Longrightarrow> ok y \<Longrightarrow> c x y < 0 \<Longrightarrow> cle c x y"
    and trans: "ok x \<Longrightarrow> ok y \<Longrightarrow> ok z \<Longrightarrow> cle c x y \<Longrightarrow> cle c y z \<Longrightarrow> cle c x z"

context compar
begin

lemma ok_at: "\<forall>x \<in> set xs. ok x \<Longrightarrow> in_array xs i \<Longrightarrow> ok (at xs i)"
  by (auto intro!: nth_mem)

lemma ok_within: "within xs ys lo hi \<Longrightarrow> \<forall>x \<in> set xs. ok x \<Longrightarrow> \<forall>x \<in> set ys. ok x"
  using set_within by metis

lemma irrefl: "ok x \<Longrightarrow> cle c x x"
  using asym [of x x] by blast

lemma scan_up_stops:
  assumes "ok (at xs mid)"
  shows "-1 \<le> l \<Longrightarrow> l < mid \<Longrightarrow> mid < int (length xs) \<Longrightarrow>
    \<exists>l'. scan_up c xs mid l = Some l' \<and> l < l' \<and> l' \<le> mid \<and> cle c (at xs mid) (at xs l')
      \<and> (\<forall>i. l < i \<and> i < l' \<longrightarrow> c (at xs i) (at xs mid) < 0)"
proof (induction "nat (mid - l)" arbitrary: l rule: less_induct)
  case less
  show ?case
  proof (cases "c (at xs (l + 1)) (at xs mid) < 0")
    case True
    then have "l + 1 \<noteq> mid" using irrefl [OF assms] by auto
    then have "nat (mid - (l + 1)) < nat (mid - l)" "-1 \<le> l + 1" "l + 1 < mid" using less.prems by linarith+
    from less.hyps [OF this less.prems(3)] obtain l' where l': "scan_up c xs mid (l + 1) = Some l'" "l + 1 < l'" "l' \<le> mid"
        "cle c (at xs mid) (at xs l')" "\<forall>i. l + 1 < i \<and> i < l' \<longrightarrow> c (at xs i) (at xs mid) < 0" by auto
    have "c (at xs i) (at xs mid) < 0" if "l < i \<and> i < l'" for i
      using l'(5) True that by (cases "i = l + 1") auto
    then show ?thesis using l' True less.prems by (subst scan_up.simps) auto
  next
    case False
    then show ?thesis using less.prems by (subst scan_up.simps) (auto simp: Let_def)
  qed
qed

lemma scan_down_stops:
  assumes "ok (at xs mid)"
  shows "0 \<le> mid \<Longrightarrow> mid < r \<Longrightarrow> r \<le> int (length xs) \<Longrightarrow>
    \<exists>r'. scan_down c xs mid r = Some r' \<and> r' < r \<and> mid \<le> r' \<and> cle c (at xs r') (at xs mid)
      \<and> (\<forall>i. r' < i \<and> i < r \<longrightarrow> c (at xs mid) (at xs i) < 0)"
proof (induction "nat (r - mid)" arbitrary: r rule: less_induct)
  case less
  show ?case
  proof (cases "c (at xs mid) (at xs (r - 1)) < 0")
    case True
    then have "r - 1 \<noteq> mid" using irrefl [OF assms] by auto
    then have "nat (r - 1 - mid) < nat (r - mid)" "mid < r - 1" "r - 1 \<le> int (length xs)" using less.prems by linarith+
    from less.hyps [OF this(1) less.prems(1) this(2,3)] obtain r' where r': "scan_down c xs mid (r - 1) = Some r'" "r' < r - 1" "mid \<le> r'"
        "cle c (at xs r') (at xs mid)" "\<forall>i. r' < i \<and> i < r - 1 \<longrightarrow> c (at xs mid) (at xs i) < 0" by auto
    have "c (at xs mid) (at xs i) < 0" if "r' < i \<and> i < r" for i
      using r'(5) True that by (cases "i = r - 1") auto
    then show ?thesis using r' True less.prems by (subst scan_down.simps) auto
  next
    case False
    then show ?thesis using less.prems by (subst scan_down.simps) (auto simp: Let_def)
  qed
qed

text \<open>What is left of \<open>l\<close> is at most the pivot, what is right of \<open>r\<close> at least the pivot.\<close>

definition part_inv :: "'a list \<Rightarrow> int \<Rightarrow> int \<Rightarrow> int \<Rightarrow> int \<Rightarrow> int \<Rightarrow> bool" where
  "part_inv xs lo hi l r mid \<longleftrightarrow> 0 \<le> lo \<and> hi < int (length xs) \<and> lo - 1 \<le> l \<and> l < mid \<and> mid < r \<and> r \<le> hi + 1
     \<and> (\<forall>i. lo \<le> i \<and> i \<le> l \<longrightarrow> cle c (at xs i) (at xs mid)) \<and> (\<forall>i. r \<le> i \<and> i \<le> hi \<longrightarrow> cle c (at xs mid) (at xs i))"

definition parted :: "'a list \<Rightarrow> int \<Rightarrow> int \<Rightarrow> int \<Rightarrow> bool" where
  "parted ys lo hi m \<longleftrightarrow> (\<forall>i. lo \<le> i \<and> i < m \<longrightarrow> cle c (at ys i) (at ys m)) \<and> (\<forall>i. m < i \<and> i \<le> hi \<longrightarrow> cle c (at ys m) (at ys i))"

lemma part_step:
  assumes inv: "part_inv xs lo hi l r mid" and ok: "\<forall>x \<in> set xs. ok x"
    and up: "scan_up c xs mid l = Some l'" and down: "scan_down c xs mid r = Some r'" and lr: "l' < r'"
  defines "ys \<equiv> pqsswap xs l' r'"
  shows "within xs ys lo hi \<and> (if mid = l' then part_inv ys lo hi l' (r' + 1) r'
    else if mid = r' then part_inv ys lo hi (l' - 1) r' l' else part_inv ys lo hi l' r' mid)"
proof -
  have b: "0 \<le> lo" "hi < int (length xs)" "lo - 1 \<le> l" "l < mid" "mid < r" "r \<le> hi + 1" using inv by (auto simp: part_inv_def)
  have okm: "ok (at xs mid)" using ok b by (auto intro!: nth_mem)
  from scan_up_stops [OF okm, of l] up b have u: "l < l'" "l' \<le> mid" "cle c (at xs mid) (at xs l')"
    "\<And>i. l < i \<Longrightarrow> i < l' \<Longrightarrow> c (at xs i) (at xs mid) < 0" by auto
  from scan_down_stops [OF okm, of r] down b have d: "r' < r" "mid \<le> r'" "cle c (at xs r') (at xs mid)"
    "\<And>i. r' < i \<Longrightarrow> i < r \<Longrightarrow> c (at xs mid) (at xs i) < 0" by auto
  have okx: "ok (at xs i)" if "lo \<le> i" "i \<le> hi" for i using that ok b by (auto intro!: nth_mem)
  have left: "cle c (at xs i) (at xs mid)" if "lo \<le> i" "i < l'" for i
  proof (cases "i \<le> l")
    case True then show ?thesis using inv that by (auto simp: part_inv_def)
  next
    case False then show ?thesis using u(4) [of i] asym [OF okx okm] that u(2) b by auto
  qed
  have right: "cle c (at xs mid) (at xs i)" if "r' < i" "i \<le> hi" for i
  proof (cases "r \<le> i")
    case True then show ?thesis using inv that by (auto simp: part_inv_def)
  next
    case False then show ?thesis using d(4) [of i] asym [OF okm okx] that d(2) b by auto
  qed
  have ys: "at ys k = (if k = l' then at xs r' else if k = r' then at xs l' else at xs k)" if "0 \<le> k" for k
    unfolding ys_def using that b u d by (intro at_pqsswap) auto
  have "within xs ys lo hi" unfolding ys_def using b u d lr by (intro within_pqsswap) auto
  moreover have "length ys = length xs" by (simp add: ys_def)
  ultimately show ?thesis using b u(1-3) d(1-3) lr left right irrefl [OF okm] by (auto simp: part_inv_def ys)
qed

lemma part_loop_parts:
  "part_inv xs lo hi l r mid \<Longrightarrow> \<forall>x \<in> set xs. ok x \<Longrightarrow>
    \<exists>ys m. part_loop c xs l r mid = Some (ys, m) \<and> within xs ys lo hi \<and> l < m \<and> m < r \<and> parted ys lo hi m"
proof (induction "nat (r - l)" arbitrary: xs l r mid rule: less_induct)
  case less
  have b: "0 \<le> lo" "hi < int (length xs)" "lo - 1 \<le> l" "l < mid" "mid < r" "r \<le> hi + 1" using less.prems by (auto simp: part_inv_def)
  have okm: "ok (at xs mid)" using less.prems(2) b by (auto intro!: nth_mem)
  obtain l' where u: "scan_up c xs mid l = Some l'" "l < l'" "l' \<le> mid"
      "\<forall>i. l < i \<and> i < l' \<longrightarrow> c (at xs i) (at xs mid) < 0"
    using scan_up_stops [OF okm, of l] b by auto
  obtain r' where d: "scan_down c xs mid r = Some r'" "r' < r" "mid \<le> r'"
      "\<forall>i. r' < i \<and> i < r \<longrightarrow> c (at xs mid) (at xs i) < 0"
    using scan_down_stops [OF okm, of r] b by auto
  show ?case
  proof (cases "r' \<le> l'")
    case True
    then have m: "l' = mid" "r' = mid" using u d by linarith+
    have okx: "ok (at xs i)" if "lo \<le> i" "i \<le> hi" for i using that less.prems(2) b by (auto intro!: nth_mem)
    have "cle c (at xs i) (at xs mid)" if "lo \<le> i" "i < mid" for i
      using less.prems(1) u(4) asym [OF okx okm, of i] that b m by (cases "i \<le> l") (auto simp: part_inv_def)
    moreover have "cle c (at xs mid) (at xs i)" if "mid < i" "i \<le> hi" for i
      using less.prems(1) d(4) asym [OF okm okx, of i] that b m by (cases "r \<le> i") (auto simp: part_inv_def)
    ultimately have "parted xs lo hi mid" by (simp add: parted_def)
    with True u(1) d(1) b show ?thesis by (subst part_loop.simps) simp
  next
    case False
    let ?ys = "pqsswap xs l' r'"
    let ?l = "if mid = r' then l' - 1 else l'" and ?r = "if mid = l' then r' + 1 else r'"
      and ?m = "if mid = l' then r' else if mid = r' then l' else mid"
    have st: "within xs ?ys lo hi" "part_inv ?ys lo hi ?l ?r ?m"
      using part_step [OF less.prems u(1) d(1)] False by (auto split: if_splits)
    have "nat (?r - ?l) < nat (r - l)" "\<forall>x \<in> set ?ys. ok x" 
      using u(2) d(2) False b less.prems(2) set_within [OF st(1)] by auto
    from less.hyps [OF this(1) st(2) this(2)] obtain ys m where ih: "part_loop c ?ys ?l ?r ?m = Some (ys, m)"
      "within ?ys ys lo hi" "?l < m" "m < ?r" "parted ys lo hi m" by blast
    have "part_loop c xs l r mid = part_loop c ?ys ?l ?r ?m"
      using u(1) d(1) False by (subst part_loop.simps) (simp add: Let_def)
    with ih within_trans [OF st(1) ih(2)] u(2) d(2) show ?thesis by (auto split: if_splits)
  qed
qed

lemma sort3_sorts:
  assumes "in_array xs lo" "in_array xs hi" "lo \<le> mid" "mid \<le> hi" "\<forall>x \<in> set xs. ok x"
  shows "within xs (sort3 c xs lo mid hi) lo hi"
    "cle c (at (sort3 c xs lo mid hi) lo) (at (sort3 c xs lo mid hi) mid)"
    "cle c (at (sort3 c xs lo mid hi) mid) (at (sort3 c xs lo mid hi) hi)"
proof -
  have m: "in_array xs mid" using assms by simp
  have w: "within ys (pqsswap ys mid k) lo hi" if "length ys = length xs" "k \<in> {lo, hi}" for ys k
    using that assms m by (intro within_pqsswap) auto
  define ys where "ys = (if c (at xs mid) (at xs lo) < 0 then pqsswap xs mid lo else xs)"
  have xy: "within xs ys lo hi" using w [of xs lo] by (simp add: ys_def)
  then have l: "length ys = length xs" by (simp add: within_def)
  have k: "ok (at ys lo)" "ok (at ys mid)" "ok (at ys hi)"
    using ok_at [OF ok_within [OF xy assms(5)]] assms(1,2) m l by simp_all
  have lm: "cle c (at ys lo) (at ys mid)"
    using assms m asym [of "at xs mid" "at xs lo"] by (auto simp: ys_def at_pqsswap intro!: nth_mem)
  have s3: "sort3 c xs lo mid hi = (if c (at ys hi) (at ys mid) < 0
      then (let zs = pqsswap ys mid hi in if c (at zs mid) (at zs lo) < 0 then pqsswap zs mid lo else zs) else ys)"
    unfolding sort3_def ys_def by (simp add: Let_def)
  have wh: "within xs (pqsswap ys mid hi) lo hi" using within_trans [OF xy w [of ys hi]] l by simp
  then have "within xs (pqsswap (pqsswap ys mid hi) mid lo) lo hi"
    using within_trans [OF wh w [of "pqsswap ys mid hi" lo]] l by simp
  with xy wh show "within xs (sort3 c xs lo mid hi) lo hi" unfolding s3 Let_def by simp
  have "cle c (at (sort3 c xs lo mid hi) lo) (at (sort3 c xs lo mid hi) mid)
    \<and> cle c (at (sort3 c xs lo mid hi) mid) (at (sort3 c xs lo mid hi) hi)"
  proof (cases "c (at ys hi) (at ys mid) < 0")
    case True
    define zs where "zs = pqsswap ys mid hi"
    have mh: "mid \<noteq> hi" "cle c (at ys hi) (at ys mid)" using True irrefl [OF k(2)] asym [OF k(3,2)] by auto
    then have z: "at zs mid = at ys hi" "at zs hi = at ys mid" "at zs lo = (if lo = mid then at ys hi else at ys lo)" "length zs = length ys"
      using l m assms by (auto simp: zs_def at_pqsswap)
    show ?thesis
      using s3 True z mh lm k asym [of "at zs mid" "at zs lo"] irrefl assms(1-4) m l
      by (auto simp: at_pqsswap zs_def [symmetric] Let_def split: if_splits)
  next
    case False
    then show ?thesis using s3 lm by simp
  qed
  then show "cle c (at (sort3 c xs lo mid hi) lo) (at (sort3 c xs lo mid hi) mid)"
    "cle c (at (sort3 c xs lo mid hi) mid) (at (sort3 c xs lo mid hi) hi)" by simp_all
qed

lemma partition_step:
  assumes "0 \<le> lo" "hi < int (length xs)" "2 \<le> hi - lo" "\<forall>x \<in> set xs. ok x"
  shows "\<exists>zs mid l r s' ys m. pq_setup c xs s lo hi = (zs, mid, l, r, s') \<and> part_loop c zs l r mid = Some (ys, m)
    \<and> within xs ys lo hi \<and> lo \<le> m \<and> m \<le> hi \<and> parted ys lo hi m"
proof (cases "hi - lo \<le> QSORT_MTR")
  case True
  let ?m = "lo + (hi - lo) div 2"
  let ?zs = "sort3 c xs lo ?m hi"
  have m: "lo < ?m" "?m < hi" "in_array xs lo" "in_array xs hi" using assms by auto
  note s3 = sort3_sorts [OF m(3,4) less_imp_le [OF m(1)] less_imp_le [OF m(2)] assms(4)]
  have "part_inv ?zs lo hi lo hi ?m"
    using s3 m assms by (auto simp: part_inv_def within_def dest!: order_antisym)
  moreover have "\<forall>x \<in> set ?zs. ok x" using set_within [OF s3(1)] assms(4) by simp
  ultimately obtain ys m' where "part_loop c ?zs lo hi ?m = Some (ys, m')" "within ?zs ys lo hi" "lo < m'" "m' < hi" "parted ys lo hi m'"
    using part_loop_parts by blast
  moreover have "pq_setup c xs s lo hi = (?zs, ?m, lo, hi, s)" using True by (simp add: pq_setup_def Let_def)
  ultimately show ?thesis using within_trans [OF s3(1)] by (intro exI conjI) auto
next
  case False
  obtain mid s' where p: "pq_choose_part c xs s lo (nat (hi - lo)) = (mid, s')" by fastforce
  then have "lo \<le> mid" "mid < hi" using pq_choose_part_range [of "nat (hi - lo)" lo c xs s] False by auto
  then have "part_inv xs lo hi (lo - 1) (hi + 1) mid" using assms by (auto simp: part_inv_def)
  from part_loop_parts [OF this assms(4)] obtain ys m where "part_loop c xs (lo - 1) (hi + 1) mid = Some (ys, m)"
    "within xs ys lo hi" "lo - 1 < m" "m < hi + 1" "parted ys lo hi m" by blast
  moreover have "pq_setup c xs s lo hi = (xs, mid, lo - 1, hi + 1, s')" using False p by (simp add: pq_setup_def)
  ultimately show ?thesis by (intro exI conjI) auto
qed

text \<open>The state of the sort: disjoint segments such that two elements out of order are always in one segment.\<close>

definition apart :: "int \<times> int \<Rightarrow> int \<times> int \<Rightarrow> bool" where
  "apart s t \<longleftrightarrow> snd s < fst t \<or> snd t < fst s"

definition segments :: "'a list \<Rightarrow> (int \<times> int) list \<Rightarrow> bool" where
  "segments xs segs \<longleftrightarrow> sorted_wrt apart segs \<and> (\<forall>(lo, hi) \<in> set segs. 0 \<le> lo \<and> hi < int (length xs))
     \<and> (\<forall>i j. 0 \<le> i \<and> i < j \<and> j < int (length xs) \<and> c (at xs j) (at xs i) < 0
          \<longrightarrow> (\<exists>(lo, hi) \<in> set segs. lo \<le> i \<and> j \<le> hi))"

lemma segments_whole: "segments xs [(0, int (length xs) - 1)]"
  by (auto simp: segments_def)

lemma sorted_wrt_apart_perm: "sorted_wrt apart ss \<Longrightarrow> mset ss = mset ts \<Longrightarrow> sorted_wrt apart ts"
proof (induction ss arbitrary: ts)
  case Nil
  then show ?case by simp
next
  case (Cons s ss)
  then obtain as bs where ts: "ts = as @ s # bs" by (metis list.set_intros(1) mset_eq_setD split_list)
  with Cons.prems(2) have m: "mset ss = mset (as @ bs)" by simp
  then have "set ss = set as \<union> set bs" by (metis mset_eq_setD set_append)
  with Cons.IH [OF _ m] Cons.prems(1) show ?case by (auto simp: ts sorted_wrt_append apart_def)
qed

lemma segments_perm: "mset ss = mset ts \<Longrightarrow> segments xs ss \<Longrightarrow> segments xs ts"
  using sorted_wrt_apart_perm [of ss ts] mset_eq_setD [of ss ts] by (simp add: segments_def)

lemma parted_no_inversion:
  assumes "parted ys lo hi m" "lo \<le> i" "i \<le> m" "m \<le> j" "j \<le> hi" "ok (at ys i)" "ok (at ys m)" "ok (at ys j)"
  shows "cle c (at ys i) (at ys j)"
proof -
  have "cle c (at ys i) (at ys m)" using assms irrefl by (cases "i = m") (auto simp: parted_def)
  moreover have "cle c (at ys m) (at ys j)" using assms irrefl by (cases "j = m") (auto simp: parted_def)
  ultimately show ?thesis using trans assms by blast
qed

lemma segments_split:
  assumes "segments xs ((lo, hi) # segs)" "within xs ys lo hi" "parted ys lo hi m" "lo \<le> m" "m \<le> hi" "\<forall>x \<in> set xs. ok x"
  shows "segments ys ((lo, m - 1) # (m + 1, hi) # segs)"
proof -
  have len: "length ys = length xs" using assms(2) by (simp add: within_def)
  have b: "0 \<le> lo" "hi < int (length xs)" using assms(1) by (auto simp: segments_def)
  have ok: "ok (at ys i)" if "in_array xs i" for i
    using ok_at [OF ok_within [OF assms(2,6)]] that len by simp
  have ap: "apart (lo, hi) t" if "t \<in> set segs" for t using assms(1) that by (auto simp: segments_def)
  have seg: "\<exists>(a, b) \<in> set ((lo, m - 1) # (m + 1, hi) # segs). a \<le> i \<and> j \<le> b"
    if ij: "0 \<le> i" "i < j" "j < int (length xs)" "c (at ys j) (at ys i) < 0" for i j
  proof -
    obtain k where k: "if lo \<le> i \<and> i \<le> hi then lo \<le> k \<and> k \<le> hi else k = i" "at ys i = at xs k"
      using within_source [OF assms(2) ij(1)] by blast
    obtain n where n: "if lo \<le> j \<and> j \<le> hi then lo \<le> n \<and> n \<le> hi else n = j" "at ys j = at xs n"
      using within_source [OF assms(2), of j] ij(1,2) by auto
    show ?thesis
    proof (cases "(lo \<le> i \<and> i \<le> hi) \<and> (lo \<le> j \<and> j \<le> hi)")
      case True
      then have "\<not> (i \<le> m \<and> m \<le> j)"
        using parted_no_inversion [OF assms(3), of i j] ok ij b assms(4,5) by auto
      with True ij(2) show ?thesis by auto
    next
      case False
      then have kn: "k < n" "0 \<le> k" "n < int (length xs)" using k(1) n(1) ij(1-3) b by (auto split: if_splits)
      have "c (at xs n) (at xs k) < 0" using ij(4) k(2) n(2) by simp
      with kn assms(1) obtain a e where ae: "(a, e) \<in> set ((lo, hi) # segs)" "a \<le> k" "n \<le> e" unfolding segments_def by blast
      have "(a, e) \<noteq> (lo, hi)" using False k(1) n(1) ae(2,3) kn(1) by (auto split: if_splits)
      then have mem: "(a, e) \<in> set segs" using ae(1) by auto
      moreover have "k = i \<and> n = j" using ap [OF mem] ae(2,3) k(1) n(1) kn(1) by (auto simp: apart_def split: if_splits)
      ultimately show ?thesis using ae(2,3) by auto
    qed
  qed
  have "sorted_wrt apart ((lo, m - 1) # (m + 1, hi) # segs)"
    using assms(1) ap assms(4,5) by (auto simp: segments_def apart_def)
  moreover have "\<forall>(a, b) \<in> set ((lo, m - 1) # (m + 1, hi) # segs). 0 \<le> a \<and> b < int (length ys)"
    using assms(1,4,5) len b by (auto simp: segments_def)
  ultimately show ?thesis using seg len unfolding segments_def by simp
qed

text \<open>Segments that need no more partitioning: short ones and those behind the part to be sorted.  The others are on the
  stack, and the one at depth \<open>d\<close> has at most \<open>N / 2 ^ d\<close> elements.\<close>

definition finished :: "int \<Rightarrow> (int \<times> int) list \<Rightarrow> bool" where
  "finished sf segs \<longleftrightarrow> (\<forall>(lo, hi) \<in> set segs. hi - lo \<le> 7 \<or> sf < lo)"

fun stack_ok :: "int \<Rightarrow> (int \<times> int) list \<Rightarrow> bool" where
  "stack_ok N [] \<longleftrightarrow> True"
| "stack_ok N ((lo, hi) # stack) \<longleftrightarrow> 8 \<le> hi - lo \<and> (hi - lo + 1) * 2 ^ length stack \<le> N \<and> stack_ok N stack"

definition todo :: "(int \<times> int) list \<Rightarrow> nat" where
  "todo segs = (\<Sum>(lo, hi) \<leftarrow> segs. nat (hi - lo + 1))"

lemma todo_simps [simp]: "todo [] = 0" "todo ((lo, hi) # segs) = nat (hi - lo + 1) + todo segs"
  by (simp_all add: todo_def)

lemma stack_depth:
  assumes "(16 :: int) * 2 ^ n \<le> N" "N < 2 ^ 64"
  shows "n + 1 < STACK_SIZE"
proof (rule ccontr)
  assume "\<not> n + 1 < STACK_SIZE"
  then have "(2 :: int) ^ 60 \<le> 2 ^ n" by (intro power_increasing) auto
  with assms show False by simp
qed

lemma pqsort_loop_sorts:
  assumes N: "N < 2 ^ 64"
  shows "segments xs ((lo, hi) # stack @ fin) \<Longrightarrow> stack_ok N ((lo, hi) # stack) \<Longrightarrow> finished sf fin \<Longrightarrow>
    \<forall>x \<in> set xs. ok x \<Longrightarrow> \<exists>ys s' fin'. pqsort_loop c sf xs s lo hi stack = Some (ys, s') \<and> mset ys = mset xs
      \<and> segments ys fin' \<and> finished sf fin'"
proof (induction "todo ((lo, hi) # stack)" arbitrary: xs s lo hi stack fin rule: less_induct)
  case less
  have b: "0 \<le> lo" "hi < int (length xs)" "8 \<le> hi - lo" using less.prems(1,2) by (auto simp: segments_def)
  then have "2 \<le> hi - lo" by simp
  from partition_step [OF b(1,2) this less.prems(4), of s] obtain zs mid l r s' ys m where
    p: "pq_setup c xs s lo hi = (zs, mid, l, r, s')" "part_loop c zs l r mid = Some (ys, m)"
    and w: "within xs ys lo hi" and m: "lo \<le> m" "m \<le> hi" and pm: "parted ys lo hi m" by blast
  have ys: "mset ys = mset xs" "\<forall>x \<in> set ys. ok x" using w ok_within [OF w less.prems(4)] by (simp_all add: within_def)
  have seg: "segments ys ((lo, m - 1) # (m + 1, hi) # stack @ fin)"
    by (rule segments_split [OF less.prems(1) w pm m less.prems(4)])
  have so: "stack_ok N stack" "(hi - lo + 1) * 2 ^ length stack \<le> N" using less.prems(2) by simp_all
  let ?right = "hi - m \<le> QSORT_TRESH \<or> sf \<le> m" and ?left = "m - lo \<le> QSORT_TRESH"
  have u: "pqsort_loop c sf xs s lo hi stack = (if ?right
        then if ?left then (case stack of [] \<Rightarrow> Some (ys, s') | (lo', hi') # stack' \<Rightarrow> pqsort_loop c sf ys s' lo' hi' stack')
             else pqsort_loop c sf ys s' lo (m - 1) stack
        else if ?left then pqsort_loop c sf ys s' (m + 1) hi stack
        else if STACK_SIZE \<le> length stack + 1 then None
        else if hi - m < m - lo then pqsort_loop c sf ys s' (m + 1) hi ((lo, m - 1) # stack)
        else pqsort_loop c sf ys s' lo (m - 1) ((m + 1, hi) # stack))"
    by (subst pqsort_loop.simps) (simp only: p prod.case option.case)
  have go: ?case if e: "pqsort_loop c sf xs s lo hi stack = pqsort_loop c sf ys s' lo' hi' stack'"
      and t: "todo ((lo', hi') # stack') < todo ((lo, hi) # stack)"
      and perm: "mset ((lo, m - 1) # (m + 1, hi) # stack @ fin) = mset ((lo', hi') # stack' @ fin')"
      and so': "stack_ok N ((lo', hi') # stack')" and f: "finished sf fin'" for lo' hi' stack' fin'
    using less.hyps [OF t segments_perm [OF perm seg] so' f ys(2), of s'] e ys(1) by auto
  consider (stop) "?right" "?left" "stack = []" | (pop) lo' hi' st where "?right" "?left" "stack = (lo', hi') # st"
    | (l) "?right" "\<not> ?left" | (r) "\<not> ?right" "?left" | (push) "\<not> ?right" "\<not> ?left"
    by (cases stack) auto
  then show ?case
  proof cases
    case stop
    with u ys(1) seg less.prems(3) show ?thesis
      by (intro exI [of _ ys] exI [of _ s'] exI [of _ "(lo, m - 1) # (m + 1, hi) # fin"]) (auto simp: finished_def)
  next
    case pop
    show ?thesis by (rule go [where fin' = "(lo, m - 1) # (m + 1, hi) # fin" and stack' = st])
      (use pop u so b less.prems(3) in \<open>auto simp: finished_def\<close>)
  next
    case l
    show ?thesis by (rule go [where fin' = "(m + 1, hi) # fin" and stack' = stack and lo' = lo and hi' = "m - 1"])
      (use l u so b m less.prems(3) in \<open>auto simp: finished_def intro: order_trans [OF mult_right_mono so(2)]\<close>)
  next
    case r
    show ?thesis by (rule go [where fin' = "(lo, m - 1) # fin" and stack' = stack and lo' = "m + 1" and hi' = hi])
      (use r u so b m less.prems(3) in \<open>auto simp: finished_def intro: order_trans [OF mult_right_mono so(2)]\<close>)
  next
    case push
    then have "16 * 2 ^ length stack \<le> N" using so(2) by (intro order_trans [OF mult_right_mono so(2)]) auto
    from stack_depth [OF this N] have d: "\<not> STACK_SIZE \<le> length stack + 1" by simp
    have sz: "k * 2 ^ length stack \<le> N" if "k \<le> hi - lo + 1" for k
      using that by (intro order_trans [OF mult_right_mono so(2)]) auto
    have sz2: "k * (2 * 2 ^ length stack) \<le> N" if "2 * k \<le> hi - lo + 1" for k
      using sz [OF that] by (simp add: mult.assoc mult.left_commute)
    show ?thesis
    proof (cases "hi - m < m - lo")
      case True
      show ?thesis by (rule go [where fin' = fin and stack' = "(lo, m - 1) # stack" and lo' = "m + 1" and hi' = hi])
        (use True push u so b m d sz [of "m - lo"] sz2 [of "hi - m"] less.prems(3) in auto)
    next
      case False
      show ?thesis by (rule go [where fin' = fin and stack' = "(m + 1, hi) # stack" and lo' = lo and hi' = "m - 1"])
        (use False push u so b m d sz [of "hi - m"] sz2 [of "m - lo"] less.prems(3) in auto)
    qed
  qed
qed

text \<open>The insertion sort.\<close>

lemma find_min_least:
  "\<forall>x \<in> set xs. ok x \<Longrightarrow> r < length xs \<Longrightarrow> find_min c xs r \<le> r \<and> (\<forall>i \<le> r. cle c (xs ! find_min c xs r) (xs ! i))"
proof (induction r)
  case 0
  then show ?case using irrefl by (simp add: find_min_def)
next
  case (Suc r)
  let ?m = "find_min c xs r"
  have ih: "?m \<le> r" "\<forall>i \<le> r. cle c (xs ! ?m) (xs ! i)" using Suc by auto
  have k: "ok (xs ! i)" if "i \<le> Suc r" for i using that Suc.prems by auto
  have "[1..<Suc (Suc r)] = [1..<Suc r] @ [Suc r]" by simp
  then have m: "find_min c xs (Suc r) = (if c (xs ! Suc r) (xs ! ?m) < 0 then Suc r else ?m)"
    unfolding find_min_def by (simp only: fold_append comp_def fold_simps)
  show ?case
  proof (cases "c (xs ! Suc r) (xs ! ?m) < 0")
    case True
    then have "cle c (xs ! Suc r) (xs ! ?m)" using asym k ih(1) by auto
    then have "cle c (xs ! Suc r) (xs ! i)" if "i \<le> Suc r" for i
      using trans [of "xs ! Suc r" "xs ! ?m" "xs ! i"] ih k that irrefl by (cases "i = Suc r") auto
    with True show ?thesis unfolding m by auto
  next
    case False
    then have "cle c (xs ! ?m) (xs ! i)" if "i \<le> Suc r" for i using that ih(2) by (cases "i = Suc r") auto
    with False ih(1) show ?thesis unfolding m by auto
  qed
qed

lemma insert_pos_finds:
  "lo < l \<Longrightarrow> cle c (xs ! 0) (xs ! l) \<Longrightarrow> \<forall>i. lo < i \<and> i < l \<longrightarrow> c (xs ! l) (xs ! i) < 0 \<Longrightarrow>
    \<exists>p. insert_pos c xs l lo = Some p \<and> 1 \<le> p \<and> p \<le> l \<and> cle c (xs ! (p - 1)) (xs ! l)
      \<and> (\<forall>i. p \<le> i \<and> i < l \<longrightarrow> c (xs ! l) (xs ! i) < 0)"
proof (induction lo)
  case 0
  then show ?case by auto
next
  case (Suc lo)
  show ?case
  proof (cases "c (xs ! l) (xs ! Suc lo) < 0")
    case True
    then have "\<forall>i. lo < i \<and> i < l \<longrightarrow> c (xs ! l) (xs ! i) < 0" using Suc.prems(3) by (metis Suc_lessI)
    with Suc True show ?thesis by simp
  next
    case False
    with Suc.prems show ?thesis by (auto simp: Suc_le_eq)
  qed
qed

lemma move_down_sorted:
  assumes "sorted_wrt (cle c) (take l xs)" "l < length xs" "1 \<le> p" "p \<le> l" "cle c (xs ! (p - 1)) (xs ! l)"
    "\<forall>i. p \<le> i \<and> i < l \<longrightarrow> c (xs ! l) (xs ! i) < 0" "\<forall>x \<in> set xs. ok x"
  shows "sorted_wrt (cle c) (take (Suc l) (move_down xs p l))" "mset (take (Suc l) (move_down xs p l)) = mset (take (Suc l) xs)"
    "drop (Suc l) (move_down xs p l) = drop (Suc l) xs" "move_down xs p l ! 0 = xs ! 0"
proof -
  let ?a = "take p xs" and ?b = "take (l - p) (drop p xs)" and ?x = "xs ! l"
  have ab: "take l xs = ?a @ ?b" using assms(4) by (metis le_add_diff_inverse take_add)
  have len: "length ?a = p" "length ?b = l - p" using assms(2,4) by auto
  have z: "move_down xs p l = (?a @ ?x # ?b) @ drop (Suc l) xs" by (simp add: move_down_def)
  have "length (?a @ ?x # ?b) = Suc l" using len assms(4) by simp
  then have t: "take (Suc l) (move_down xs p l) = ?a @ ?x # ?b" "drop (Suc l) (move_down xs p l) = drop (Suc l) xs"
    unfolding z by (metis append_eq_conv_conj)+
  show "drop (Suc l) (move_down xs p l) = drop (Suc l) xs" by (rule t(2))
  show "move_down xs p l ! 0 = xs ! 0" unfolding z using len assms(3) by (simp add: nth_append)
  show "mset (take (Suc l) (move_down xs p l)) = mset (take (Suc l) xs)"
    unfolding t(1) take_Suc_conv_app_nth [OF assms(2)] ab by simp
  have srt: "sorted_wrt (cle c) ?a" "sorted_wrt (cle c) ?b" "\<forall>x \<in> set ?a. \<forall>y \<in> set ?b. cle c x y"
    using assms(1) unfolding ab by (auto simp: sorted_wrt_append)
  have k: "ok (xs ! i)" if "i \<le> l" for i using that assms(2,7) by auto
  have "cle c y ?x" if "y \<in> set ?a" for y
  proof -
    obtain i where i: "i < p" "y = xs ! i" using \<open>y \<in> set ?a\<close> len by (metis in_set_conv_nth nth_take)
    have "i = p - 1 \<or> cle c (xs ! i) (xs ! (p - 1))"
      using sorted_wrt_nth_less [OF srt(1), of i "p - 1"] i len(1) assms(3) by fastforce
    then show ?thesis using assms(3-5) trans [of "xs ! i" "xs ! (p - 1)" ?x] k i by auto
  qed
  moreover have "cle c ?x y" if y: "y \<in> set ?b" for y
  proof -
    obtain i where i: "i < l - p" "y = xs ! (p + i)" using y len assms(2,4) by (auto simp: in_set_conv_nth)
    then show ?thesis using assms(6) asym [of ?x y] k by auto
  qed
  ultimately show "sorted_wrt (cle c) (take (Suc l) (move_down xs p l))"
    unfolding t(1) using srt by (auto simp: sorted_wrt_append)
qed

lemma insert_loop_sorts:
  "1 \<le> k \<Longrightarrow> k \<le> Suc hi \<Longrightarrow> hi < length xs \<Longrightarrow> sorted_wrt (cle c) (take k xs) \<Longrightarrow>
    \<forall>x \<in> set xs. ok x \<Longrightarrow> \<forall>x \<in> set (take (Suc hi) xs). cle c (xs ! 0) x \<Longrightarrow>
    \<exists>ys. insert_loop c xs [k..<Suc hi] = Some ys \<and> sorted_wrt (cle c) (take (Suc hi) ys)
      \<and> mset (take (Suc hi) ys) = mset (take (Suc hi) xs) \<and> drop (Suc hi) ys = drop (Suc hi) xs"
proof (induction "Suc hi - k" arbitrary: k xs)
  case 0
  then show ?case by simp
next
  case (Suc n)
  have k: "k < Suc hi" "k < length xs" "[k..<Suc hi] = k # [Suc k..<Suc hi]" using Suc.hyps(2) Suc.prems by (auto simp: upt_rec)
  have "xs ! k \<in> set (take (Suc hi) xs)" using k by (metis (no_types, lifting) in_set_conv_nth length_take min_less_iff_conj nth_take)
  then have s0: "cle c (xs ! 0) (xs ! k)" using Suc.prems(6) by blast
  from insert_pos_finds [of "k - 1" k xs, OF _ s0] Suc.prems(1) obtain p where p: "insert_pos c xs k (k - 1) = Some p" "1 \<le> p" "p \<le> k"
    "cle c (xs ! (p - 1)) (xs ! k)" "\<forall>i. p \<le> i \<and> i < k \<longrightarrow> c (xs ! k) (xs ! i) < 0" by fastforce
  define zs where "zs = (if p \<noteq> k then move_down xs p k else xs)"
  have "move_down xs k k = xs" using k(2) by (simp add: move_down_def id_take_nth_drop [symmetric])
  then have zs: "zs = move_down xs p k" by (simp add: zs_def)
  note md = move_down_sorted [OF Suc.prems(4) k(2) p(2-5) Suc.prems(5), folded zs]
  have m: "mset zs = mset xs" by (metis append_take_drop_id md(2,3) mset_append)
  have "take (Suc hi) zs = take (Suc k) zs @ take (hi - k) (drop (Suc k) zs)" for zs :: "'a list"
    using k(1) by (metis Suc_diff_Suc add_diff_inverse_nat diff_Suc_Suc less_Suc_eq_le not_less_eq take_add not_less)
  then have pre: "mset (take (Suc hi) zs) = mset (take (Suc hi) xs)" using md(2,3) by simp
  have dr: "drop (Suc hi) zs = drop (Suc hi) xs" using k(1) md(3) by (metis Suc_leI drop_drop le_add_diff_inverse2)
  have len: "hi < length zs" "length zs = length xs" using m Suc.prems(3) mset_eq_length [OF m] by simp_all
  have okz: "\<forall>x \<in> set zs. ok x" using Suc.prems(5) mset_eq_setD [OF m] by simp
  have "\<forall>x \<in> set (take (Suc hi) zs). cle c (zs ! 0) x" using Suc.prems(6) mset_eq_setD [OF pre] md(4) by simp
  moreover have "n = Suc hi - Suc k" "1 \<le> Suc k" "Suc k \<le> Suc hi" using Suc.hyps(2) k(1) by simp_all
  ultimately obtain ys where "insert_loop c zs [Suc k..<Suc hi] = Some ys" "sorted_wrt (cle c) (take (Suc hi) ys)"
    "mset (take (Suc hi) ys) = mset (take (Suc hi) zs)" "drop (Suc hi) ys = drop (Suc hi) zs"
    using Suc.hyps(1) [OF _ _ _ len(1) md(1) okz] by blast
  then show ?case using p(1) pre dr unfolding k(3) by (simp add: zs_def [symmetric])
qed

lemma sorted_prefix_below:
  assumes "sorted_wrt (cle c) P" "mset P = mset Q" "\<forall>x \<in> set P. ok x" "ok y"
    "\<And>k. k < n \<Longrightarrow> cle c (Q ! k) y" "n \<le> length Q" "i < n"
  shows "cle c (P ! i) y"
proof (rule ccontr)
  assume gt: "\<not> cle c (P ! i) y"
  have i: "i < length P" using assms(2,6,7) mset_eq_length by fastforce
  have "\<not> cle c x y" if x: "x \<in> set (drop i P)" for x
  proof
    assume le: "cle c x y"
    obtain j where j: "i + j < length P" "x = P ! (i + j)"
      using x by (metis add.commute in_set_conv_nth length_drop less_diff_conv nth_drop i less_imp_le)
    have "cle c (P ! i) x"
      using sorted_wrt_nth_less [OF assms(1), of i "i + j"] irrefl assms(3) i j by (cases "j = 0") auto
    then show False using gt trans [of "P ! i" x y] le assms(3,4) i j by auto
  qed
  then have "filter (\<lambda>x. cle c x y) (drop i P) = []" by (simp add: filter_empty_conv)
  then have "length (filter (\<lambda>x. cle c x y) P) \<le> i"
    using length_filter_le [of "\<lambda>x. cle c x y" "take i P"] filter_append [of "\<lambda>x. cle c x y" "take i P" "drop i P"] i by simp
  moreover have "length (filter (\<lambda>x. cle c x y) P) = length (filter (\<lambda>x. cle c x y) Q)"
    using assms(2) by (metis mset_filter size_mset)
  moreover have "filter (\<lambda>x. cle c x y) (take n Q) = take n Q"
    using assms(5,6) by (auto simp: filter_id_conv in_set_conv_nth)
  then have "n \<le> length (filter (\<lambda>x. cle c x y) Q)"
    using assms(6) filter_append [of "\<lambda>x. cle c x y" "take n Q" "drop n Q"] by simp
  ultimately show False using assms(7) by simp
qed

lemma insertion_phase_sorts:
  assumes "2 \<le> length xs" "\<forall>x \<in> set xs. ok x" "0 < esize"
    and near: "\<And>i j. i < j \<Longrightarrow> j < length xs \<Longrightarrow> c (xs ! j) (xs ! i) < 0 \<Longrightarrow> j \<le> i + 7 \<or> sf < i"
  shows "\<exists>ys. insertion_phase c esize sf xs = Some ys \<and> mset ys = mset xs
    \<and> (\<forall>i j. i < j \<and> j < length xs \<and> i < sf \<longrightarrow> cle c (ys ! i) (ys ! j))"
proof -
  define hi where "hi = min (length xs - 1) (sf + 8)"
  define r where "r = min ((8 * esize + 4) div esize) hi"
  define m where "m = find_min c xs r"
  define zs where "zs = pqsswap xs 0 (int m)"
  have "8 * esize div esize \<le> (8 * esize + 4) div esize" by (intro div_le_mono) simp
  then have e8: "8 \<le> (8 * esize + 4) div esize" using assms(3) by simp
  have hi: "hi < length xs" "1 \<le> hi" "r \<le> hi" using assms(1) e8 by (auto simp: hi_def r_def)
  have m: "m \<le> r" "\<And>i. i \<le> r \<Longrightarrow> cle c (xs ! m) (xs ! i)"
    using find_min_least [OF assms(2), of r] hi by (auto simp: m_def)
  have k: "ok (xs ! i)" if "i < length xs" for i using that assms(2) by auto
  have least: "cle c (xs ! m) (xs ! i)" if "i \<le> hi" for i
  proof (cases "i \<le> r")
    case False
    then have "8 < i" using e8 that by (auto simp: r_def)
    then have l0: "cle c (xs ! 0) (xs ! i)" using near [of 0 i] that hi(1) by auto
    show ?thesis using trans [OF k [of m] k [of 0] k [of i] m(2) [of 0] l0] m(1) that hi by linarith
  qed (rule m(2))
  have z0: "zs ! 0 = xs ! m" and zl: "length zs = length xs" using at_pqsswap [where xs = xs and i = 0 and j = "int m" and k = 0] m(1) hi
    by (simp_all add: zs_def) (metis list.size(3) not_less_zero)
  have pre: "mset (take (Suc hi) zs) = mset (take (Suc hi) xs)" and dr: "drop (Suc hi) zs = drop (Suc hi) xs"
    using m(1) hi mset_pqsswap [where xs = "take (Suc hi) xs" and i = 0 and j = "int m"] by (auto simp: zs_def take_pqsswap drop_pqsswap)
  have mz: "mset zs = mset xs" by (metis append_take_drop_id mset_append pre dr)
  have "\<forall>x \<in> set (take (Suc hi) xs). cle c (xs ! m) x"
    using least hi(1) by (auto simp: in_set_conv_nth less_Suc_eq_le)
  then have min0: "\<forall>x \<in> set (take (Suc hi) zs). cle c (zs ! 0) x" using mset_eq_setD [OF pre] z0 by simp
  have "zs ! 1 \<in> set (take (Suc hi) zs)" using hi zl by (auto simp: in_set_conv_nth intro!: exI [of _ 1])
  then have s2: "sorted_wrt (cle c) (take 2 zs)"
    using min0 hi zl by (cases zs; cases "tl zs") auto
  obtain ys where ys: "insert_loop c zs [2..<Suc hi] = Some ys" "sorted_wrt (cle c) (take (Suc hi) ys)"
      "mset (take (Suc hi) ys) = mset (take (Suc hi) zs)" "drop (Suc hi) ys = drop (Suc hi) zs"
    using insert_loop_sorts [OF _ _ _ s2 _ min0] hi zl assms(2) mset_eq_setD [OF mz] by auto
  have my: "mset ys = mset xs" by (metis append_take_drop_id mset_append ys(3,4) mz)
  then have ly: "length ys = length xs" by (rule mset_eq_length)
  have "cle c (ys ! i) (ys ! j)" if ij: "i < j" "j < length xs" "i < sf" for i j
  proof (cases "j \<le> hi")
    case True
    then show ?thesis using sorted_wrt_nth_less [OF ys(2), of i j] ij ly by simp
  next
    case False
    then have h: "hi = sf + 8" using ij by (auto simp: hi_def)
    have "drop (Suc hi) ys ! (j - Suc hi) = drop (Suc hi) xs ! (j - Suc hi)" using ys(4) dr by simp
    then have j: "ys ! j = xs ! j" using False ij ly by simp
    have "cle c (take (Suc hi) xs ! n) (xs ! j)" if "n < Suc sf" for n
      using near [of n j] that False ij h by auto
    moreover have "mset (take (Suc hi) ys) = mset (take (Suc hi) xs)" "\<forall>x \<in> set (take (Suc hi) ys). ok x"
      using ys(3) pre assms(2) mset_eq_setD [OF my] by (auto dest: in_set_takeD)
    ultimately have "cle c (take (Suc hi) ys ! i) (xs ! j)"
      using sorted_prefix_below [OF ys(2), where n = "Suc sf"] k [OF ij(2)] ij(3) h hi(1) by auto
    then show ?thesis using ij False h j by simp
  qed
  then show ?thesis using ys(1) my by (auto simp: insertion_phase_def Let_def hi_def r_def m_def zs_def)
qed

lemma pqsort_sorts:
  assumes "\<forall>x \<in> set xs. ok x" "0 < esize" "length xs < 2 ^ 64"
  shows "\<exists>ys s'. psync_pqsort c esize sf xs s = Some (ys, s') \<and> mset ys = mset xs
    \<and> (\<forall>i j. i < j \<and> j < length xs \<and> i < sf \<longrightarrow> cle c (ys ! i) (ys ! j))"
proof (cases "8 < length xs")
  case True
  let ?n = "int (length xs)"
  have "?n < 2 ^ 64" "stack_ok ?n [(0, ?n - 1)]" "finished (int sf) []" using True assms(3) by (auto simp: finished_def)
  from pqsort_loop_sorts [OF this(1) _ this(2,3) assms(1), of s] segments_whole [of xs] obtain zs s' fin where
    l: "pqsort_loop c (int sf) xs s 0 (?n - 1) [] = Some (zs, s')" "mset zs = mset xs" "segments zs fin" "finished (int sf) fin"
    by auto
  have len: "length zs = length xs" by (rule mset_eq_length [OF l(2)])
  have okz: "\<forall>x \<in> set zs. ok x" using assms(1) mset_eq_setD [OF l(2)] by simp
  have "j \<le> i + 7 \<or> sf < i" if ij: "i < j" "j < length zs" "c (zs ! j) (zs ! i) < 0" for i j
  proof -
    have "\<exists>(lo, hi) \<in> set fin. lo \<le> int i \<and> int j \<le> hi" using l(3) ij by (simp add: segments_def)
    then obtain lo hi where "(lo, hi) \<in> set fin" "lo \<le> int i" "int j \<le> hi" by blast
    then show ?thesis using l(4) by (auto simp: finished_def)
  qed
  with insertion_phase_sorts [OF _ okz assms(2), of sf] True len obtain ys where
    "insertion_phase c esize sf zs = Some ys" "mset ys = mset zs"
    "\<forall>i j. i < j \<and> j < length zs \<and> i < sf \<longrightarrow> cle c (ys ! i) (ys ! j)" by auto
  with True l len show ?thesis by (simp add: psync_pqsort_def)
next
  case False
  show ?thesis
  proof (cases "length xs \<le> 1")
    case True
    then show ?thesis by (simp add: psync_pqsort_def)
  next
    case long: False
    then have "\<exists>ys. insertion_phase c esize sf xs = Some ys \<and> mset ys = mset xs
        \<and> (\<forall>i j. i < j \<and> j < length xs \<and> i < sf \<longrightarrow> cle c (ys ! i) (ys ! j))"
      using False by (intro insertion_phase_sorts [OF _ assms(1,2)]) auto
    with False long show ?thesis by (auto simp: psync_pqsort_def)
  qed
qed

text \<open>Partitioning keeps the position in one segment until it is alone.\<close>

definition past :: "int \<Rightarrow> (int \<times> int) list \<Rightarrow> bool" where
  "past sf segs \<longleftrightarrow> (\<forall>(lo, hi) \<in> set segs. hi \<le> lo \<or> sf < lo \<or> hi < sf)"

lemma past_no_inversion:
  assumes "segments ys segs" "past sf segs" "0 \<le> i" "i \<le> sf" "sf \<le> j" "i < j" "j < int (length ys)"
  shows "cle c (at ys i) (at ys j)"
proof
  assume "c (at ys j) (at ys i) < 0"
  then have "\<exists>(lo, hi) \<in> set segs. lo \<le> i \<and> j \<le> hi" using assms by (simp add: segments_def)
  then obtain lo hi where "(lo, hi) \<in> set segs" "lo \<le> i" "j \<le> hi" by blast
  then show False using assms by (auto simp: past_def)
qed

lemma qpartition_loop_parts:
  "segments xs ((lo, hi) # fin) \<Longrightarrow> past sf fin \<Longrightarrow> lo \<le> sf \<Longrightarrow> sf \<le> hi \<Longrightarrow> \<forall>x \<in> set xs. ok x \<Longrightarrow>
    \<exists>ys s' fin'. qpartition_loop c sf xs s lo hi = Some (ys, s') \<and> mset ys = mset xs \<and> segments ys fin' \<and> past sf fin'"
proof (induction "nat (hi - lo)" arbitrary: xs s lo hi fin rule: less_induct)
  case less
  have b: "0 \<le> lo" "hi < int (length xs)" using less.prems(1) by (auto simp: segments_def)
  show ?case
  proof (cases "hi - lo \<le> 2")
    case True
    let ?m = "lo + (hi - lo) div 2"
    let ?ys = "sort3 c xs lo ?m hi"
    have m: "in_array xs lo" "in_array xs hi" "lo \<le> ?m" "?m \<le> hi" "?m - 1 \<le> lo" "hi \<le> ?m + 1" using True b less.prems(3,4) by auto
    note s3 = sort3_sorts [OF m(1-4) less.prems(5)]
    have "i = lo" if "lo \<le> i" "i < ?m" for i using that m(5) by linarith
    moreover have "i = hi" if "?m < i" "i \<le> hi" for i using that m(6) by linarith
    ultimately have "parted ?ys lo hi ?m" using s3(2,3) by (auto simp: parted_def)
    then have "segments ?ys ((lo, ?m - 1) # (?m + 1, hi) # fin)"
      by (rule segments_split [OF less.prems(1) s3(1) _ m(3,4) less.prems(5)])
    moreover have "past sf ((lo, ?m - 1) # (?m + 1, hi) # fin)" using less.prems(2) m(5,6) by (auto simp: past_def)
    moreover have "qpartition_loop c sf xs s lo hi = Some (?ys, s)"
      using True by (subst qpartition_loop.simps) (simp add: pq_setup_def Let_def)
    ultimately show ?thesis using s3(1) unfolding within_def by blast
  next
    case False
    then have "2 \<le> hi - lo" by simp
    from partition_step [OF b this less.prems(5), of s] obtain zs mid l r s' ys m where
      p: "pq_setup c xs s lo hi = (zs, mid, l, r, s')" "part_loop c zs l r mid = Some (ys, m)"
      and w: "within xs ys lo hi" and m: "lo \<le> m" "m \<le> hi" and pm: "parted ys lo hi m" by blast
    have ys: "mset ys = mset xs" "\<forall>x \<in> set ys. ok x" using w ok_within [OF w less.prems(5)] by (simp_all add: within_def)
    have seg: "segments ys ((lo, m - 1) # (m + 1, hi) # fin)"
      by (rule segments_split [OF less.prems(1) w pm m less.prems(5)])
    have u: "qpartition_loop c sf xs s lo hi = (if m < sf then qpartition_loop c sf ys s' (m + 1) hi
        else if sf < m then qpartition_loop c sf ys s' lo (m - 1) else Some (ys, s'))"
      using False p by (subst qpartition_loop.simps) simp
    consider "m < sf" | "sf < m" | "sf = m" by linarith
    then show ?thesis
    proof cases
      case 1
      with m less.prems(2) have "past sf ((lo, m - 1) # fin)" by (auto simp: past_def)
      moreover have "segments ys ((m + 1, hi) # (lo, m - 1) # fin)" using seg by (rule segments_perm [rotated]) simp
      ultimately show ?thesis using less.hyps [of hi "m + 1" ys _ s'] 1 u ys less.prems(4) m by auto
    next
      case 2
      with m less.prems(2) have "past sf ((m + 1, hi) # fin)" by (auto simp: past_def)
      then show ?thesis using less.hyps [of "m - 1" lo ys "(m + 1, hi) # fin" s'] 2 u ys seg less.prems(3) m by auto
    next
      case 3
      with m less.prems(2) have "past sf ((lo, m - 1) # (m + 1, hi) # fin)" by (auto simp: past_def)
      with 3 u ys seg show ?thesis by (intro exI conjI) auto
    qed
  qed
qed

lemma qpartition_parts:
  assumes "\<forall>x \<in> set xs. ok x" "sf < length xs"
  shows "\<exists>ys s'. psync_qpartition c sf xs s = Some (ys, s') \<and> mset ys = mset xs
    \<and> (\<forall>i j. i \<le> sf \<and> sf \<le> j \<and> i < j \<and> j < length xs \<longrightarrow> cle c (ys ! i) (ys ! j))"
proof (cases "length xs \<le> 1")
  case True
  then show ?thesis by (simp add: psync_qpartition_def)
next
  case False
  from qpartition_loop_parts [OF segments_whole [of xs], of "int sf" s] assms obtain ys s' fin where
    l: "qpartition_loop c (int sf) xs s 0 (int (length xs) - 1) = Some (ys, s')" "mset ys = mset xs" "segments ys fin" "past (int sf) fin"
    by (auto simp: past_def)
  have "cle c (ys ! i) (ys ! j)" if "i \<le> sf" "sf \<le> j" "i < j" "j < length xs" for i j
    using past_no_inversion [OF l(3,4), of "int i" "int j"] that mset_eq_length [OF l(2)] by simp
  with False l(1,2) show ?thesis by (simp add: psync_qpartition_def)
qed

end

end
