(* ===== verification/Ppagecache.thy ===== *)
theory Ppagecache
  imports Pqsort
begin

section \<open>Eviction of cached pages (\<open>ppagecache.c\<close>)\<close>

text \<open>
  The choice of the pages that \<^verbatim>\<open>clean_cache\<close> removes from the read cache: the rows of the table of cached pages are
  loaded, shares of them are reserved by several criteria with \<^verbatim>\<open>psync_qpartition\<close>, and what is left is sorted by id
  and freed.  The rows are an argument (they come from the database); reading them in batches continues behind the last
  id, so the batches together are the list of rows by id.  The statement that frees a page is the list of ids
  in the order in which it is run; pausing between statements is left out.
\<close>

record pagecache_entry =
  lastuse :: u32
  entry_id :: u32
  usecnt :: "16 word"
  isfirst :: int
  isxfirst :: int

text \<open>\<open>to_int\<close> is the conversion to a signed 32-bit integer.\<close>

definition to_int :: "int \<Rightarrow> int" where
  "to_int x = signed_take_bit 31 x"

definition lastuse_diff :: "pagecache_entry \<Rightarrow> pagecache_entry \<Rightarrow> int" where
  "lastuse_diff e1 e2 = to_int (uint (lastuse e2) - uint (lastuse e1))"

definition pagecache_entry_cmp_lastuse :: "pagecache_entry \<Rightarrow> pagecache_entry \<Rightarrow> int" where
  "pagecache_entry_cmp_lastuse e1 e2 = lastuse_diff e1 e2"

text \<open>The code has this function four times, for 2, 4, 8 and 16 uses.\<close>

definition pagecache_entry_cmp_usecnt_lastuse :: "16 word \<Rightarrow> pagecache_entry \<Rightarrow> pagecache_entry \<Rightarrow> int" where
  "pagecache_entry_cmp_usecnt_lastuse t e1 e2 =
     (if t \<le> usecnt e1 \<and> usecnt e2 < t then -1
      else if t \<le> usecnt e2 \<and> usecnt e1 < t then 1
      else lastuse_diff e1 e2)"

definition pagecache_entry_cmp_id :: "pagecache_entry \<Rightarrow> pagecache_entry \<Rightarrow> int" where
  "pagecache_entry_cmp_id e1 e2 = to_int (to_int (uint (entry_id e1)) - to_int (uint (entry_id e2)))"

definition pagecache_entry_cmp_xfirst_pages :: "pagecache_entry \<Rightarrow> pagecache_entry \<Rightarrow> int" where
  "pagecache_entry_cmp_xfirst_pages e1 e2 =
     (let d = isxfirst e2 - isxfirst e1 in if d \<noteq> 0 then d else lastuse_diff e1 e2)"

definition pagecache_entry_cmp_first_pages :: "pagecache_entry \<Rightarrow> pagecache_entry \<Rightarrow> int" where
  "pagecache_entry_cmp_first_pages e1 e2 =
     (let d = isfirst e2 - isfirst e1 in
      if d \<noteq> 0 then d
      else if isfirst e1 \<noteq> 0 then lastuse_diff e1 e2
      else let d = isxfirst e2 - isxfirst e1 in if d \<noteq> 0 then d else lastuse_diff e1 e2)"

text \<open>Loading: \<open>isfirst\<close> and \<open>isxfirst\<close> are computed from the time of the last use.\<close>

record pagecache_row =
  row_id :: u64
  row_pageid :: u64
  row_lastuse :: u64
  row_usecnt :: u64
  row_type :: u64

abbreviation PAGE_TYPE_READ :: u64 where "PAGE_TYPE_READ \<equiv> 1"
abbreviation PSYNC_FS_FIRST_PAGES_UNDER_ID :: u64 where "PSYNC_FS_FIRST_PAGES_UNDER_ID \<equiv> 32"
abbreviation PSYNC_FS_XFIRST_PAGES_UNDER_ID :: u64 where "PSYNC_FS_XFIRST_PAGES_UNDER_ID \<equiv> 256"

definition load_entry :: "pagecache_row \<Rightarrow> pagecache_entry" where
  "load_entry row = \<lparr>lastuse = ucast (row_lastuse row), entry_id = ucast (row_id row),
     usecnt = (if 0xffff < row_usecnt row then 0xffff else ucast (row_usecnt row)),
     isfirst = of_bool (row_lastuse row < PSYNC_FS_FIRST_PAGES_UNDER_ID),
     isxfirst = of_bool (row_lastuse row < PSYNC_FS_XFIRST_PAGES_UNDER_ID)\<rparr>"

definition load_entries :: "nat \<Rightarrow> pagecache_row list \<Rightarrow> pagecache_entry list" where
  "load_entries cnt rows = take cnt (map load_entry (filter (\<lambda>r. row_type r = PAGE_TYPE_READ) rows))"

text \<open>One reservation: the part kept and the part that the next criterion works on.\<close>

definition reserve :: "(pagecache_entry \<Rightarrow> pagecache_entry \<Rightarrow> int) \<Rightarrow> nat \<Rightarrow> nat \<Rightarrow> pagecache_entry list \<Rightarrow> pq_state
    \<Rightarrow> (pagecache_entry list \<times> pagecache_entry list \<times> pq_state) option" where
  "reserve c percent ocnt entries s =
     (let rcnt = percent * ocnt div 100 in
      map_option (\<lambda>(es, s). (take rcnt es, drop rcnt es, s)) (psync_qpartition c rcnt entries s))"

fun reserve_all :: "nat \<Rightarrow> ((pagecache_entry \<Rightarrow> pagecache_entry \<Rightarrow> int) \<times> nat) list \<Rightarrow> pagecache_entry list \<Rightarrow> pq_state
    \<Rightarrow> (pagecache_entry list list \<times> pagecache_entry list \<times> pq_state) option" where
  "reserve_all ocnt [] entries s = Some ([], entries, s)"
| "reserve_all ocnt ((c, percent) # cs) entries s =
     Option.bind (reserve c percent ocnt entries s) (\<lambda>(kept, rest, s).
       map_option (\<lambda>(ks, rest, s). (kept # ks, rest, s)) (reserve_all ocnt cs rest s))"

abbreviation ENTRY_SIZE :: nat where "ENTRY_SIZE \<equiv> 12"

definition clean_cache :: "nat \<Rightarrow> pagecache_row list \<Rightarrow> pq_state
    \<Rightarrow> (pagecache_entry list list \<times> pagecache_entry list \<times> pq_state) option" where
  "clean_cache cnt rows s =
     (let entries = load_entries cnt rows in
      Option.bind (reserve_all (length entries)
          [(pagecache_entry_cmp_first_pages, 15), (pagecache_entry_cmp_xfirst_pages, 5)] entries s) (\<lambda>(kept1, entries, s).
      Option.bind (reserve_all (length entries)
          [(pagecache_entry_cmp_lastuse, 40), (pagecache_entry_cmp_usecnt_lastuse 2, 20),
           (pagecache_entry_cmp_usecnt_lastuse 4, 15), (pagecache_entry_cmp_usecnt_lastuse 8, 10),
           (pagecache_entry_cmp_usecnt_lastuse 16, 5)] entries s) (\<lambda>(kept2, entries, s).
      map_option (\<lambda>(entries, s). (kept1 @ kept2, entries, s))
        (psync_pqsort pagecache_entry_cmp_id ENTRY_SIZE (length entries) entries s))))"

subsection \<open>The comparisons are orders\<close>

text \<open>Times and ids below \<^verbatim>\<open>2^31\<close>, for which differences fit a signed 32-bit integer.\<close>

definition small :: "pagecache_entry \<Rightarrow> bool" where
  "small e \<longleftrightarrow> lastuse e < 2 ^ 31 \<and> entry_id e < 2 ^ 31"

lemma to_int_id: "- (2 ^ 31) \<le> x \<Longrightarrow> x < 2 ^ 31 \<Longrightarrow> to_int x = x"
  unfolding to_int_def by (rule signed_take_bit_int_eq_self) simp_all

lemma to_int_diff: "0 \<le> a \<Longrightarrow> a < 2 ^ 31 \<Longrightarrow> 0 \<le> b \<Longrightarrow> b < 2 ^ 31 \<Longrightarrow> to_int (a - b) = a - b"
  by (intro to_int_id) auto

lemma uint_small: "x < 2 ^ 31 \<Longrightarrow> 0 \<le> uint x \<and> uint x < 2 ^ 31" for x :: u32
  by (simp add: word_less_def)

lemma lastuse_diff_small: "small e1 \<Longrightarrow> small e2 \<Longrightarrow> lastuse_diff e1 e2 = uint (lastuse e2) - uint (lastuse e1)"
  unfolding lastuse_diff_def small_def
  using uint_small [of "lastuse e1"] uint_small [of "lastuse e2"] by (intro to_int_diff) blast+

lemma cmp_id_small:
  assumes "small e1" "small e2"
  shows "pagecache_entry_cmp_id e1 e2 = uint (entry_id e1) - uint (entry_id e2)"
proof -
  have b: "0 \<le> uint (entry_id e) \<and> uint (entry_id e) < 2 ^ 31" if "small e" for e
    using that uint_small [of "entry_id e"] by (simp add: small_def)
  then have "to_int (uint (entry_id e)) = uint (entry_id e)" if "small e" for e
    using b [OF that] by (intro to_int_id) linarith+
  then show ?thesis unfolding pagecache_entry_cmp_id_def using assms b to_int_diff by simp
qed

interpretation lru: compar pagecache_entry_cmp_lastuse small
  by unfold_locales (auto simp: pagecache_entry_cmp_lastuse_def lastuse_diff_small)

interpretation by_id: compar pagecache_entry_cmp_id small
  by unfold_locales (auto simp: cmp_id_small)

interpretation used: compar "pagecache_entry_cmp_usecnt_lastuse t" small for t
  by unfold_locales (auto simp: pagecache_entry_cmp_usecnt_lastuse_def lastuse_diff_small split: if_splits)

interpretation xfirst: compar pagecache_entry_cmp_xfirst_pages small
  by unfold_locales (auto simp: pagecache_entry_cmp_xfirst_pages_def lastuse_diff_small Let_def split: if_splits)

interpretation first: compar pagecache_entry_cmp_first_pages small
  by unfold_locales (auto simp: pagecache_entry_cmp_first_pages_def lastuse_diff_small Let_def split: if_splits)

subsection \<open>What is kept\<close>

lemma reserve_keeps:
  assumes "compar c small" "\<forall>e \<in> set es. small e" "p * ocnt div 100 < length es \<or> es = [] \<and> ocnt = 0"
  shows "\<exists>kept rest s'. reserve c p ocnt es s = Some (kept, rest, s') \<and> mset kept + mset rest = mset es
    \<and> length kept = p * ocnt div 100 \<and> (\<forall>x \<in> set kept. \<forall>y \<in> set rest. cle c x y)"
proof (cases "es = []")
  case True
  with assms(3) show ?thesis by (simp add: reserve_def psync_qpartition_def)
next
  case False
  let ?n = "p * ocnt div 100"
  have n: "?n < length es" using assms(3) False by simp
  from compar.qpartition_parts [OF assms(1,2) n, of s] obtain ys s' where
    ys: "psync_qpartition c ?n es s = Some (ys, s')" "mset ys = mset es"
      "\<And>i j. i \<le> ?n \<Longrightarrow> ?n \<le> j \<Longrightarrow> i < j \<Longrightarrow> j < length es \<Longrightarrow> cle c (ys ! i) (ys ! j)" by blast
  have len: "length ys = length es" by (rule mset_eq_length [OF ys(2)])
  have "cle c x y" if xy: "x \<in> set (take ?n ys)" "y \<in> set (drop ?n ys)" for x y
  proof -
    obtain i where i: "i < ?n" "x = ys ! i" using xy(1) by (auto simp: in_set_conv_nth)
    obtain j where j: "j < length ys - ?n" "y = ys ! (?n + j)" using xy(2) n len by (auto simp: in_set_conv_nth)
    show ?thesis unfolding i(2) j(2) using ys(3) [of i "?n + j"] i j len by simp
  qed
  moreover have "mset (take ?n ys) + mset (drop ?n ys) = mset es" using ys(2) by (simp flip: mset_append)
  ultimately show ?thesis using ys(1) n len by (simp add: reserve_def Let_def)
qed

lemma reserve_all_keeps:
  assumes "\<forall>(c, p) \<in> set cs. compar c small"
  shows "\<forall>e \<in> set es. small e \<Longrightarrow> (100 - taken) * ocnt \<le> 100 * length es \<Longrightarrow> ocnt = 0 \<longrightarrow> es = [] \<Longrightarrow>
    taken + sum_list (map snd cs) < 100 \<Longrightarrow> \<exists>ks rest s'. reserve_all ocnt cs es s = Some (ks, rest, s')
      \<and> sum_list (map mset ks) + mset rest = mset es
      \<and> list_all2 (\<lambda>(c, p) k. length k = p * ocnt div 100 \<and> (\<forall>x \<in> set k. \<forall>y \<in> set rest. cle c x y)) cs ks"
  using assms
proof (induction cs arbitrary: es s taken)
  case Nil
  then show ?case by simp
next
  case (Cons cp cs)
  obtain c p where cp: "cp = (c, p)" by (cases cp)
  let ?n = "p * ocnt div 100"
  have n: "100 * ?n \<le> p * ocnt" by simp
  have tp: "taken + p < 100" using Cons.prems(4) by (simp add: cp)
  have "?n < length es \<or> es = [] \<and> ocnt = 0"
  proof (cases "ocnt = 0")
    case False
    then have "p * ocnt < (100 - taken) * ocnt" using tp by simp
    then show ?thesis using n Cons.prems(2) by linarith
  qed (use Cons.prems(3) in simp)
  from reserve_keeps [OF _ Cons.prems(1) this, of c s] Cons.prems(5) obtain kept rest s' where
    r: "reserve c p ocnt es s = Some (kept, rest, s')" "mset kept + mset rest = mset es" "length kept = ?n"
      "\<forall>x \<in> set kept. \<forall>y \<in> set rest. cle c x y" by (auto simp: cp)
  have sub: "set rest \<subseteq> set es" "length es = ?n + length rest"
    using r(2,3) by (metis Un_upper2 set_mset_mset set_mset_union, metis size_mset size_union)
  have "(100 - (taken + p)) * ocnt + p * ocnt = (100 - taken) * ocnt" using tp by (simp flip: add_mult_distrib)
  then have "(100 - (taken + p)) * ocnt \<le> 100 * length rest" using n Cons.prems(2) sub(2) by linarith
  moreover have "\<forall>e \<in> set rest. small e" "ocnt = 0 \<longrightarrow> rest = []" using Cons.prems(1,3) sub by auto
  moreover have "taken + p + sum_list (map snd cs) < 100" "\<forall>(c, p) \<in> set cs. compar c small" using Cons.prems(4,5) by (auto simp: cp)
  ultimately obtain ks rest' s'' where ih: "reserve_all ocnt cs rest s' = Some (ks, rest', s'')"
      "sum_list (map mset ks) + mset rest' = mset rest"
      "list_all2 (\<lambda>(c, p) k. length k = p * ocnt div 100 \<and> (\<forall>x \<in> set k. \<forall>y \<in> set rest'. cle c x y)) cs ks"
    using Cons.IH [of rest "taken + p" s'] by blast
  have "set rest' \<subseteq> set rest" using ih(2) by (metis Un_upper2 set_mset_mset set_mset_union)
  then show ?case using r ih by (auto simp: cp add.assoc)
qed

lemma reserve_shares:
  assumes "\<forall>(c, p) \<in> set cs. compar c small" "\<forall>e \<in> set es. small e" "sum_list (map snd cs) < 100"
  obtains ks rest s' where "reserve_all (length es) cs es s = Some (ks, rest, s')"
    "sum_list (map mset ks) + mset rest = mset es" "\<forall>e \<in> set rest. small e" "\<forall>k \<in> set ks. \<forall>e \<in> set k. small e"
    "list_all2 (\<lambda>(c, p) k. length k = p * length es div 100 \<and> (\<forall>x \<in> set k. \<forall>y \<in> set rest. cle c x y)) cs ks"
proof -
  from reserve_all_keeps [OF assms(1,2), of 0 "length es" s] assms(3) obtain ks rest s' where
    r: "reserve_all (length es) cs es s = Some (ks, rest, s')" "sum_list (map mset ks) + mset rest = mset es"
      "list_all2 (\<lambda>(c, p) k. length k = p * length es div 100 \<and> (\<forall>x \<in> set k. \<forall>y \<in> set rest. cle c x y)) cs ks" by auto
  have "set_mset (sum_list (map mset ks)) \<union> set rest = set es" using arg_cong [OF r(2), of set_mset] by simp
  moreover have "set k \<subseteq> set_mset (sum_list (map mset ks))" if "k \<in> set ks" for k
    using that by (induction ks) auto
  ultimately have "\<forall>e \<in> set rest. small e" "\<forall>k \<in> set ks. \<forall>e \<in> set k. small e" using assms(2) by blast+
  with r that show thesis by blast
qed

lemma sort_by_id:
  assumes "\<forall>e \<in> set es. small e" "length es < 2 ^ 64"
  obtains vs s' where "psync_pqsort pagecache_entry_cmp_id ENTRY_SIZE (length es) es s = Some (vs, s')" "mset vs = mset es"
    "sorted (map (\<lambda>e. unat (entry_id e)) vs)"
proof -
  from by_id.pqsort_sorts [OF assms(1) _ assms(2), of ENTRY_SIZE "length es" s] obtain vs s' where
    v: "psync_pqsort pagecache_entry_cmp_id ENTRY_SIZE (length es) es s = Some (vs, s')" "mset vs = mset es"
      "\<forall>i j. i < j \<and> j < length es \<and> i < length es \<longrightarrow> cle pagecache_entry_cmp_id (vs ! i) (vs ! j)" by auto
  have sv: "set vs = set es" "length vs = length es" using v(2) mset_eq_setD mset_eq_length by blast+
  have "sorted (map (\<lambda>e. unat (entry_id e)) vs)"
  proof (unfold sorted_wrt_map, rule sorted_wrt_iff_nth_less [THEN iffD2], intro allI impI)
    fix i j assume ij: "i < j" "j < length vs"
    then have "small (vs ! i)" "small (vs ! j)" using assms(1) sv by (metis nth_mem order.strict_trans)+
    then show "unat (entry_id (vs ! i)) \<le> unat (entry_id (vs ! j))"
      unfolding word_le_nat_alt [symmetric] word_le_def
      using v(3) [rule_format, of i j] ij sv(2) by (simp add: cmp_id_small)
  qed
  with v that show thesis by blast
qed

lemma small_entries:
  assumes "\<forall>r \<in> set rows. row_lastuse r < 2 ^ 31 \<and> row_id r < 2 ^ 31"
  shows "\<forall>e \<in> set (load_entries cnt rows). small e"
proof -
  have "(ucast x :: u32) < 2 ^ 31" if "x < 2 ^ 31" for x :: u64
  proof -
    have "unat x < 2 ^ 31" using that by (simp add: word_less_nat_alt)
    then show ?thesis by (simp add: word_less_nat_alt unsigned_ucast_eq take_bit_eq_mod)
  qed
  then show ?thesis using assms by (fastforce simp: load_entries_def load_entry_def small_def dest: in_set_takeD)
qed

lemmas compar_orders = first.compar_axioms xfirst.compar_axioms lru.compar_axioms used.compar_axioms

lemma cle_lastuse: "small k \<Longrightarrow> small v \<Longrightarrow> cle pagecache_entry_cmp_lastuse k v \<Longrightarrow> lastuse v \<le> lastuse k"
  by (simp add: pagecache_entry_cmp_lastuse_def lastuse_diff_small word_le_def)

lemma cle_usecnt: "small k \<Longrightarrow> small v \<Longrightarrow> cle (pagecache_entry_cmp_usecnt_lastuse t) k v \<Longrightarrow> t \<le> usecnt v \<Longrightarrow>
    t \<le> usecnt k \<and> lastuse v \<le> lastuse k"
  by (auto simp: pagecache_entry_cmp_usecnt_lastuse_def lastuse_diff_small word_le_def [of "lastuse v"] split: if_splits)

lemma group_usecnt:
  assumes "\<forall>x \<in> set ks. \<forall>y \<in> set vs. cle (pagecache_entry_cmp_usecnt_lastuse t) x y"
    "\<forall>x \<in> set ks. small x" "\<forall>y \<in> set vs. small y"
  shows "\<forall>v \<in> set vs. \<forall>k \<in> set ks. t \<le> usecnt v \<longrightarrow> t \<le> usecnt k \<and> lastuse v \<le> lastuse k"
  using cle_usecnt [of _ _ t] assms by blast

lemma group_lastuse:
  assumes "\<forall>x \<in> set ks. \<forall>y \<in> set vs. cle pagecache_entry_cmp_lastuse x y" "\<forall>x \<in> set ks. small x" "\<forall>y \<in> set vs. small y"
  shows "\<forall>v \<in> set vs. \<forall>k \<in> set ks. lastuse v \<le> lastuse k"
  using cle_lastuse assms by blast


abbreviation sample_rows :: "pagecache_row list" where
  "sample_rows \<equiv> [\<lparr>row_id = 1, row_pageid = 0, row_lastuse = 1500000000, row_usecnt = 3, row_type = 1\<rparr>,
     \<lparr>row_id = 2, row_pageid = 1, row_lastuse = 1500000001, row_usecnt = 1, row_type = 1\<rparr>]"


text \<open>C25: The partial sort returns a permutation whose first \<open>sort_first\<close> elements are in order and not above any later
  element, without an access outside the array or its stack of 64 segments, for the comparison by id that the code
  calls it with.\<close>

theorem pqsort_by_id:
  assumes "\<forall>e \<in> set es. small e" "0 < esize" "length es < 2 ^ 64"
  shows "\<exists>ys s'. psync_pqsort pagecache_entry_cmp_id esize sort_first es s = Some (ys, s') \<and> mset ys = mset es
    \<and> (\<forall>i j. i < j \<and> j < length es \<and> i < sort_first \<longrightarrow> cle pagecache_entry_cmp_id (ys ! i) (ys ! j))"
  by (rule by_id.pqsort_sorts [OF assms])

theorem pqsort_by_id_witness:
  "\<exists>ys s'. psync_pqsort pagecache_entry_cmp_id 12 20 (load_entries 2 sample_rows) pq_init = Some (ys, s')
     \<and> mset ys = mset (load_entries 2 sample_rows)"
proof -
  have "\<forall>e \<in> set (load_entries 2 sample_rows). small e" by (rule small_entries) simp
  from pqsort_by_id [OF this, of 12 20 pq_init] show ?thesis by (auto simp: load_entries_def)
qed

end
