(* ===== verification/Plibs.thy ===== *)
theory Plibs
  imports Prelude
begin

unbundle bit_operations_syntax

section \<open>Strings and encodings (\<open>plibs.c\<close>)\<close>

text \<open>
  The string helpers of \<open>plibs.c\<close>: base 32 and base 64, the check for UTF-8, patterns with \<^verbatim>\<open>*\<close> and \<^verbatim>\<open>?\<close>, numbers and
  file names.  Strings are byte lists without the terminating zero; a C string has no zero byte, and reading at its end gives
  the terminator.  Characters are written as their codes.
\<close>

subsection \<open>Base 32\<close>

definition base32_table :: bytes where
  "base32_table = map of_nat ([65..<91] @ [50..<56])"

function b32_loop :: "nat \<Rightarrow> u32 \<Rightarrow> bytes \<Rightarrow> bytes \<times> nat \<times> u32" where
  "b32_loop bits buff [] = ([], bits, buff)"
| "b32_loop bits buff (x # xs) =
     (let (bits, buff, rest) = (if bits < 5 then (bits + 8, push_bit 8 buff OR ucast x, xs) else (bits, buff, x # xs));
          bits = bits - 5; (out, b) = b32_loop bits buff rest
      in (base32_table ! unat (0x1f AND drop_bit bits buff) # out, b))"
  by pat_completeness auto
termination by (relation "measures [\<lambda>(bits, buff, str). length str, \<lambda>(bits, buff, str). bits]") (auto split: if_splits)

function b32_flush :: "nat \<Rightarrow> u32 \<Rightarrow> bytes" where
  "b32_flush bits buff =
     (if bits = 0 then []
      else let (bits, buff) = (if bits < 5 then (5, push_bit (5 - bits) buff) else (bits, buff)); bits = bits - 5
           in base32_table ! unat (0x1f AND drop_bit bits buff) # b32_flush bits buff)"
  by pat_completeness auto
termination by (relation "measure fst") (auto split: if_splits)

definition psync_base32_encode :: "bytes \<Rightarrow> bytes" where
  "psync_base32_encode str = (let (out, bits, buff) = b32_loop 0 0 str in out @ b32_flush bits buff)"

definition base32_char :: "u8 \<Rightarrow> u8 option" where
  "base32_char ch = (if 65 \<le> ch \<and> ch \<le> 90 then Some ((ch AND 0x1f) - 1)
     else if 50 \<le> ch \<and> ch \<le> 55 then Some (ch - (50 - 26)) else None)"

fun b32_decode :: "nat \<Rightarrow> u32 \<Rightarrow> bytes \<Rightarrow> bytes option" where
  "b32_decode bits buff [] = Some []"
| "b32_decode bits buff (ch # str) =
     (case base32_char ch of None \<Rightarrow> None
      | Some ch \<Rightarrow> let buff = push_bit 5 buff + ucast ch; bits = bits + 5 in
          if 8 \<le> bits then map_option ((#) (ucast (drop_bit (bits - 8) buff))) (b32_decode (bits - 8) buff str)
          else b32_decode bits buff str)"

definition psync_base32_decode :: "bytes \<Rightarrow> bytes option" where
  "psync_base32_decode str = b32_decode 0 0 str"

subsection \<open>Base 64\<close>

definition base64_table :: bytes where
  "base64_table = map of_nat ([65..<91] @ [97..<123] @ [48..<58] @ [45, 95])"

definition base64_reverse_table :: "u8 \<Rightarrow> int" where
  "base64_reverse_table c =
     (if c = 9 \<or> c = 10 \<or> c = 13 \<or> c = 32 \<or> c = 61 then -1
      else if 65 \<le> c \<and> c \<le> 90 then uint c - 65
      else if 97 \<le> c \<and> c \<le> 122 then uint c - 71
      else if 48 \<le> c \<and> c \<le> 57 then uint c + 4
      else if c = 43 \<or> c = 45 then 62
      else if c = 47 \<or> c = 95 then 63
      else -2)"

abbreviation b64 :: "u8 \<Rightarrow> u8" where
  "b64 i \<equiv> base64_table ! unat i"

fun psync_base64_encode :: "bytes \<Rightarrow> bytes" where
  "psync_base64_encode (a # b # c # rest) =
     b64 (drop_bit 2 a) # b64 (push_bit 4 (a AND 0x03) + drop_bit 4 b) # b64 (push_bit 2 (b AND 0x0f) + drop_bit 6 c)
       # b64 (c AND 0x3f) # psync_base64_encode rest"
| "psync_base64_encode [a, b] =
     [b64 (drop_bit 2 a), b64 (push_bit 4 (a AND 0x03) + drop_bit 4 b), b64 (push_bit 2 (b AND 0x0f))]"
| "psync_base64_encode [a] = [b64 (drop_bit 2 a), b64 (push_bit 4 (a AND 0x03))]"
| "psync_base64_encode [] = []"

text \<open>The loop of the decoder: \<open>cur\<close> is the byte being assembled; finished bytes come first.\<close>

fun b64_decode :: "nat \<Rightarrow> u8 \<Rightarrow> bytes \<Rightarrow> bytes option" where
  "b64_decode i cur [] = Some []"
| "b64_decode i cur (c # str) =
     (let ch = base64_reverse_table c; w = (of_int ch :: u8) in
      if ch = -1 then b64_decode i cur str
      else if ch = -2 then None
      else if i mod 4 = 0 then b64_decode (i + 1) (push_bit 2 w) str
      else if i mod 4 = 1 then map_option ((#) (cur OR drop_bit 4 w)) (b64_decode (i + 1) (push_bit 4 (w AND 0x0f)) str)
      else if i mod 4 = 2 then map_option ((#) (cur OR drop_bit 2 w)) (b64_decode (i + 1) (push_bit 6 (w AND 0x03)) str)
      else map_option ((#) (cur OR w)) (b64_decode (i + 1) 0 str))"

definition psync_base64_decode :: "bytes \<Rightarrow> bytes option" where
  "psync_base64_decode str = b64_decode 0 0 str"

subsection \<open>UTF-8\<close>

definition utf8_trailing :: "u8 \<Rightarrow> int" where
  "utf8_trailing c = (if c < 128 then 0 else if c < 192 then -1 else if c < 224 then 1 else if c < 240 then 2
     else if c < 248 then 3 else -1)"

fun utf8_skip :: "nat \<Rightarrow> bytes \<Rightarrow> bytes option" where
  "utf8_skip 0 str = Some str"
| "utf8_skip (Suc t) [] = None"
| "utf8_skip (Suc t) (c # str) = (if c AND 0xc0 \<noteq> 0x80 then None else utf8_skip t str)"

lemma utf8_skip_length: "utf8_skip t str = Some rest \<Longrightarrow> length rest \<le> length str"
  by (induction t str rule: utf8_skip.induct) (auto split: if_splits)

function psync_is_valid_utf8 :: "bytes \<Rightarrow> bool" where
  "psync_is_valid_utf8 [] = True"
| "psync_is_valid_utf8 (c # str) =
     (let t = utf8_trailing c in
      if t \<noteq> 0 then if t < 0 then False
        else case utf8_skip (nat t) str of None \<Rightarrow> False | Some rest \<Rightarrow> psync_is_valid_utf8 rest
      else psync_is_valid_utf8 str)"
  by pat_completeness auto
termination by (relation "measure length") (auto dest: utf8_skip_length)

subsection \<open>Patterns\<close>

text \<open>\<open>after_each c name\<close> are the suffixes behind the occurrences of \<open>c\<close>, which repeated calls of \<^verbatim>\<open>strchr\<close> find.\<close>

fun after_each :: "u8 \<Rightarrow> bytes \<Rightarrow> bytes list" where
  "after_each c [] = []"
| "after_each c (x # xs) = (if x = c then xs # after_each c xs else after_each c xs)"

fun psync_match_pattern :: "bytes \<Rightarrow> bytes \<Rightarrow> bool"
  and match_star :: "bytes \<Rightarrow> bytes \<Rightarrow> bool" where
  "psync_match_pattern name [] = (name = [])"
| "psync_match_pattern name (p # pattern) =
     (if p = 42 then match_star name pattern
      else case name of [] \<Rightarrow> False
           | c # cs \<Rightarrow> if p \<noteq> c \<and> p \<noteq> 63 then False else psync_match_pattern cs pattern)"
| "match_star name [] = True"
| "match_star name (p # pattern) =
     (if p = 63 then (case name of [] \<Rightarrow> False | c # cs \<Rightarrow> match_star cs pattern)
      else if p = 42 then match_star name pattern
      else list_ex (\<lambda>n. psync_match_pattern n pattern) (after_each p name))"

subsection \<open>Numbers and names\<close>

fun ato64 :: "u64 \<Rightarrow> bytes \<Rightarrow> u64" where
  "ato64 n [] = n"
| "ato64 n (c # str) = (if 48 \<le> c \<and> c \<le> 57 then ato64 (n * 10 + ucast c - 48) str else n)"

definition psync_ato64 :: "bytes \<Rightarrow> u64" where
  "psync_ato64 str = ato64 0 str"

fun ato32 :: "u32 \<Rightarrow> bytes \<Rightarrow> u32" where
  "ato32 n [] = n"
| "ato32 n (c # str) = (if 48 \<le> c \<and> c \<le> 57 then ato32 (n * 10 + ucast c - 48) str else n)"

definition psync_ato32 :: "bytes \<Rightarrow> u32" where
  "psync_ato32 str = ato32 0 str"

definition normalize_table :: "u8 \<Rightarrow> u8" where
  "normalize_table c = (if c = 58 \<or> c = 47 \<or> c = 92 then 95 else c)"

definition psync_strnormalize_filename :: "bytes \<Rightarrow> bytes" where
  "psync_strnormalize_filename str = map normalize_table str"

definition psync_strcat :: "bytes list \<Rightarrow> bytes option" where
  "psync_strcat strs = (if length strs \<le> 64 then Some (concat strs) else None)"

text \<open>Renaming a conflicted file: the name is changed before its last dot, with a number that is increased
  until the name is free.  \<open>stat\<close> tells whether a path exists.  The formatted number is far shorter than the 32 bytes kept for it.\<close>

fun decimal :: "nat \<Rightarrow> bytes" where
  "decimal n = (if n < 10 then [of_nat (48 + n)] else decimal (n div 10) @ [of_nat (48 + n mod 10)])"

fun dot_back :: "bytes \<Rightarrow> nat \<Rightarrow> nat" where
  "dot_back path 0 = 0"
| "dot_back path (Suc i) = (if Suc i < length path \<and> path ! Suc i = 46 then Suc i else dot_back path i)"

definition dot_index :: "bytes \<Rightarrow> nat" where
  "dot_index path = (let d = dot_back path (length path) in if d = 0 then length path else d)"

definition conflicted_tag :: bytes where
  "conflicted_tag = [32, 40, 99, 111, 110, 102, 108, 105, 99, 116, 101, 100]"

definition conflicted_name :: "bytes \<Rightarrow> nat \<Rightarrow> bytes" where
  "conflicted_name path num = (let d = dot_index path in
     take d path @ (if num \<noteq> 0 then conflicted_tag @ [32] @ decimal num @ [41] else conflicted_tag @ [41]) @ drop d path)"

partial_function (option) conflicted_loop :: "(bytes \<Rightarrow> bool) \<Rightarrow> bytes \<Rightarrow> nat \<Rightarrow> bytes option" where
  "conflicted_loop stat path num =
     (if \<not> stat (conflicted_name path num) then Some (conflicted_name path num) else conflicted_loop stat path (num + 1))"

definition psync_rename_conflicted_file :: "(bytes \<Rightarrow> bool) \<Rightarrow> bytes \<Rightarrow> bytes option" where
  "psync_rename_conflicted_file stat path = conflicted_loop stat path 0"

text \<open>The time stamp of the log; the broken-down time comes from \<^verbatim>\<open>gmtime_r\<close>.\<close>

record tm =
  tm_wday :: nat
  tm_mday :: nat
  tm_mon :: nat
  tm_year :: nat
  tm_hour :: nat
  tm_min :: nat
  tm_sec :: nat

definition month_names :: "bytes list" where
  "month_names = [[74, 97, 110], [70, 101, 98], [77, 97, 114], [65, 112, 114], [77, 97, 121], [74, 117, 110],
     [74, 117, 108], [65, 117, 103], [83, 101, 112], [79, 99, 116], [78, 111, 118], [68, 101, 99]]"

definition day_names :: "bytes list" where
  "day_names = [[83, 117, 110], [77, 111, 110], [84, 117, 101], [87, 101, 100], [84, 104, 117], [70, 114, 105], [83, 97, 116]]"

definition digit :: "nat \<Rightarrow> u8" where
  "digit n = of_nat (n + 48)"

definition time_format :: "tm \<Rightarrow> nat \<Rightarrow> bytes option" where
  "time_format dt nsec =
     (let ns = nsec div 1000000; y = tm_year dt + 1900; two = (\<lambda>n. [digit (n div 10), digit (n mod 10)]) in
      if tm_wday dt < length day_names \<and> tm_mon dt < length month_names
      then Some (day_names ! tm_wday dt @ [44, 32] @ two (tm_mday dt) @ [32] @ month_names ! tm_mon dt @ [32]
        @ [digit (y div 1000), digit (y mod 1000 div 100), digit (y mod 1000 mod 100 div 10), digit (y mod 1000 mod 100 mod 10)]
        @ [32] @ two (tm_hour dt) @ [58] @ two (tm_min dt) @ [58] @ two (tm_sec dt)
        @ [46, digit (ns div 100), digit (ns div 10 mod 10), digit (ns mod 10)] @ [32, 43, 48, 48, 48, 48])
      else None)"

subsection \<open>Bit strings\<close>

text \<open>The low \<open>n\<close> bits of a word, most significant first.\<close>

definition bits_of :: "nat \<Rightarrow> 'a :: len word \<Rightarrow> bool list" where
  "bits_of n v = map (bit v) (rev [0..<n])"

lemma length_bits_of [simp]: "length (bits_of n v) = n"
  by (simp add: bits_of_def)

lemma bits_of_0 [simp]: "bits_of 0 v = []"
  by (simp add: bits_of_def)

lemma nth_bits_of: "i < n \<Longrightarrow> bits_of n v ! i = bit v (n - Suc i)"
  by (simp add: bits_of_def rev_nth)

lemma bits_of_add: "bits_of (m + n) v = bits_of m (drop_bit n v) @ bits_of n v"
  by (rule nth_equalityI) (auto simp: nth_bits_of nth_append bit_drop_bit_eq add.commute)

lemma bits_of_eqI: "(\<And>i. i < n \<Longrightarrow> bit v i = bit w i) \<Longrightarrow> bits_of n v = bits_of n w"
  by (simp add: bits_of_def)

lemma bits_of_u8_inject: "bits_of 8 v = bits_of 8 w \<longleftrightarrow> v = w" for v w :: u8
proof
  assume *: "bits_of 8 v = bits_of 8 w"
  show "v = w"
  proof (rule bit_word_eqI)
    fix n assume "n < LENGTH(8)"
    then show "bit v n = bit w n" using arg_cong [OF *, of "\<lambda>xs. xs ! (7 - n)"] by (simp add: nth_bits_of)
  qed
qed simp

text \<open>Joining bytes of \<open>k\<close> bits: an equation of bit strings with short remainders gives the bytes.\<close>

lemma length_concat_bits: "length (concat (map (bits_of k) vs)) = k * length vs"
  by (induction vs) (simp_all add: algebra_simps)

lemma concat_bits_inject:
  fixes xs ys :: bytes
  assumes "concat (map (bits_of 8) xs) @ r = concat (map (bits_of 8) ys) @ t" "length r < 8" "length t < 8"
  shows "xs = ys"
proof -
  have "8 * length xs + length r = 8 * length ys + length t"
    using arg_cong [OF assms(1), of length] by (simp add: length_concat_bits)
  then have len: "length xs = length ys" using assms(2,3) by presburger
  then have "concat (map (bits_of 8) xs) = concat (map (bits_of 8) ys)"
    using assms(1) by (metis append_eq_append_conv length_concat_bits)
  with len show ?thesis by (induction xs ys rule: list_induct2) (simp_all add: bits_of_u8_inject)
qed

lemma bits_of_shift_in:
  fixes buff :: u32 and x :: u8
  assumes "n \<le> 24"
  shows "bits_of (n + 8) (push_bit 8 buff OR ucast x) = bits_of n buff @ bits_of 8 x"
  by (rule nth_equalityI)
    (use assms in \<open>auto simp: nth_bits_of nth_append bit_or_iff bit_push_bit_iff bit_ucast_iff dest: bit_imp_le_length\<close>)

lemma bits_of_and_mask: "bits_of 5 (0x1f AND v) = bits_of 5 v" for v :: u32
  by (simp add: bits_of_def upt_rec bit_and_iff)

subsection \<open>Base 32 round trip\<close>

abbreviation b32 :: "u32 \<Rightarrow> u8" where
  "b32 v \<equiv> base32_table ! unat (0x1f AND v)"

lemma base32_char_b32: "base32_char (b32 v) = Some (ucast (0x1f AND v))"
proof -
  have "\<forall>n \<in> set [0..<32]. base32_char (base32_table ! n) = Some (of_nat n)" by code_simp
  then have "\<forall>n < 32. base32_char (base32_table ! n) = Some (of_nat n)" by simp
  moreover have "unat (0x1f AND v) < 32" 
    using word_and_le2 [of "0x1f" v] by (simp add: word_le_nat_alt)
  ultimately show ?thesis by (simp add: of_nat_unat)
qed

lemma b32_loop_bits:
  "bits < 8 + 5 \<Longrightarrow> b32_loop bits buff str = (out, bits', buff') \<Longrightarrow> bits' \<le> max 7 bits \<and>
    (\<exists>vs. out = map b32 vs \<and> concat (map (bits_of 5) vs) @ bits_of bits' buff' = bits_of bits buff @ concat (map (bits_of 8) str))"
proof (induction bits buff str arbitrary: out rule: b32_loop.induct)
  case (1 bits buff)
  then show ?case by (auto intro: exI [of _ "[]"])
next
  case (2 bits buff x xs)
  define b bf rest where "b = (if bits < 5 then bits + 8 else bits)"
    and "bf = (if bits < 5 then push_bit 8 buff OR ucast x else buff)" and "rest = (if bits < 5 then xs else x # xs)"
  have e: "(if bits < 5 then (bits + 8, push_bit 8 buff OR ucast x, xs) else (bits, buff, x # xs)) = (b, bf, rest)"
    by (simp add: b_def bf_def rest_def)
  obtain out' where l: "b32_loop (b - 5) bf rest = (out', bits', buff')" "out = b32 (drop_bit (b - 5) bf) # out'"
    using "2.prems"(2) by (auto simp: e Let_def split: prod.splits)
  have "b - 5 < 8 + 5" "b = 5 + (b - 5)" using "2.prems"(1) by (auto simp: b_def)
  from "2.IH" [OF e [symmetric] refl refl refl this(1) l(1)] obtain vs where
    ih: "bits' \<le> max 7 (b - 5)" "out' = map b32 vs"
      "concat (map (bits_of 5) vs) @ bits_of bits' buff' = bits_of (b - 5) bf @ concat (map (bits_of 8) rest)" by blast
  have "bits_of b bf @ concat (map (bits_of 8) rest) = bits_of bits buff @ concat (map (bits_of 8) (x # xs))"
    using bits_of_shift_in [of bits buff x] by (simp add: b_def bf_def rest_def)
  moreover have "bits_of b bf = bits_of 5 (drop_bit (b - 5) bf) @ bits_of (b - 5) bf"
    by (subst (1) \<open>b = 5 + (b - 5)\<close>) (rule bits_of_add)
  ultimately show ?case using ih l(2) "2.prems"(1)
    by (intro conjI exI [of _ "drop_bit (b - 5) bf # vs"]) (auto simp: b_def split: if_splits)
qed

lemma bits_of_push:
  fixes buff :: u32
  assumes "n + k \<le> 32"
  shows "bits_of (n + k) (push_bit k buff) = bits_of n buff @ replicate k False"
  by (rule nth_equalityI) (use assms in \<open>auto simp: nth_bits_of nth_append bit_push_bit_iff\<close>)

declare b32_flush.simps [simp del]

lemma b32_flush_0 [simp]: "b32_flush 0 buff = []"
  by (simp add: b32_flush.simps)

lemma b32_flush_bits:
  assumes "bits \<le> 7"
  shows "\<exists>vs k. b32_flush bits buff = map b32 vs \<and> concat (map (bits_of 5) vs) = bits_of bits buff @ replicate k False \<and> k < 5"
proof -
  have small: "\<exists>vs k. b32_flush bits buff = map b32 vs \<and> concat (map (bits_of 5) vs) = bits_of bits buff @ replicate k False \<and> k < 5"
    if "bits < 5" for bits buff
  proof (cases "bits = 0")
    case False
    let ?v = "push_bit (5 - bits) buff"
    have "b32_flush bits buff = map b32 [?v]" using False that by (subst b32_flush.simps) (simp add: Let_def)
    moreover have "bits_of 5 ?v = bits_of bits buff @ replicate (5 - bits) False"
      using bits_of_push [of bits "5 - bits" buff] that by simp
    ultimately show ?thesis using False by (intro exI [of _ "[?v]"] exI [of _ "5 - bits"]) auto
  qed auto
  show ?thesis
  proof (cases "bits < 5")
    case False
    have b5: "bits - 5 < 5" using assms by simp
    obtain vs k where r: "b32_flush (bits - 5) buff = map b32 vs"
        "concat (map (bits_of 5) vs) = bits_of (bits - 5) buff @ replicate k False" "k < 5"
      using small [of "bits - 5" buff, OF b5] by blast
    have "bits_of bits buff = bits_of 5 (drop_bit (bits - 5) buff) @ bits_of (bits - 5) buff"
      using bits_of_add [of 5 "bits - 5" buff] False by simp
    moreover have "b32_flush bits buff = b32 (drop_bit (bits - 5) buff) # b32_flush (bits - 5) buff"
      using False by (subst b32_flush.simps) (simp add: Let_def)
    ultimately show ?thesis using r by (intro exI [of _ "drop_bit (bits - 5) buff # vs"] exI [of _ k]) auto
  qed (rule small)
qed

lemma bit_0x1f: "bit (0x1f :: u32) i \<longleftrightarrow> i < 5"
proof -
  have m: "(0x1f :: u32) = mask 5" by (simp add: mask_eq_exp_minus_1)
  show ?thesis unfolding m bit_mask_iff by auto
qed

lemma bits_of_shift5:
  fixes buff v :: u32
  assumes "n \<le> 24"
  shows "bits_of (n + 5) (push_bit 5 buff + ucast (ucast (0x1f AND v) :: u8)) = bits_of n buff @ bits_of 5 v"
proof -
  have u: "ucast (ucast (0x1f AND v) :: u8) = 0x1f AND v"
    by (rule bit_word_eqI) (unfold bit_ucast_iff bit_and_iff bit_0x1f, auto)
  have "push_bit 5 buff AND (0x1f AND v) = 0"
    by (rule bit_word_eqI) (unfold bit_and_iff bit_push_bit_iff bit_0x1f, auto)
  then have "push_bit 5 buff + (0x1f AND v) = push_bit 5 buff OR (0x1f AND v)" by (rule disjunctive_add_eq_or)
  then have w: "push_bit 5 buff + ucast (ucast (0x1f AND v) :: u8) = push_bit 5 buff OR (0x1f AND v)" unfolding u .
  have "bit (push_bit 5 buff OR (0x1f AND v)) i = (if i < 5 then bit v i else i < 32 \<and> bit buff (i - 5))" for i
    by (unfold bit_or_iff bit_and_iff bit_push_bit_iff bit_0x1f, auto)
  then show ?thesis unfolding w
    by (intro nth_equalityI) (use assms in \<open>auto simp: nth_bits_of nth_append\<close>)
qed

lemma b32_decode_bits:
  "bits < 8 \<Longrightarrow> \<exists>out bits' (buff' :: u32). b32_decode bits buff (map b32 vs) = Some out \<and> bits' < 8
    \<and> concat (map (bits_of 8) out) @ bits_of bits' buff' = bits_of bits buff @ concat (map (bits_of 5) vs)"
proof (induction vs arbitrary: bits buff)
  case Nil
  then show ?case by (intro exI [of _ "[]"] exI [of _ bits] exI [of _ buff]) simp
next
  case (Cons v vs)
  let ?b = "push_bit 5 buff + ucast (ucast (0x1f AND v) :: u8)"
  have sh: "bits_of (bits + 5) ?b = bits_of bits buff @ bits_of 5 v" using Cons.prems by (intro bits_of_shift5) simp
  show ?case
  proof (cases "8 \<le> bits + 5")
    case True
    have "bits_of 8 (ucast (drop_bit (bits + 5 - 8) ?b) :: u8) = bits_of 8 (drop_bit (bits + 5 - 8) ?b)"
      by (simp add: bits_of_def bit_ucast_iff)
    moreover have "bits_of (bits + 5) ?b = bits_of 8 (drop_bit (bits + 5 - 8) ?b) @ bits_of (bits + 5 - 8) ?b"
      using bits_of_add [of 8 "bits + 5 - 8" ?b] True by (simp add: add.commute)
    ultimately have j: "bits_of 8 (ucast (drop_bit (bits + 5 - 8) ?b) :: u8) @ bits_of (bits + 5 - 8) ?b = bits_of bits buff @ bits_of 5 v"
      using sh by simp
    have "bits + 5 - 8 < 8" using Cons.prems by simp
    from Cons.IH [OF this, of ?b] obtain out b' and bf' :: u32 where
      ih: "b32_decode (bits + 5 - 8) ?b (map b32 vs) = Some out" "b' < 8"
        "concat (map (bits_of 8) out) @ bits_of b' bf' = bits_of (bits + 5 - 8) ?b @ concat (map (bits_of 5) vs)" by blast
    have "b32_decode bits buff (map b32 (v # vs)) = Some (ucast (drop_bit (bits + 5 - 8) ?b) # out)"
      unfolding list.map b32_decode.simps base32_char_b32 option.case Let_def using True ih(1) by simp
    moreover have "concat (map (bits_of 8) (ucast (drop_bit (bits + 5 - 8) ?b) # out)) @ bits_of b' bf'
        = bits_of bits buff @ concat (map (bits_of 5) (v # vs))"
      unfolding list.map concat.simps append_assoc ih(3) by (simp only: j append_assoc [symmetric])
    ultimately show ?thesis using ih(2) by blast
  next
    case False
    then show ?thesis using Cons.IH [of "bits + 5" ?b] sh by (simp add: base32_char_b32 Let_def)
  qed
qed

lemma base32_roundtrip: "psync_base32_decode (psync_base32_encode str) = Some str"
proof -
  obtain out bits buff where l: "b32_loop 0 0 str = (out, bits, buff)" by (metis prod_cases3)
  from b32_loop_bits [OF _ l] obtain vs where
    v: "bits \<le> 7" "out = map b32 vs" "concat (map (bits_of 5) vs) @ bits_of bits buff = concat (map (bits_of 8) str)" by auto
  from b32_flush_bits [OF v(1), of buff] obtain ws k where
    w: "b32_flush bits buff = map b32 ws" "concat (map (bits_of 5) ws) = bits_of bits buff @ replicate k False" "k < 5" by blast
  have e: "psync_base32_encode str = map b32 (vs @ ws)" using l v(2) w(1) by (simp add: psync_base32_encode_def)
  from b32_decode_bits [of 0 0 "vs @ ws"] obtain res b and bf :: u32 where
    r: "b32_decode 0 0 (map b32 (vs @ ws)) = Some res" "b < 8"
      "concat (map (bits_of 8) res) @ bits_of b bf = concat (map (bits_of 5) (vs @ ws))" by auto
  have "concat (map (bits_of 8) res) @ bits_of b bf = concat (map (bits_of 8) str) @ replicate k False"
    using r(3) v(3) w(2) by (simp flip: append_assoc)
  then have "res = str" by (rule concat_bits_inject) (use r(2) w(3) in simp_all)
  with e r(1) show ?thesis by (simp add: psync_base32_decode_def)
qed

subsection \<open>Base 64 round trip\<close>

lemma base64_reverse_b64:
  assumes "v < 64"
  shows "base64_reverse_table (b64 v) = uint v"
proof -
  have "\<forall>n \<in> set [0..<64]. base64_reverse_table (base64_table ! n) = int n" by code_simp
  then have "\<forall>n < 64. base64_reverse_table (base64_table ! n) = int n" by simp
  moreover have "unat v < 64" using assms by (simp add: word_less_nat_alt)
  ultimately show ?thesis by simp
qed

lemma u8_bits_eqI:
  fixes v w :: u8
  assumes "\<And>i. i \<in> {0, 1, 2, 3, 4, 5, 6, 7} \<Longrightarrow> bit v i = bit w i"
  shows "v = w"
  by (rule bit_word_eqI) (rule assms, auto)

lemma b64_join2: "push_bit 4 (a AND 3) + drop_bit 4 b = push_bit 4 (a AND 3) OR drop_bit 4 b" for a b :: u8
  by (rule disjunctive_add_eq_or, rule u8_bits_eqI) (auto simp: bit_simps dest: bit_imp_le_length simp flip: numeral_2_eq_2 numeral_3_eq_3)

lemma b64_join3: "push_bit 2 (b AND 15) + drop_bit 6 c = push_bit 2 (b AND 15) OR drop_bit 6 c" for b c :: u8
  by (rule disjunctive_add_eq_or, rule u8_bits_eqI) (auto simp: bit_simps dest: bit_imp_le_length simp flip: numeral_2_eq_2 numeral_3_eq_3)

lemma b64_byte1: "push_bit 2 (drop_bit 2 a) OR drop_bit 4 (push_bit 4 (a AND 3) + drop_bit 4 b) = a" for a b :: u8
  unfolding b64_join2 by (rule u8_bits_eqI) (auto simp: bit_simps dest: bit_imp_le_length simp flip: numeral_2_eq_2 numeral_3_eq_3)

lemma b64_byte2:
  "push_bit 4 ((push_bit 4 (a AND 3) + drop_bit 4 b) AND 15) OR drop_bit 2 (push_bit 2 (b AND 15) + drop_bit 6 c) = b" for a b c :: u8
  unfolding b64_join2 b64_join3 by (rule u8_bits_eqI) (auto simp: bit_simps dest: bit_imp_le_length simp flip: numeral_2_eq_2 numeral_3_eq_3)

lemma b64_byte3: "push_bit 6 ((push_bit 2 (b AND 15) + drop_bit 6 c) AND 3) OR (c AND 63) = c" for b c :: u8
  unfolding b64_join3 by (rule u8_bits_eqI) (auto simp: bit_simps dest: bit_imp_le_length simp flip: numeral_2_eq_2 numeral_3_eq_3)

lemma b64_small:
  fixes a b c :: u8
  shows "drop_bit 2 a < 64" "push_bit 4 (a AND 3) + drop_bit 4 b < 64" "push_bit 2 (b AND 15) + drop_bit 6 c < 64" "c AND 63 < 64"
proof -
  have le: "v < 64" if "v AND 63 = v" for v :: u8 using word_and_le2 [of 63 v] that by (simp add: word_less_nat_alt word_le_nat_alt and.commute)
  show "drop_bit 2 a < 64" "push_bit 4 (a AND 3) + drop_bit 4 b < 64" "push_bit 2 (b AND 15) + drop_bit 6 c < 64" "c AND 63 < 64"
    unfolding b64_join2 b64_join3 by (rule le, rule u8_bits_eqI, auto simp: bit_simps dest: bit_imp_le_length simp flip: numeral_2_eq_2 numeral_3_eq_3)+
qed

lemma b64_decode_step:
  assumes "v < 64"
  shows "b64_decode i cur (b64 v # str) =
     (if i mod 4 = 0 then b64_decode (i + 1) (push_bit 2 v) str
      else if i mod 4 = 1 then map_option ((#) (cur OR drop_bit 4 v)) (b64_decode (i + 1) (push_bit 4 (v AND 15)) str)
      else if i mod 4 = 2 then map_option ((#) (cur OR drop_bit 2 v)) (b64_decode (i + 1) (push_bit 6 (v AND 3)) str)
      else map_option ((#) (cur OR v)) (b64_decode (i + 1) 0 str))"
proof -
  have "uint v \<noteq> -1" "uint v \<noteq> -2" using unsigned_greater_eq [of v, where ?'a = int] by linarith+
  then show ?thesis by (simp add: base64_reverse_b64 [OF assms] Let_def)
qed

lemma b64_decode_encode: "i mod 4 = 0 \<Longrightarrow> b64_decode i cur (psync_base64_encode str) = Some str"
proof (induction str arbitrary: i cur rule: psync_base64_encode.induct)
  case (1 a b c rest)
  then have m: "(i + 1) mod 4 = 1" "(i + 1 + 1) mod 4 = 2" "(i + 1 + 1 + 1) mod 4 = 3" "(i + 1 + 1 + 1 + 1) mod 4 = 0" by presburger+
  show ?case unfolding psync_base64_encode.simps b64_decode_step [OF b64_small(1)] b64_decode_step [OF b64_small(2)]
      b64_decode_step [OF b64_small(3)] b64_decode_step [OF b64_small(4)] m b64_byte1 b64_byte2 b64_byte3
    using "1.prems" "1.IH" [OF m(4)] by simp
next
  case (2 a b)
  then have m: "(i + 1) mod 4 = 1" "(i + 1 + 1) mod 4 = 2" by presburger+
  have c: "push_bit 2 (b AND 15) < 64" using b64_small(3) [of b 0] by simp
  show ?case unfolding psync_base64_encode.simps b64_decode_step [OF b64_small(1)] b64_decode_step [OF b64_small(2)] b64_decode_step [OF c] m b64_byte1
    using 2 b64_byte2 [of a b 0] by simp
next
  case (3 a)
  then have m: "(i + 1) mod 4 = 1" by presburger
  have c: "push_bit 4 (a AND 3) < 64" using b64_small(2) [of a 0] by simp
  show ?case unfolding psync_base64_encode.simps b64_decode_step [OF b64_small(1)] b64_decode_step [OF c] m
    using 3 b64_byte1 [of a 0] by simp
qed simp

lemma base64_roundtrip: "psync_base64_decode (psync_base64_encode str) = Some str"
  by (simp add: psync_base64_decode_def b64_decode_encode)

subsection \<open>The contract of an encoding\<close>

locale codec =
  fixes encode :: "'a \<Rightarrow> 'b" and decode :: "'b \<Rightarrow> 'a option"
  assumes roundtrip: "decode (encode x) = Some x"
begin

lemma encode_inject: "encode x = encode y \<longleftrightarrow> x = y"
  using roundtrip by (metis option.inject)

lemma decode_onto: "\<exists>e. decode e = Some x"
  using roundtrip by blast

end

text \<open>C27: What base 32 (the encoding of encrypted file names) or base 64 encode decodes to the same bytes, for
  every length, so different names have different encodings.\<close>

theorem encodings_roundtrip:
  "psync_base32_decode (psync_base32_encode str) = Some str \<and> psync_base64_decode (psync_base64_encode str) = Some str"
  by (simp add: base32_roundtrip base64_roundtrip)

interpretation base32: codec psync_base32_encode psync_base32_decode
  by unfold_locales (rule base32_roundtrip)

interpretation base64: codec psync_base64_encode psync_base64_decode
  by unfold_locales (rule base64_roundtrip)

subsection \<open>UTF-8: sequences of lead and continuation bytes\<close>

definition utf8_cont :: "u8 \<Rightarrow> bool" where
  "utf8_cont c \<longleftrightarrow> 128 \<le> c \<and> c < 192"

fun utf8_char :: "bytes \<Rightarrow> bool" where
  "utf8_char [a] \<longleftrightarrow> a < 128"
| "utf8_char [a, b] \<longleftrightarrow> 192 \<le> a \<and> a < 224 \<and> utf8_cont b"
| "utf8_char [a, b, c] \<longleftrightarrow> 224 \<le> a \<and> a < 240 \<and> utf8_cont b \<and> utf8_cont c"
| "utf8_char [a, b, c, d] \<longleftrightarrow> 240 \<le> a \<and> a < 248 \<and> utf8_cont b \<and> utf8_cont c \<and> utf8_cont d"
| "utf8_char _ \<longleftrightarrow> False"

lemma cont_mask: "c AND 0xc0 = 0x80 \<longleftrightarrow> utf8_cont c"
proof -
  have "\<forall>n \<in> set [0..<256]. ((of_nat n :: u8) AND 0xc0 = 0x80) = (128 \<le> n \<and> n < 192)" by code_simp
  then have "\<forall>n < 256. ((of_nat n :: u8) AND 0xc0 = 0x80) = (128 \<le> n \<and> n < 192)" by simp
  from this [rule_format, OF unat_u8 [of c]] show ?thesis by (simp add: utf8_cont_def word_le_nat_alt word_less_nat_alt)
qed

lemma utf8_skip_append: "list_all utf8_cont ts \<Longrightarrow> utf8_skip (length ts) (ts @ rest) = Some rest"
  by (induction ts) (auto simp: cont_mask)

lemma utf8_skip_split: "utf8_skip t str = Some rest \<Longrightarrow> \<exists>ts. str = ts @ rest \<and> length ts = t \<and> list_all utf8_cont ts"
proof (induction t str rule: utf8_skip.induct)
  case (3 t c str)
  then show ?case by (auto simp: cont_mask split: if_splits intro: exI [of _ "c # _"])
qed auto

lemma trailing_char:
  "list_all utf8_cont ts \<Longrightarrow> utf8_trailing c = int (length ts) \<longleftrightarrow> utf8_char (c # ts)"
proof -
  assume ts: "list_all utf8_cont ts"
  have b: "utf8_trailing c \<in> {-1, 0, 1, 2, 3}" by (simp add: utf8_trailing_def)
  show ?thesis
  proof (cases "length ts \<le> 3")
    case True
    then consider "ts = []" | t where "ts = [t]" | t u where "ts = [t, u]" | t u v where "ts = [t, u, v]"
      by (cases ts; cases "tl ts"; cases "tl (tl ts)"; cases "tl (tl (tl ts))") auto
    then show ?thesis by cases (use ts in \<open>auto simp: utf8_trailing_def word_less_nat_alt word_le_nat_alt split: if_splits\<close>)
  next
    case False
    then have "\<not> utf8_char (c # ts)" by (cases "c # ts" rule: utf8_char.cases) auto
    then show ?thesis using False b by auto
  qed
qed

lemma utf8_char_shape: "utf8_char cs \<Longrightarrow> \<exists>c ts. cs = c # ts \<and> list_all utf8_cont ts"
  by (cases cs rule: utf8_char.cases) auto

lemma valid_utf8_char:
  assumes "utf8_char cs"
  shows "psync_is_valid_utf8 (cs @ str) = psync_is_valid_utf8 str"
proof -
  obtain c ts where cs: "cs = c # ts" "list_all utf8_cont ts" using utf8_char_shape [OF assms] by blast
  have "utf8_trailing c = int (length ts)" using trailing_char [OF cs(2)] assms cs(1) by simp
  then show ?thesis using utf8_skip_append [OF cs(2), of str] by (simp add: cs(1) Let_def)
qed

text \<open>C28: The check for UTF-8 accepts exactly the sequences of characters that consist of a lead byte and as many
  continuation bytes as it announces, and never reads behind the terminator.\<close>

theorem valid_utf8_sequence:
  "psync_is_valid_utf8 str \<longleftrightarrow> (\<exists>chars. str = concat chars \<and> list_all utf8_char chars)"
proof
  show "psync_is_valid_utf8 str \<Longrightarrow> \<exists>chars. str = concat chars \<and> list_all utf8_char chars"
  proof (induction str rule: psync_is_valid_utf8.induct)
    case 1
    show ?case by (intro exI [of _ "[]"]) simp
  next
    case (2 c str)
    show ?case
    proof (cases "utf8_trailing c = 0")
      case True
      then obtain chars where "str = concat chars" "list_all utf8_char chars" using 2 by auto
      with True trailing_char [of "[]" c] show ?thesis by (intro exI [of _ "[c] # chars"]) simp
    next
      case False
      then obtain rest where r: "0 < utf8_trailing c" "utf8_skip (nat (utf8_trailing c)) str = Some rest" "psync_is_valid_utf8 rest"
        using "2.prems" by (auto simp: Let_def split: if_splits option.splits)
      from utf8_skip_split [OF r(2)] obtain ts where ts: "str = ts @ rest" "length ts = nat (utf8_trailing c)" "list_all utf8_cont ts" by blast
      obtain chars where "rest = concat chars" "list_all utf8_char chars" using "2.IH"(1) [OF refl False _ r(2,3)] r(1) by auto
      moreover have "utf8_char (c # ts)" using trailing_char [OF ts(3), of c] ts(2) r(1) by simp
      ultimately show ?thesis using ts(1) by (intro exI [of _ "(c # ts) # chars"]) simp
    qed
  qed
  have "list_all utf8_char chars \<Longrightarrow> psync_is_valid_utf8 (concat chars)" for chars
    by (induction chars) (simp_all add: valid_utf8_char)
  then show "\<exists>chars. str = concat chars \<and> list_all utf8_char chars \<Longrightarrow> psync_is_valid_utf8 str" by blast
qed

subsection \<open>Patterns: the reference matching relation\<close>

text \<open>A star stands for any sequence of characters, a question mark for any character, all others for themselves.\<close>

inductive glob :: "bytes \<Rightarrow> bytes \<Rightarrow> bool" where
  glob_nil: "glob [] []"
| glob_skip: "glob ps cs \<Longrightarrow> glob (42 # ps) cs"
| glob_star: "glob (42 # ps) cs \<Longrightarrow> glob (42 # ps) (c # cs)"
| glob_char: "p \<noteq> 42 \<Longrightarrow> p = c \<or> p = 63 \<Longrightarrow> glob ps cs \<Longrightarrow> glob (p # ps) (c # cs)"

inductive_simps glob_nil_iff [simp]: "glob [] cs"
inductive_simps glob_empty: "glob (p # ps) []"
inductive_simps glob_cons: "glob (p # ps) (c # cs)"

lemma glob_char_iff: "p \<noteq> 42 \<Longrightarrow> glob (p # ps) cs \<longleftrightarrow> (\<exists>c cs'. cs = c # cs' \<and> (p = c \<or> p = 63) \<and> glob ps cs')"
  by (cases cs) (auto simp: glob_empty glob_cons)

lemma glob_star_iff: "glob (42 # ps) cs \<longleftrightarrow> (\<exists>us vs. cs = us @ vs \<and> glob ps vs)"
proof
  show "glob (42 # ps) cs \<Longrightarrow> \<exists>us vs. cs = us @ vs \<and> glob ps vs"
  proof (induction cs)
    case Nil
    then show ?case by (simp add: glob_empty)
  next
    case (Cons c cs)
    then consider "glob ps (c # cs)" | "glob (42 # ps) cs" by (auto simp: glob_cons)
    then show ?case
    proof cases
      case 1
      then show ?thesis by (metis append_Nil)
    next
      case 2
      then obtain us vs where "cs = us @ vs" "glob ps vs" using Cons.IH by blast
      then show ?thesis by (metis append_Cons)
    qed
  qed
  have "glob ps vs \<Longrightarrow> glob (42 # ps) (us @ vs)" for us vs
    by (induction us) (auto intro: glob_skip glob_star)
  then show "\<exists>us vs. cs = us @ vs \<and> glob ps vs \<Longrightarrow> glob (42 # ps) cs" by blast
qed

lemma glob_star_any: "glob (42 # 63 # ps) (c # cs) \<longleftrightarrow> glob (42 # ps) cs"
proof
  assume "glob (42 # 63 # ps) (c # cs)"
  then obtain us d vs where e: "c # cs = us @ d # vs" "glob ps vs" by (auto simp: glob_star_iff glob_char_iff)
  then have "cs = tl (us @ [d]) @ vs" by (cases us) auto
  then have "\<exists>us. cs = us @ vs" by blast
  with e(2) show "glob (42 # ps) cs" by (auto simp: glob_star_iff)
next
  assume "glob (42 # ps) cs"
  then obtain us vs where e: "cs = us @ vs" "glob ps vs" by (auto simp: glob_star_iff)
  have "c # cs = butlast (c # us) @ last (c # us) # vs"
    using append_butlast_last_id [of "c # us"] e(1) by (metis append.assoc append_Cons append_Nil list.distinct(1))
  moreover have "glob (63 # ps) (last (c # us) # vs)" using e(2) by (intro glob_char) auto
  ultimately show "glob (42 # 63 # ps) (c # cs)" unfolding glob_star_iff by blast
qed

lemma set_after_each: "set (after_each c cs) = {vs. \<exists>us. cs = us @ c # vs}"
  by (induction cs) (auto simp: Cons_eq_append_conv)

lemma match_glob:
  "psync_match_pattern cs ps = glob ps cs" "match_star cs ps = glob (42 # ps) cs"
proof (induction cs ps and cs ps rule: psync_match_pattern_match_star.induct)
  case (2 name p ps)
  then show ?case by (cases name) (auto simp: glob_char_iff)
next
  case (3 name)
  have "glob (42 # []) name" unfolding glob_star_iff by (intro exI [of _ name] exI [of _ "[]"]) simp
  then show ?case by simp
next
  case (4 name p ps)
  consider "p = 63" | "p = 42" | "p \<noteq> 63" "p \<noteq> 42" by blast
  then show ?case
  proof cases
    case 1
    have "\<not> glob (42 # 63 # ps) []" by (simp add: glob_star_iff glob_char_iff)
    with 1 4(1) show ?thesis by (cases name) (auto simp: glob_star_any)
  next
    case 2
    have "glob (42 # 42 # ps) name = glob (42 # ps) name" unfolding glob_star_iff by (metis append.assoc append_Nil)
    with 2 4(2) show ?thesis by simp
  next
    case 3
    then show ?thesis using 4(3) by (auto simp: list_ex_iff set_after_each glob_star_iff glob_char_iff)
  qed
qed auto

text \<open>C26: Matching a name against a pattern with stars and question marks decides the reference relation: backtracking over
  the occurrences of the character behind a star finds a match whenever there is one.\<close>

theorem match_pattern_correct: "psync_match_pattern name pattern \<longleftrightarrow> glob pattern name"
  by (rule match_glob)

subsection \<open>Numbers\<close>

declare decimal.simps [simp del]

lemma decimal_digits: "\<forall>c \<in> set (decimal n). 48 \<le> c \<and> c \<le> 57"
proof (induction n rule: decimal.induct)
  case (1 n)
  have d: "48 \<le> (of_nat (48 + k) :: u8) \<and> (of_nat (48 + k) :: u8) \<le> 57" if "k < 10" for k
    using that by (simp add: word_le_nat_alt unat_of_nat take_bit_eq_mod del: of_nat_add)
  show ?case using 1 d by (subst decimal.simps) auto
qed

lemma ato64_append:
  "\<forall>c \<in> set ds. 48 \<le> c \<and> c \<le> 57 \<Longrightarrow> ato64 n (ds @ str) = ato64 (ato64 n ds) str"
  by (induction ds arbitrary: n) auto

lemma ato64_decimal: "psync_ato64 (decimal n) = of_nat n"
proof -
  have digit: "ato64 m [of_nat (48 + k)] = m * 10 + of_nat k" if "k < 10" for m k
  proof -
    have "unat (of_nat (48 + k) :: u8) = 48 + k" using that by (simp add: unat_of_nat take_bit_eq_mod del: of_nat_add)
    then have "48 \<le> (of_nat (48 + k) :: u8)" "(of_nat (48 + k) :: u8) \<le> 57" "(ucast (of_nat (48 + k) :: u8) :: u64) = of_nat (48 + k)"
      using that by (simp_all add: word_le_nat_alt unsigned_of_nat take_bit_eq_mod word_eq_iff_unsigned del: of_nat_add)
    then show ?thesis by simp
  qed
  have "ato64 0 (decimal n) = of_nat n"
  proof (induction n rule: decimal.induct)
    case (1 n)
    show ?case
    proof (cases "n < 10")
      case True
      then show ?thesis using digit [OF True, of 0] by (subst decimal.simps) simp
    next
      case False
      have "ato64 0 (decimal n) = ato64 (of_nat (n div 10)) [of_nat (48 + n mod 10)]"
        using False 1 [OF False] by (subst decimal.simps) (simp add: ato64_append [OF decimal_digits])
      also have "\<dots> = of_nat (n div 10) * 10 + of_nat (n mod 10)" by (intro digit) simp
      also have "\<dots> = (of_nat (n div 10 * 10 + n mod 10) :: u64)" by (simp only: of_nat_add of_nat_mult of_nat_numeral)
      finally show ?thesis by simp
    qed
  qed
  then show ?thesis by (simp add: psync_ato64_def)
qed

definition decimal_value :: "bytes \<Rightarrow> nat" where
  "decimal_value ds = foldl (\<lambda>v c. v * 10 + (unat c - 48)) 0 ds"

lemma decimal_value_decimal: "decimal_value (decimal n) = n"
proof (induction n rule: decimal.induct)
  case (1 n)
  have d: "unat (of_nat (48 + k) :: u8) - 48 = k" if "k < 10" for k
    using that by (simp add: unat_of_nat take_bit_eq_mod del: of_nat_add)
  show ?case
  proof (cases "n < 10")
    case True
    then show ?thesis using d [OF True] by (subst decimal.simps) (simp add: decimal_value_def)
  next
    case False
    then have "decimal_value (decimal n) = decimal_value (decimal (n div 10)) * 10 + (unat (of_nat (48 + n mod 10) :: u8) - 48)"
      by (subst decimal.simps) (simp add: decimal_value_def)
    also have "\<dots> = n div 10 * 10 + n mod 10" using 1 [OF False] d [of "n mod 10"] by simp
    finally show ?thesis by simp
  qed
qed

subsection \<open>Names of conflicted files\<close>

lemma conflicted_name_inject: "conflicted_name path m = conflicted_name path n \<longleftrightarrow> m = n"
proof
  assume "conflicted_name path m = conflicted_name path n"
  then have "(if m \<noteq> 0 then [32] @ decimal m @ [41] else [41]) = (if n \<noteq> 0 then [32] @ decimal n @ [41] else [41])"
    by (simp add: conflicted_name_def Let_def split: if_splits)
  then show "m = n" using decimal_value_decimal by (auto split: if_splits) (metis decimal_value_decimal)
qed simp

lemma conflicted_loop_first:
  "\<not> stat (conflicted_name path (num + k)) \<Longrightarrow> (\<And>j. j < k \<Longrightarrow> stat (conflicted_name path (num + j))) \<Longrightarrow>
    conflicted_loop stat path num = Some (conflicted_name path (num + k))"
proof (induction k arbitrary: num)
  case 0
  then show ?case by (subst conflicted_loop.simps) simp
next
  case (Suc k)
  have "stat (conflicted_name path num)" using Suc.prems(2) [of 0] by simp
  moreover have "stat (conflicted_name path (num + 1 + j))" if "j < k" for j using Suc.prems(2) [of "Suc j"] that by simp
  ultimately show ?case using Suc.IH [of "num + 1"] Suc.prems(1) by (subst conflicted_loop.simps) simp
qed

text \<open>C29: Renaming a conflicted file ends as long as only finitely many paths exist, with the name of the smallest
  number that is free; names with different numbers differ.\<close>

theorem rename_conflicted_ends:
  assumes "finite {p. stat p}"
  shows "\<exists>num. psync_rename_conflicted_file stat path = Some (conflicted_name path num)
    \<and> \<not> stat (conflicted_name path num) \<and> (\<forall>k < num. stat (conflicted_name path k))"
proof -
  have "inj (conflicted_name path)" by (simp add: inj_def conflicted_name_inject)
  then have "infinite (range (conflicted_name path))" using finite_imageD infinite_UNIV_nat by blast
  then have "\<not> range (conflicted_name path) \<subseteq> {p. stat p}" using assms finite_subset by blast
  then have "\<exists>n. \<not> stat (conflicted_name path n)" by blast
  then obtain n where n: "\<not> stat (conflicted_name path n)" "\<forall>k < n. stat (conflicted_name path k)"
    unfolding exists_least_iff [of "\<lambda>n. \<not> stat (conflicted_name path n)"] by blast
  then have "psync_rename_conflicted_file stat path = Some (conflicted_name path n)"
    using conflicted_loop_first [of stat path 0 n] by (simp add: psync_rename_conflicted_file_def)
  with n show ?thesis by blast
qed

theorem rename_conflicted_ends_witness:
  "\<exists>num. psync_rename_conflicted_file (\<lambda>p. p = [97]) [97] = Some (conflicted_name [97] num)
     \<and> \<not> conflicted_name [97] num = [97] \<and> (\<forall>k < num. conflicted_name [97] k = [97])"
proof -
  have "finite {p :: bytes. p = [97]}" by simp
  from rename_conflicted_ends [OF this] show ?thesis .
qed

text \<open>A dot in the name of a folder is taken for the one before the extension: \<^verbatim>\<open>/a.b/c\<close> becomes
  \<^verbatim>\<open>/a (conflicted).b/c\<close>.\<close>

lemma conflicted_name_folder:
  "conflicted_name [47, 97, 46, 98, 47, 99] 0 = [47, 97] @ conflicted_tag @ [41] @ [46, 98, 47, 99]"
  by code_simp

subsection \<open>File names and time stamps\<close>

lemma normalize_filename_safe:
  "length (psync_strnormalize_filename str) = length str \<and> set (psync_strnormalize_filename str) \<inter> {58, 47, 92} = {}
    \<and> psync_strnormalize_filename (psync_strnormalize_filename str) = psync_strnormalize_filename str"
  by (auto simp: psync_strnormalize_filename_def normalize_table_def)

text \<open>The time stamp and its terminator fill the buffer of 36 bytes exactly.\<close>

lemma time_format_length: "time_format dt nsec = Some res \<Longrightarrow> length res + 1 = 36"
proof -
  have "\<forall>d \<in> set day_names. length d = 3" "\<forall>m \<in> set month_names. length m = 3" by code_simp+
  then show "time_format dt nsec = Some res \<Longrightarrow> length res + 1 = 36"
    by (auto simp: time_format_def Let_def split: if_splits)
qed

end
