(* ===== verification/Plocks.thy ===== *)
theory Plocks
  imports Prelude
begin

section \<open>Read-write locks (\<open>plocks.c\<close>)\<close>

text \<open>
  Locks for many readers or one writer, with recursion, a reserved read lock that can become a write lock, and the
  upgrade of a read lock.  The fields of \<^verbatim>\<open>psync_rwlock_t\<close> and the counters that the code keeps per thread are one state;
  \<open>None\<close> is a failed assertion.  The code between taking and releasing the mutex is one step.  Waiting for a condition
  variable splits an operation: a step ends with the thread waiting, and the next step of the thread, the wake-up, continues the
  loop.  \<open>woken\<close> records that a waiting thread has been signalled; a thread may also wake up without that.  A signal wakes one
  thread that waits and has not been signalled, which one is an argument (\<open>u\<close>).  The special value of the write counter is
  the constructor \<open>RESERVED\<close>; the 32-bit counters of nested locks are natural numbers.
\<close>

type_synonym tid = nat

datatype wrcnt = WR nat | RESERVED

datatype waiting = Running | WaitRd bool | WaitStarve | WaitWr bool | WaitRs | WaitUp

record thread =
  rd :: nat
  wr :: wrcnt
  wait :: waiting
  woken :: bool

record rwlock =
  rcount :: nat
  rwait :: nat
  wcount :: nat
  wwait :: nat
  prefer_read :: bool
  reserved :: bool
  thr :: "tid \<Rightarrow> thread"

definition thread0 :: thread where
  "thread0 = \<lparr>rd = 0, wr = WR 0, wait = Running, woken = False\<rparr>"

definition psync_rwlock_init :: rwlock where
  "psync_rwlock_init = \<lparr>rcount = 0, rwait = 0, wcount = 0, wwait = 0, prefer_read = False, reserved = False,
     thr = (\<lambda>t. thread0)\<rparr>"

definition set_thr :: "tid \<Rightarrow> thread \<Rightarrow> rwlock \<Rightarrow> rwlock" where
  "set_thr t c s = s\<lparr>thr := (thr s)(t := c)\<rparr>"

definition psync_rwlock_create_cnt :: "nat \<Rightarrow> wrcnt \<Rightarrow> thread" where
  "psync_rwlock_create_cnt r w = \<lparr>rd = r, wr = w, wait = Running, woken = False\<rparr>"

definition wait_for :: "waiting \<Rightarrow> tid \<Rightarrow> rwlock \<Rightarrow> rwlock" where
  "wait_for w t s = set_thr t ((thr s t)\<lparr>wait := w, woken := False\<rparr>) s"

subsection \<open>Condition variables\<close>

definition rwaiter :: "thread \<Rightarrow> bool" where
  "rwaiter c \<longleftrightarrow> (case wait c of WaitRd b \<Rightarrow> True | WaitStarve \<Rightarrow> True | _ \<Rightarrow> False)"

definition wwaiter :: "thread \<Rightarrow> bool" where
  "wwaiter c \<longleftrightarrow> (case wait c of WaitWr b \<Rightarrow> True | WaitRs \<Rightarrow> True | WaitUp \<Rightarrow> True | _ \<Rightarrow> False)"

definition broadcast_r :: "rwlock \<Rightarrow> rwlock" where
  "broadcast_r s = s\<lparr>thr := (\<lambda>t. if rwaiter (thr s t) then (thr s t)\<lparr>woken := True\<rparr> else thr s t)\<rparr>"

definition broadcast_w :: "rwlock \<Rightarrow> rwlock" where
  "broadcast_w s = s\<lparr>thr := (\<lambda>t. if wwaiter (thr s t) then (thr s t)\<lparr>woken := True\<rparr> else thr s t)\<rparr>"

definition signal_w :: "tid \<Rightarrow> rwlock \<Rightarrow> rwlock" where
  "signal_w u s = (if wwaiter (thr s u) then set_thr u ((thr s u)\<lparr>woken := True\<rparr>) s else s)"

subsection \<open>Recursion\<close>

definition psync_rwlock_check_rdrecursive_in :: "thread \<Rightarrow> (thread \<times> bool) option" where
  "psync_rwlock_check_rdrecursive_in c =
     (if rd c \<noteq> 0 then Some (c\<lparr>rd := rd c + 1\<rparr>, True)
      else case wr c of
        WR n \<Rightarrow> if n \<noteq> 0 then Some (c\<lparr>wr := WR (n + 1)\<rparr>, True) else Some (c, False)
      | RESERVED \<Rightarrow> None)"

definition psync_rwlock_check_wrrecursive_in :: "thread \<Rightarrow> (thread \<times> bool) option" where
  "psync_rwlock_check_wrrecursive_in c =
     (if rd c \<noteq> 0 then None
      else case wr c of
        WR n \<Rightarrow> if n \<noteq> 0 then Some (c\<lparr>wr := WR (n + 1)\<rparr>, True) else Some (c, False)
      | RESERVED \<Rightarrow> None)"

definition psync_rwlock_check_recursive_out :: "thread \<Rightarrow> (thread \<times> bool) option" where
  "psync_rwlock_check_recursive_out c =
     (if rd c \<noteq> 0 then Some (c\<lparr>rd := rd c - 1\<rparr>, rd c - 1 > 0)
      else case wr c of
        WR n \<Rightarrow> if n = 0 then None else Some (c\<lparr>wr := WR (n - 1)\<rparr>, n - 1 > 0)
      | RESERVED \<Rightarrow> Some (c\<lparr>wr := WR (2 ^ 32 - 2)\<rparr>, True))"

subsection \<open>Reading\<close>

definition rd_blocked :: "rwlock \<Rightarrow> bool" where
  "rd_blocked s \<longleftrightarrow> wcount s \<noteq> 0 \<or> (wwait s \<noteq> 0 \<and> \<not> reserved s)"

definition rd_take :: "tid \<Rightarrow> rwlock \<Rightarrow> rwlock" where
  "rd_take t s = set_thr t (psync_rwlock_create_cnt 1 (WR 0)) (s\<lparr>rcount := rcount s + 1\<rparr>)"

definition rd_loop :: "bool \<Rightarrow> tid \<Rightarrow> rwlock \<Rightarrow> rwlock" where
  "rd_loop timed t s =
     (if rd_blocked s then wait_for (WaitRd timed) t (s\<lparr>rwait := rwait s + 1\<rparr>) else rd_take t s)"

definition recursive_or :: "(thread \<times> bool) option \<Rightarrow> (rwlock \<Rightarrow> 'r) \<Rightarrow> (rwlock \<Rightarrow> 'r) \<Rightarrow> tid \<Rightarrow> rwlock \<Rightarrow> 'r option" where
  "recursive_or chk ret cont t s =
     (case chk of None \<Rightarrow> None | Some (c, rec) \<Rightarrow> if rec then Some (ret (set_thr t c s)) else Some (cont s))"

definition psync_rwlock_rdlock :: "tid \<Rightarrow> rwlock \<Rightarrow> rwlock option" where
  "psync_rwlock_rdlock t s =
     recursive_or (psync_rwlock_check_rdrecursive_in (thr s t)) (\<lambda>s. s) (rd_loop False t) t s"

definition psync_rwlock_timedrdlock :: "tid \<Rightarrow> rwlock \<Rightarrow> rwlock option" where
  "psync_rwlock_timedrdlock t s =
     recursive_or (psync_rwlock_check_rdrecursive_in (thr s t)) (\<lambda>s. s) (rd_loop True t) t s"

definition psync_rwlock_tryrdlock :: "tid \<Rightarrow> rwlock \<Rightarrow> (rwlock \<times> int) option" where
  "psync_rwlock_tryrdlock t s =
     recursive_or (psync_rwlock_check_rdrecursive_in (thr s t)) (\<lambda>s. (s, 0))
       (\<lambda>s. if rd_blocked s then (s, -1) else (rd_take t s, 0)) t s"

definition rd_wake :: "bool \<Rightarrow> tid \<Rightarrow> rwlock \<Rightarrow> rwlock" where
  "rd_wake timed t s = rd_loop timed t (s\<lparr>rwait := rwait s - 1\<rparr>)"

definition rd_timeout :: "tid \<Rightarrow> rwlock \<Rightarrow> rwlock" where
  "rd_timeout t s = wait_for Running t (s\<lparr>rwait := rwait s - 1\<rparr>)"

definition starve_loop :: "tid \<Rightarrow> rwlock \<Rightarrow> rwlock" where
  "starve_loop t s =
     (if wcount s \<noteq> 0 then wait_for WaitStarve t (s\<lparr>rwait := rwait s + 1, prefer_read := True\<rparr>) else rd_take t s)"

definition psync_rwlock_rdlock_starvewr :: "tid \<Rightarrow> rwlock \<Rightarrow> rwlock option" where
  "psync_rwlock_rdlock_starvewr t s =
     recursive_or (psync_rwlock_check_rdrecursive_in (thr s t)) (\<lambda>s. s) (starve_loop t) t s"

definition starve_wake :: "tid \<Rightarrow> rwlock \<Rightarrow> rwlock" where
  "starve_wake t s = starve_loop t (s\<lparr>rwait := rwait s - 1, prefer_read := False\<rparr>)"

subsection \<open>Writing\<close>

definition wr_blocked :: "rwlock \<Rightarrow> bool" where
  "wr_blocked s \<longleftrightarrow> rcount s \<noteq> 0 \<or> wcount s \<noteq> 0 \<or> reserved s"

definition wr_take :: "tid \<Rightarrow> rwlock \<Rightarrow> rwlock" where
  "wr_take t s = set_thr t (psync_rwlock_create_cnt 0 (WR 1)) (s\<lparr>wcount := wcount s + 1\<rparr>)"

definition wr_loop :: "bool \<Rightarrow> tid \<Rightarrow> rwlock \<Rightarrow> rwlock" where
  "wr_loop timed t s =
     (if wr_blocked s then wait_for (WaitWr timed) t (s\<lparr>wwait := wwait s + 1\<rparr>) else wr_take t s)"

definition psync_rwlock_wrlock :: "tid \<Rightarrow> rwlock \<Rightarrow> rwlock option" where
  "psync_rwlock_wrlock t s =
     recursive_or (psync_rwlock_check_wrrecursive_in (thr s t)) (\<lambda>s. s) (wr_loop False t) t s"

definition psync_rwlock_timedwrlock :: "tid \<Rightarrow> rwlock \<Rightarrow> rwlock option" where
  "psync_rwlock_timedwrlock t s =
     recursive_or (psync_rwlock_check_wrrecursive_in (thr s t)) (\<lambda>s. s) (wr_loop True t) t s"

definition psync_rwlock_trywrlock :: "tid \<Rightarrow> rwlock \<Rightarrow> (rwlock \<times> int) option" where
  "psync_rwlock_trywrlock t s =
     recursive_or (psync_rwlock_check_wrrecursive_in (thr s t)) (\<lambda>s. (s, 0))
       (\<lambda>s. if wr_blocked s then (s, -1) else (wr_take t s, 0)) t s"

definition wr_wake :: "bool \<Rightarrow> tid \<Rightarrow> rwlock \<Rightarrow> rwlock" where
  "wr_wake timed t s = wr_loop timed t (s\<lparr>wwait := wwait s - 1\<rparr>)"

definition wr_timeout :: "tid \<Rightarrow> rwlock \<Rightarrow> rwlock" where
  "wr_timeout t s =
     (let s = wait_for Running t (s\<lparr>wwait := wwait s - 1\<rparr>) in
      if wwait s = 0 \<and> wcount s = 0 \<and> rwait s \<noteq> 0 then broadcast_r s else s)"

subsection \<open>Reserving and upgrading\<close>

definition rs_loop :: "tid \<Rightarrow> rwlock \<Rightarrow> rwlock" where
  "rs_loop t s =
     (if wcount s \<noteq> 0 \<or> reserved s then wait_for WaitRs t (s\<lparr>wwait := wwait s + 1\<rparr>)
      else let s = (if rwait s \<noteq> 0 then broadcast_r s else s)
           in set_thr t (psync_rwlock_create_cnt 1 RESERVED) (s\<lparr>rcount := rcount s + 1, reserved := True\<rparr>))"

definition psync_rwlock_rslock :: "tid \<Rightarrow> rwlock \<Rightarrow> rwlock option" where
  "psync_rwlock_rslock t s =
     (let c = thr s t in
      if rd c \<noteq> 0 then None
      else case wr c of
        WR n \<Rightarrow> if n \<noteq> 0 then Some (set_thr t (c\<lparr>wr := WR (n + 1)\<rparr>) s) else Some (rs_loop t s)
      | RESERVED \<Rightarrow> Some (set_thr t (c\<lparr>rd := rd c + 1\<rparr>) s))"

definition rs_wake :: "tid \<Rightarrow> rwlock \<Rightarrow> rwlock" where
  "rs_wake t s = rs_loop t (s\<lparr>wwait := wwait s - 1\<rparr>)"

definition up_loop :: "tid \<Rightarrow> rwlock \<Rightarrow> rwlock option" where
  "up_loop t s =
     (if rcount s \<noteq> 0 then Some (wait_for WaitUp t (s\<lparr>wwait := wwait s + 1\<rparr>))
      else if wcount s \<noteq> 0 then None
      else Some (set_thr t (psync_rwlock_create_cnt 0 (WR (rd (thr s t)))) (s\<lparr>wcount := wcount s + 1, reserved := False\<rparr>)))"

definition psync_rwlock_towrlock :: "tid \<Rightarrow> rwlock \<Rightarrow> (rwlock \<times> int) option" where
  "psync_rwlock_towrlock t s =
     (let c = thr s t in
      case wr c of
        WR (Suc n) \<Rightarrow> Some (s, 0)
      | w \<Rightarrow> if rd c = 0 \<or> rcount s = 0 \<or> wcount s \<noteq> 0 then None
             else if reserved s \<and> w \<noteq> RESERVED then Some (s, -1)
             else map_option (\<lambda>s. (s, 0)) (up_loop t (s\<lparr>reserved := True, rcount := rcount s - 1\<rparr>)))"

definition up_wake :: "tid \<Rightarrow> rwlock \<Rightarrow> rwlock option" where
  "up_wake t s = up_loop t (s\<lparr>wwait := wwait s - 1\<rparr>)"

subsection \<open>Releasing\<close>

definition psync_rwlock_is_reserved_by_this_thread_clr :: "tid \<Rightarrow> rwlock \<Rightarrow> rwlock \<times> bool" where
  "psync_rwlock_is_reserved_by_this_thread_clr t s =
     (if wr (thr s t) = RESERVED then (set_thr t ((thr s t)\<lparr>wr := WR 0\<rparr>) s, True) else (s, False))"

definition unlock_rd :: "tid \<Rightarrow> tid \<Rightarrow> rwlock \<Rightarrow> rwlock" where
  "unlock_rd u t s =
     (let s = (if reserved s
               then case psync_rwlock_is_reserved_by_this_thread_clr t s of (s, r) \<Rightarrow> if r then s\<lparr>reserved := False\<rparr> else s
               else s);
          s = s\<lparr>rcount := rcount s - 1\<rparr>
      in if rcount s = 0 \<and> wwait s \<noteq> 0 then if reserved s then broadcast_w s else signal_w u s else s)"

definition unlock_wr :: "tid \<Rightarrow> rwlock \<Rightarrow> rwlock option" where
  "unlock_wr u s =
     (let s = s\<lparr>wcount := wcount s - 1\<rparr> in
      if wcount s \<noteq> 0 then Some s
      else if reserved s then (if wwait s = 0 then None else Some (broadcast_w s))
      else if prefer_read s
      then Some (if rwait s \<noteq> 0 then broadcast_r s else if wwait s \<noteq> 0 then signal_w u s else s)
      else Some (if wwait s \<noteq> 0 then signal_w u s else if rwait s \<noteq> 0 then broadcast_r s else s))"

definition psync_rwlock_unlock :: "tid \<Rightarrow> tid \<Rightarrow> rwlock \<Rightarrow> rwlock option" where
  "psync_rwlock_unlock u t s =
     (case psync_rwlock_check_recursive_out (thr s t) of None \<Rightarrow> None
      | Some (c, rec) \<Rightarrow>
          let s = set_thr t c s in
          if rec then Some s
          else if rcount s \<noteq> 0 \<and> wcount s \<noteq> 0 then None
          else if rcount s \<noteq> 0 then Some (unlock_rd u t s)
          else if wcount s = 0 then None
          else unlock_wr u s)"

definition psync_rwlock_num_waiters :: "rwlock \<Rightarrow> nat" where
  "psync_rwlock_num_waiters s = rwait s + wwait s"

definition psync_rwlock_holding_rdlock :: "tid \<Rightarrow> rwlock \<Rightarrow> bool" where
  "psync_rwlock_holding_rdlock t s \<longleftrightarrow> rd (thr s t) \<noteq> 0"

definition psync_rwlock_holding_wrlock :: "tid \<Rightarrow> rwlock \<Rightarrow> bool" where
  "psync_rwlock_holding_wrlock t s \<longleftrightarrow> wr (thr s t) \<noteq> WR 0 \<and> wr (thr s t) \<noteq> RESERVED"

definition psync_rwlock_holding_lock :: "tid \<Rightarrow> rwlock \<Rightarrow> bool" where
  "psync_rwlock_holding_lock t s \<longleftrightarrow> rd (thr s t) \<noteq> 0 \<or> wr (thr s t) \<noteq> WR 0"

subsection \<open>Steps of the threads\<close>

definition signals_waiter :: "tid \<Rightarrow> rwlock \<Rightarrow> bool" where
  "signals_waiter u s \<longleftrightarrow> ((\<exists>v. wwaiter (thr s v) \<and> \<not> woken (thr s v)) \<longrightarrow> wwaiter (thr s u) \<and> \<not> woken (thr s u))"

inductive rw_step :: "rwlock \<Rightarrow> rwlock \<Rightarrow> bool" where
  step_rdlock: "wait (thr s t) = Running \<Longrightarrow> psync_rwlock_rdlock t s = Some s' \<Longrightarrow> rw_step s s'"
| step_timedrdlock: "wait (thr s t) = Running \<Longrightarrow> psync_rwlock_timedrdlock t s = Some s' \<Longrightarrow> rw_step s s'"
| step_tryrdlock: "wait (thr s t) = Running \<Longrightarrow> psync_rwlock_tryrdlock t s = Some (s', r) \<Longrightarrow> rw_step s s'"
| step_starvewr: "wait (thr s t) = Running \<Longrightarrow> psync_rwlock_rdlock_starvewr t s = Some s' \<Longrightarrow> rw_step s s'"
| step_wrlock: "wait (thr s t) = Running \<Longrightarrow> psync_rwlock_wrlock t s = Some s' \<Longrightarrow> rw_step s s'"
| step_timedwrlock: "wait (thr s t) = Running \<Longrightarrow> psync_rwlock_timedwrlock t s = Some s' \<Longrightarrow> rw_step s s'"
| step_trywrlock: "wait (thr s t) = Running \<Longrightarrow> psync_rwlock_trywrlock t s = Some (s', r) \<Longrightarrow> rw_step s s'"
| step_rslock: "wait (thr s t) = Running \<Longrightarrow> psync_rwlock_rslock t s = Some s' \<Longrightarrow> rw_step s s'"
| step_towrlock: "wait (thr s t) = Running \<Longrightarrow> psync_rwlock_towrlock t s = Some (s', r) \<Longrightarrow> rw_step s s'"
| step_unlock: "wait (thr s t) = Running \<Longrightarrow> signals_waiter u s \<Longrightarrow> psync_rwlock_unlock u t s = Some s' \<Longrightarrow> rw_step s s'"
| step_rd_wake: "wait (thr s t) = WaitRd b \<Longrightarrow> rw_step s (rd_wake b t s)"
| step_rd_timeout: "wait (thr s t) = WaitRd True \<Longrightarrow> \<not> woken (thr s t) \<Longrightarrow> rw_step s (rd_timeout t s)"
| step_starve_wake: "wait (thr s t) = WaitStarve \<Longrightarrow> rw_step s (starve_wake t s)"
| step_wr_wake: "wait (thr s t) = WaitWr b \<Longrightarrow> rw_step s (wr_wake b t s)"
| step_wr_timeout: "wait (thr s t) = WaitWr True \<Longrightarrow> \<not> woken (thr s t) \<Longrightarrow> rw_step s (wr_timeout t s)"
| step_rs_wake: "wait (thr s t) = WaitRs \<Longrightarrow> rw_step s (rs_wake t s)"
| step_up_wake: "wait (thr s t) = WaitUp \<Longrightarrow> up_wake t s = Some s' \<Longrightarrow> rw_step s s'"

subsection \<open>Counting threads\<close>

definition fin :: "(tid \<Rightarrow> thread) \<Rightarrow> bool" where
  "fin f \<longleftrightarrow> finite {t. f t \<noteq> thread0}"

definition num :: "(thread \<Rightarrow> bool) \<Rightarrow> (tid \<Rightarrow> thread) \<Rightarrow> nat" where
  "num P f = card {t. P (f t)}"

definition reader :: "thread \<Rightarrow> bool" where
  "reader c \<longleftrightarrow> rd c \<noteq> 0 \<and> wait c \<noteq> WaitUp"

definition writer :: "thread \<Rightarrow> bool" where
  "writer c \<longleftrightarrow> wr c \<noteq> WR 0 \<and> wr c \<noteq> RESERVED"

definition reserver :: "thread \<Rightarrow> bool" where
  "reserver c \<longleftrightarrow> wr c = RESERVED \<or> wait c = WaitUp"

definition counted :: "(thread \<Rightarrow> bool) \<Rightarrow> bool" where
  "counted P \<longleftrightarrow> \<not> P thread0 \<and> (\<forall>c b. P (c\<lparr>woken := b\<rparr>) = P c)"

lemma counted_simps [simp]: "counted reader" "counted writer" "counted reserver" "counted rwaiter" "counted wwaiter"
  by (simp_all add: counted_def reader_def writer_def reserver_def rwaiter_def wwaiter_def thread0_def)

lemma fin_upd [simp]: "fin f \<Longrightarrow> fin (f(t := c))"
proof -
  assume "fin f"
  then have "finite (insert t {t. f t \<noteq> thread0})" by (simp add: fin_def)
  then show ?thesis unfolding fin_def by (rule rev_finite_subset) auto
qed

lemma finite_num: "fin f \<Longrightarrow> counted P \<Longrightarrow> finite {t. P (f t)}"
  unfolding fin_def counted_def by (erule rev_finite_subset) auto

lemma num_pos: "fin f \<Longrightarrow> counted P \<Longrightarrow> P (f t) \<Longrightarrow> 0 < num P f"
  unfolding num_def using finite_num by (subst card_gt_0_iff) auto

lemma num_0: "fin f \<Longrightarrow> counted P \<Longrightarrow> num P f = 0 \<longleftrightarrow> (\<forall>t. \<not> P (f t))"
  unfolding num_def using finite_num by auto

lemma num_upd:
  assumes "fin f" "counted P"
  shows "num P (f(t := c)) = num P f - of_bool (P (f t)) + of_bool (P c)"
proof -
  let ?A = "{u. P (f u)}"
  have A: "finite ?A" by (rule finite_num [OF assms])
  have "{u. P ((f(t := c)) u)} = (if P c then insert t (?A - {t}) else ?A - {t})" by auto
  then show ?thesis using A num_pos [OF assms, of t] by (auto simp: num_def card_insert_if card_Diff_singleton_if)
qed

lemma num_one:
  assumes "fin f" "counted P" "num P f \<le> 1" "P (f t)" "P (f u)"
  shows "t = u"
proof (rule ccontr)
  assume "t \<noteq> u"
  moreover have "{t, u} \<subseteq> {t. P (f t)}" using assms(4,5) by simp
  ultimately have "2 \<le> num P f" unfolding num_def using card_mono [OF finite_num [OF assms(1,2)], of "{t, u}"] by simp
  with assms(3) show False by simp
qed

lemma broadcast_simps [simp]:
  "rcount (broadcast_r s) = rcount s" "wcount (broadcast_r s) = wcount s" "rwait (broadcast_r s) = rwait s"
  "wwait (broadcast_r s) = wwait s" "reserved (broadcast_r s) = reserved s" "prefer_read (broadcast_r s) = prefer_read s"
  "rcount (broadcast_w s) = rcount s" "wcount (broadcast_w s) = wcount s" "rwait (broadcast_w s) = rwait s"
  "wwait (broadcast_w s) = wwait s" "reserved (broadcast_w s) = reserved s" "prefer_read (broadcast_w s) = prefer_read s"
  "rcount (signal_w u s) = rcount s" "wcount (signal_w u s) = wcount s" "rwait (signal_w u s) = rwait s"
  "wwait (signal_w u s) = wwait s" "reserved (signal_w u s) = reserved s" "prefer_read (signal_w u s) = prefer_read s"
  by (simp_all add: broadcast_r_def broadcast_w_def signal_w_def set_thr_def)

text \<open>Waking threads changes nothing that is counted.\<close>

definition same_but_woken :: "(tid \<Rightarrow> thread) \<Rightarrow> (tid \<Rightarrow> thread) \<Rightarrow> bool" where
  "same_but_woken f g \<longleftrightarrow> (\<forall>t. g t = f t \<or> (rwaiter (f t) \<or> wwaiter (f t)) \<and> g t = (f t)\<lparr>woken := True\<rparr>)"

lemma same_broadcast [simp]: "same_but_woken (thr s) (thr (broadcast_r s))" "same_but_woken (thr s) (thr (broadcast_w s))"
  "same_but_woken (thr s) (thr (signal_w u s))"
  by (auto simp: same_but_woken_def broadcast_r_def broadcast_w_def signal_w_def set_thr_def)

lemma same_num:
  assumes "same_but_woken f g"
  shows "counted P \<Longrightarrow> num P g = num P f" "fin f \<Longrightarrow> fin g"
proof -
  show "num P g = num P f" if "counted P"
  proof -
    have "P (g t) = P (f t)" for t using assms that by (auto simp: same_but_woken_def counted_def) metis+
    then show ?thesis by (simp add: num_def)
  qed
  have "\<not> rwaiter thread0" "\<not> wwaiter thread0" by (simp_all add: rwaiter_def wwaiter_def thread0_def)
  then have "f t = thread0 \<Longrightarrow> g t = thread0" for t using assms unfolding same_but_woken_def by (elim allE [of _ t]) simp
  then have "{t. g t \<noteq> thread0} \<subseteq> {t. f t \<noteq> thread0}" by auto
  then show "fin f \<Longrightarrow> fin g" unfolding fin_def by (rule finite_subset)
qed

subsection \<open>The invariant\<close>

definition tok :: "thread \<Rightarrow> bool" where
  "tok c \<longleftrightarrow> (writer c \<longrightarrow> rd c = 0) \<and> (wr c = RESERVED \<longrightarrow> rd c \<noteq> 0) \<and> (wait c = WaitUp \<longrightarrow> rd c \<noteq> 0)
     \<and> (wait c \<noteq> Running \<and> wait c \<noteq> WaitUp \<longrightarrow> rd c = 0 \<and> wr c = WR 0)"

definition exclusive :: "rwlock \<Rightarrow> bool" where
  "exclusive s \<longleftrightarrow> wcount s \<le> 1 \<and> (wcount s \<noteq> 0 \<longrightarrow> rcount s = 0 \<and> \<not> reserved s)"

definition prefer_ok :: "rwlock \<Rightarrow> bool" where
  "prefer_ok s \<longleftrightarrow> (prefer_read s \<longrightarrow> (\<exists>t. wait (thr s t) = WaitStarve))"

definition rw_inv :: "rwlock \<Rightarrow> bool" where
  "rw_inv s \<longleftrightarrow> fin (thr s) \<and> (\<forall>t. tok (thr s t)) \<and> rcount s = num reader (thr s) \<and> wcount s = num writer (thr s)
     \<and> rwait s = num rwaiter (thr s) \<and> wwait s = num wwaiter (thr s) \<and> of_bool (reserved s) = num reserver (thr s)
     \<and> exclusive s \<and> prefer_ok s"

lemma rw_invD:
  assumes "rw_inv s"
  shows "fin (thr s)" "tok (thr s t)" "reader (thr s t) \<Longrightarrow> rcount s \<noteq> 0" "writer (thr s t) \<Longrightarrow> wcount s \<noteq> 0"
    "rwaiter (thr s t) \<Longrightarrow> rwait s \<noteq> 0" "wwaiter (thr s t) \<Longrightarrow> wwait s \<noteq> 0" "reserver (thr s t) \<Longrightarrow> reserved s"
    "exclusive s" "prefer_ok s"
  using assms num_pos [of "thr s" reader t] num_pos [of "thr s" writer t] num_pos [of "thr s" rwaiter t]
    num_pos [of "thr s" wwaiter t] num_pos [of "thr s" reserver t]
  unfolding rw_inv_def by (auto simp: of_bool_def split: if_splits)

text \<open>One thread changes, and the counters with it.\<close>

lemma inv_set:
  assumes "rw_inv s" "thr s' = (thr s)(t := c)" "tok c"
    "rcount s' = rcount s - of_bool (reader (thr s t)) + of_bool (reader c)"
    "wcount s' = wcount s - of_bool (writer (thr s t)) + of_bool (writer c)"
    "rwait s' = rwait s - of_bool (rwaiter (thr s t)) + of_bool (rwaiter c)"
    "wwait s' = wwait s - of_bool (wwaiter (thr s t)) + of_bool (wwaiter c)"
    "(of_bool (reserved s') :: nat) = of_bool (reserved s) - of_bool (reserver (thr s t)) + of_bool (reserver c)"
    "exclusive s'" "prefer_read s' \<Longrightarrow> prefer_read s \<and> wait (thr s t) \<noteq> WaitStarve \<or> wait c = WaitStarve"
  shows "rw_inv s'"
proof -
  have "prefer_ok s'"
    using assms(10) rw_invD(9) [OF assms(1)] unfolding prefer_ok_def assms(2) by (metis fun_upd_apply)
  then show ?thesis using assms unfolding rw_inv_def by (simp add: num_upd)
qed

text \<open>Threads are woken.\<close>

lemma inv_woken:
  assumes "rw_inv s" "same_but_woken (thr s) (thr s')" "rcount s' = rcount s" "wcount s' = wcount s" "rwait s' = rwait s"
    "wwait s' = wwait s" "reserved s' = reserved s" "prefer_read s' = prefer_read s"
  shows "rw_inv s'"
proof -
  have "tok (thr s' t)" "wait (thr s' t) = wait (thr s t)" for t
    using assms(1,2) rw_invD(2) [OF assms(1), of t]
    by (auto simp: same_but_woken_def tok_def writer_def dest: spec [of _ t])
  moreover have "exclusive s'" "prefer_ok s'"
    using rw_invD(8,9) [OF assms(1)] assms(3-8) calculation(2) by (simp_all add: exclusive_def prefer_ok_def)
  ultimately show ?thesis using assms same_num [OF assms(2)] unfolding rw_inv_def by simp
qed

lemma inv_init: "rw_inv psync_rwlock_init"
  by (simp add: rw_inv_def psync_rwlock_init_def fin_def num_def tok_def exclusive_def prefer_ok_def thread0_def
    reader_def writer_def rwaiter_def wwaiter_def reserver_def)

lemmas thread_preds = reader_def writer_def rwaiter_def wwaiter_def reserver_def tok_def

lemmas op_defs = set_thr_def wait_for_def psync_rwlock_create_cnt_def

text \<open>A thread that holds nothing takes part in an acquisition, whether it has just called it or was waiting: \<open>leave\<close> is
  the decrement of the waiters by the thread that wakes up.\<close>

definition free :: "thread \<Rightarrow> bool" where
  "free c \<longleftrightarrow> rd c = 0 \<and> wr c = WR 0"

definition leave :: "tid \<Rightarrow> rwlock \<Rightarrow> rwlock" where
  "leave t s = s\<lparr>rwait := rwait s - of_bool (rwaiter (thr s t)), wwait := wwait s - of_bool (wwaiter (thr s t)),
     prefer_read := (prefer_read s \<and> wait (thr s t) \<noteq> WaitStarve)\<rparr>"

lemma leave_running: "wait (thr s t) = Running \<Longrightarrow> leave t s = s"
  by (simp add: leave_def rwaiter_def wwaiter_def)

lemma leave_wake:
  "wait (thr s t) = WaitRd b \<Longrightarrow> rd_wake b t s = rd_loop b t (leave t s)"
  "wait (thr s t) = WaitStarve \<Longrightarrow> starve_wake t s = starve_loop t (leave t s)"
  "wait (thr s t) = WaitWr b \<Longrightarrow> wr_wake b t s = wr_loop b t (leave t s)"
  "wait (thr s t) = WaitRs \<Longrightarrow> rs_wake t s = rs_loop t (leave t s)"
  "wait (thr s t) = WaitUp \<Longrightarrow> up_wake t s = up_loop t (leave t s)"
  by (simp_all add: rd_wake_def starve_wake_def wr_wake_def rs_wake_def up_wake_def leave_def rwaiter_def wwaiter_def)

lemma free_not_up: "rw_inv s \<Longrightarrow> free (thr s t) \<Longrightarrow> wait (thr s t) \<noteq> WaitUp \<and> \<not> reader (thr s t) \<and> \<not> writer (thr s t) \<and> \<not> reserver (thr s t)"
  using rw_invD(2) [of s t] by (auto simp: free_def thread_preds)

lemma preds_create [simp]:
  "reader (psync_rwlock_create_cnt r w) \<longleftrightarrow> r \<noteq> 0"
  "writer (psync_rwlock_create_cnt r w) \<longleftrightarrow> w \<noteq> WR 0 \<and> w \<noteq> RESERVED"
  "reserver (psync_rwlock_create_cnt r w) \<longleftrightarrow> w = RESERVED"
  "\<not> rwaiter (psync_rwlock_create_cnt r w)" "\<not> wwaiter (psync_rwlock_create_cnt r w)"
  "wait (psync_rwlock_create_cnt r w) = Running" "\<not> woken (psync_rwlock_create_cnt r w)"
  "rd (psync_rwlock_create_cnt r w) = r" "wr (psync_rwlock_create_cnt r w) = w"
  by (simp_all add: psync_rwlock_create_cnt_def thread_preds)

lemma preds_wait [simp]:
  "reader (c\<lparr>wait := w, woken := b\<rparr>) \<longleftrightarrow> rd c \<noteq> 0 \<and> w \<noteq> WaitUp"
  "writer (c\<lparr>wait := w, woken := b\<rparr>) \<longleftrightarrow> writer c"
  "reserver (c\<lparr>wait := w, woken := b\<rparr>) \<longleftrightarrow> wr c = RESERVED \<or> w = WaitUp"
  "rwaiter (c\<lparr>wait := w, woken := b\<rparr>) \<longleftrightarrow> w = WaitRd True \<or> w = WaitRd False \<or> w = WaitStarve"
  "wwaiter (c\<lparr>wait := w, woken := b\<rparr>) \<longleftrightarrow> w = WaitWr True \<or> w = WaitWr False \<or> w = WaitRs \<or> w = WaitUp"
  by (cases w; simp add: thread_preds)+

lemma leave_simps [simp]:
  "thr (leave t s) = thr s" "rcount (leave t s) = rcount s" "wcount (leave t s) = wcount s" "reserved (leave t s) = reserved s"
  by (simp_all add: leave_def)

lemma inv_rd_take:
  assumes "rw_inv s" "free (thr s t)" "wcount s = 0"
  shows "rw_inv (rd_take t (leave t s))"
  by (rule inv_set [OF assms(1), of _ t "psync_rwlock_create_cnt 1 (WR 0)"])
    (use assms(3) free_not_up [OF assms(1,2)] in \<open>simp_all add: rd_take_def set_thr_def leave_def exclusive_def tok_def\<close>)

lemma inv_wr_take:
  assumes "rw_inv s" "free (thr s t)" "\<not> wr_blocked s"
  shows "rw_inv (wr_take t (leave t s))"
  by (rule inv_set [OF assms(1), of _ t "psync_rwlock_create_cnt 0 (WR 1)"])
    (use assms(3) free_not_up [OF assms(1,2)] in \<open>simp_all add: wr_take_def wr_blocked_def set_thr_def leave_def exclusive_def tok_def\<close>)

lemma inv_wait:
  assumes "rw_inv s" "free (thr s t)" "w \<noteq> Running" "w \<noteq> WaitUp"
    "thr s' = thr (wait_for w t s)" "rcount s' = rcount s" "wcount s' = wcount s" "reserved s' = reserved s"
    "rwait s' = rwait (leave t s) + of_bool (w = WaitRd True \<or> w = WaitRd False \<or> w = WaitStarve)"
    "wwait s' = wwait (leave t s) + of_bool (w = WaitWr True \<or> w = WaitWr False \<or> w = WaitRs)"
    "prefer_read s' = (prefer_read (leave t s) \<or> w = WaitStarve)"
  shows "rw_inv s'"
proof (rule inv_set [OF assms(1), of _ t "(thr s t)\<lparr>wait := w, woken := False\<rparr>"])
  have f: "rd (thr s t) = 0" "wr (thr s t) = WR 0" using assms(2) by (simp_all add: free_def)
  show "tok ((thr s t)\<lparr>wait := w, woken := False\<rparr>)" using f assms(4) by (simp add: tok_def)
  show "exclusive s'" using rw_invD(8) [OF assms(1)] assms(6-8) by (simp add: exclusive_def)
  show "prefer_read s' \<Longrightarrow> prefer_read s \<and> wait (thr s t) \<noteq> WaitStarve \<or> wait ((thr s t)\<lparr>wait := w, woken := False\<rparr>) = WaitStarve"
    using assms(11) by (auto simp: leave_def)
qed (use assms(4-10) free_not_up [OF assms(1,2)] assms(2) in \<open>simp_all add: wait_for_def set_thr_def free_def leave_def\<close>)

lemma inv_rd_loop: "rw_inv s \<Longrightarrow> free (thr s t) \<Longrightarrow> rw_inv (rd_loop b t (leave t s))"
  by (cases "rd_blocked (leave t s)"; cases b)
    (auto simp: rd_loop_def rd_blocked_def wait_for_def set_thr_def intro: inv_rd_take inv_wait [of s t "WaitRd b"])

lemma inv_starve_loop: "rw_inv s \<Longrightarrow> free (thr s t) \<Longrightarrow> rw_inv (starve_loop t (leave t s))"
  by (cases "wcount s = 0")
    (auto simp: starve_loop_def wait_for_def set_thr_def intro: inv_rd_take inv_wait [of s t WaitStarve])

lemma inv_wr_loop: "rw_inv s \<Longrightarrow> free (thr s t) \<Longrightarrow> rw_inv (wr_loop b t (leave t s))"
  by (cases "wr_blocked (leave t s)"; cases b)
    (auto simp: wr_loop_def wr_blocked_def wait_for_def set_thr_def intro: inv_wr_take inv_wait [of s t "WaitWr b"])

lemma broadcast_r_thr [simp]:
  "rwaiter (thr (broadcast_r s) t) = rwaiter (thr s t)" "wwaiter (thr (broadcast_r s) t) = wwaiter (thr s t)"
  "wait (thr (broadcast_r s) t) = wait (thr s t)" "rd (thr (broadcast_r s) t) = rd (thr s t)" "wr (thr (broadcast_r s) t) = wr (thr s t)"
  by (simp_all add: broadcast_r_def rwaiter_def wwaiter_def)

lemma broadcast_r_leave: "broadcast_r (leave t s) = leave t (broadcast_r s)"
proof (rule rwlock.equality)
  show "thr (broadcast_r (leave t s)) = thr (leave t (broadcast_r s))" by (auto simp: broadcast_r_def fun_eq_iff)
  show "rwlock.more (broadcast_r (leave t s)) = rwlock.more (leave t (broadcast_r s))" by simp
qed (simp_all add: leave_def)

lemma inv_broadcast_r: "rw_inv s \<Longrightarrow> rw_inv (broadcast_r s)"
  by (rule inv_woken) simp_all

lemma inv_broadcast_w: "rw_inv s \<Longrightarrow> rw_inv (broadcast_w s)"
  by (rule inv_woken) simp_all

lemma inv_signal_w: "rw_inv s \<Longrightarrow> rw_inv (signal_w u s)"
  by (rule inv_woken) simp_all

lemma inv_rs_take:
  assumes "rw_inv s" "free (thr s t)" "wcount s = 0" "\<not> reserved s"
  shows "rw_inv (set_thr t (psync_rwlock_create_cnt 1 RESERVED) ((leave t s)\<lparr>rcount := rcount s + 1, reserved := True\<rparr>))"
  by (rule inv_set [OF assms(1), of _ t "psync_rwlock_create_cnt 1 RESERVED"])
    (use assms(3,4) free_not_up [OF assms(1,2)] in \<open>simp_all add: set_thr_def leave_def exclusive_def tok_def writer_def\<close>)

lemma inv_rs_loop:
  assumes "rw_inv s" "free (thr s t)"
  shows "rw_inv (rs_loop t (leave t s))"
proof (cases "wcount s \<noteq> 0 \<or> reserved s")
  case True
  then show ?thesis using assms
    by (auto simp: rs_loop_def wait_for_def set_thr_def intro: inv_wait [of s t WaitRs])
next
  case False
  have "rw_inv (broadcast_r s)" "free (thr (broadcast_r s) t)"
    using assms by (simp_all add: inv_broadcast_r free_def)
  with False assms show ?thesis
    using inv_rs_take [of s t] inv_rs_take [of "broadcast_r s" t] by (simp add: rs_loop_def Let_def broadcast_r_leave)
qed

text \<open>Upgrading: the thread is counted among the readers until it has called \<^verbatim>\<open>psync_rwlock_towrlock\<close>.\<close>

lemma inv_up_take:
  assumes "rw_inv s" "rd (thr s t) \<noteq> 0" "rcount s = of_bool (reader (thr s t))" "wcount s = 0"
    "reserved s \<longrightarrow> reserver (thr s t)"
    "thr s' = (thr s)(t := psync_rwlock_create_cnt 0 (WR (rd (thr s t))))" "rcount s' = 0" "wcount s' = 1" "\<not> reserved s'"
    "rwait s' = rwait (leave t s)" "wwait s' = wwait (leave t s)" "prefer_read s' = prefer_read (leave t s)"
  shows "rw_inv s'"
proof (rule inv_set [OF assms(1), of _ t "psync_rwlock_create_cnt 0 (WR (rd (thr s t)))"])
  have "tok (thr s t)" by (rule rw_invD(2) [OF assms(1)])
  then have w: "\<not> writer (thr s t)" using assms(2) by (auto simp: tok_def)
  show "wcount s' = wcount s - of_bool (writer (thr s t)) + of_bool (writer (psync_rwlock_create_cnt 0 (WR (rd (thr s t)))))"
    using w assms(2,4,8) by simp
qed (use assms(2-12) in \<open>simp_all add: leave_def exclusive_def tok_def\<close>)

lemma inv_up_wait:
  assumes "rw_inv s" "rd (thr s t) \<noteq> 0" "wcount s = 0" "reserved s \<longrightarrow> reserver (thr s t)"
    "thr s' = thr (wait_for WaitUp t s)" "rcount s' = rcount s - of_bool (reader (thr s t))" "wcount s' = 0" "reserved s'"
    "rwait s' = rwait (leave t s)" "wwait s' = wwait (leave t s) + 1" "prefer_read s' = prefer_read (leave t s)"
  shows "rw_inv s'"
proof (rule inv_set [OF assms(1), of _ t "(thr s t)\<lparr>wait := WaitUp, woken := False\<rparr>"])
  have "tok (thr s t)" by (rule rw_invD(2) [OF assms(1)])
  then have w: "\<not> writer (thr s t)" using assms(2) by (auto simp: tok_def)
  show "tok ((thr s t)\<lparr>wait := WaitUp, woken := False\<rparr>)" using w assms(2) by (simp add: tok_def)
  show "wcount s' = wcount s - of_bool (writer (thr s t)) + of_bool (writer ((thr s t)\<lparr>wait := WaitUp, woken := False\<rparr>))"
    using w assms(3,7) by simp
qed (use assms(3-11) in \<open>simp_all add: wait_for_def set_thr_def leave_def exclusive_def\<close>)

lemma inv_up_loop:
  assumes "rw_inv s" "rd (thr s t) \<noteq> 0" "wcount s = 0" "reserved s \<longrightarrow> reserver (thr s t)"
    "up_loop t ((leave t s)\<lparr>reserved := True, rcount := rcount s - of_bool (reader (thr s t))\<rparr>) = Some s'"
  shows "rw_inv s'"
proof (cases "rcount s - of_bool (reader (thr s t)) = 0")
  case True
  then have "rcount s = of_bool (reader (thr s t))" using rw_invD(3) [OF assms(1), of t] by (auto simp: of_bool_def split: if_splits)
  then show ?thesis using assms(5) True
    by (intro inv_up_take [OF assms(1,2) _ assms(3,4)]) (auto simp: up_loop_def set_thr_def assms(3) split: if_splits)
next
  case False
  then show ?thesis using assms(5)
    by (intro inv_up_wait [OF assms(1-4)]) (auto simp: up_loop_def wait_for_def set_thr_def assms(3) split: if_splits)
qed

text \<open>Nested locks change the counters of the thread only.\<close>

definition same_kind :: "thread \<Rightarrow> thread \<Rightarrow> bool" where
  "same_kind c c' \<longleftrightarrow> wait c' = wait c \<and> (rd c' = 0) = (rd c = 0) \<and> writer c' = writer c \<and> (wr c' = RESERVED) = (wr c = RESERVED)
     \<and> (wr c' = WR 0) = (wr c = WR 0)"

lemma inv_nested:
  assumes "rw_inv s" "same_kind (thr s t) c"
  shows "rw_inv (set_thr t c s)"
proof (rule inv_set [OF assms(1), of _ t c])
  show "tok c" using rw_invD(2) [OF assms(1), of t] assms(2) by (auto simp: tok_def same_kind_def)
  show "exclusive (set_thr t c s)" using rw_invD(8) [OF assms(1)] by (simp add: exclusive_def set_thr_def)
qed (use assms rw_invD(3-7) [OF assms(1), of t] in \<open>auto simp: set_thr_def same_kind_def reader_def reserver_def rwaiter_def wwaiter_def\<close>)

lemma recursive_in:
  "psync_rwlock_check_rdrecursive_in c = Some (c', r) \<Longrightarrow> if r then same_kind c c' else c' = c \<and> free c"
  "psync_rwlock_check_wrrecursive_in c = Some (c', r) \<Longrightarrow> if r then same_kind c c' else c' = c \<and> free c"
  by (auto simp: psync_rwlock_check_rdrecursive_in_def psync_rwlock_check_wrrecursive_in_def same_kind_def free_def writer_def
    split: if_splits wrcnt.splits)

text \<open>Every call that may recurse: it nests, or it continues with a thread that holds nothing.\<close>

lemma recursive_orE:
  assumes "recursive_or chk ret cont t s = Some x" "\<And>c r. chk = Some (c, r) \<Longrightarrow> if r then same_kind (thr s t) c else c = thr s t \<and> free (thr s t)"
  obtains c where "same_kind (thr s t) c" "x = ret (set_thr t c s)" | "free (thr s t)" "x = cont s"
  using assms by (auto simp: recursive_or_def split: option.splits if_splits)

lemmas rd_callE = recursive_orE [OF _ recursive_in(1)]
lemmas wr_callE = recursive_orE [OF _ recursive_in(2)]

lemma waiting_free:
  assumes "rw_inv s" "wait (thr s t) \<noteq> Running" "wait (thr s t) \<noteq> WaitUp"
  shows "free (thr s t)"
  using rw_invD(2) [OF assms(1), of t] assms(2,3) by (simp add: tok_def free_def)

lemma up_wake_loop:
  assumes "rw_inv s" "wait (thr s t) = WaitUp"
  shows "rd (thr s t) \<noteq> 0" "wcount s = 0" "reserver (thr s t)"
    "up_wake t s = up_loop t ((leave t s)\<lparr>reserved := True, rcount := rcount s - of_bool (reader (thr s t))\<rparr>)"
proof -
  show r: "reserver (thr s t)" using assms(2) by (simp add: reserver_def)
  then have "reserved s" by (rule rw_invD(7) [OF assms(1)])
  moreover have "\<not> reader (thr s t)" using assms(2) by (simp add: reader_def)
  ultimately show "up_wake t s = up_loop t ((leave t s)\<lparr>reserved := True, rcount := rcount s - of_bool (reader (thr s t))\<rparr>)"
    unfolding leave_wake(5) [OF assms(2)] by (intro arg_cong2 [where f = up_loop] refl rwlock.equality) simp_all
  show "wcount s = 0" using \<open>reserved s\<close> rw_invD(8) [OF assms(1)] by (auto simp: exclusive_def)
  show "rd (thr s t) \<noteq> 0" using rw_invD(2) [OF assms(1), of t] assms(2) by (simp add: tok_def)
qed

lemma towrlock_loop:
  assumes "rw_inv s" "wait (thr s t) = Running" "psync_rwlock_towrlock t s = Some (s', r)"
  obtains "s' = s" | "rd (thr s t) \<noteq> 0" "wcount s = 0" "reserved s \<longrightarrow> reserver (thr s t)"
    "up_loop t ((leave t s)\<lparr>reserved := True, rcount := rcount s - of_bool (reader (thr s t))\<rparr>) = Some s'"
  using assms(3) leave_running [OF assms(2)] assms(2)
  by (auto simp: psync_rwlock_towrlock_def Let_def reader_def reserver_def split: wrcnt.splits nat.splits if_splits)

lemma rslock_cases:
  assumes "rw_inv s" "psync_rwlock_rslock t s = Some s'"
  obtains c where "same_kind (thr s t) c" "s' = set_thr t c s" | "free (thr s t)" "s' = rs_loop t s"
proof -
  have "wr (thr s t) \<noteq> RESERVED" using assms(2) rw_invD(2) [OF assms(1), of t]
    by (auto simp: psync_rwlock_rslock_def tok_def Let_def split: if_splits)
  then obtain n where n: "wr (thr s t) = WR n" by (cases "wr (thr s t)") auto
  show thesis using assms(2) n that(2) that(1) [of "(thr s t)\<lparr>wr := WR (n + 1)\<rparr>"]
    by (cases "n = 0") (auto simp: psync_rwlock_rslock_def Let_def same_kind_def free_def writer_def split: if_splits)
qed

lemma recursive_out:
  assumes "tok c" "psync_rwlock_check_recursive_out c = Some (c', r)"
  shows "if r then same_kind c c' \<and> woken c' = woken c
     else rd c = 1 \<and> c' = c\<lparr>rd := 0\<rparr> \<or> rd c = 0 \<and> wr c = WR 1 \<and> c' = c\<lparr>wr := WR 0\<rparr>"
  using assms by (auto simp: psync_rwlock_check_recursive_out_def tok_def same_kind_def writer_def split: if_splits wrcnt.splits)

lemma unlock_cases:
  assumes "rw_inv s" "wait (thr s t) = Running" "psync_rwlock_unlock u t s = Some s'"
  obtains c where "same_kind (thr s t) c" "s' = set_thr t c s"
  | "rd (thr s t) = 1" "reader (thr s t)" "wcount s = 0" "s' = unlock_rd u t (set_thr t ((thr s t)\<lparr>rd := 0\<rparr>) s)"
  | "rd (thr s t) = 0" "wr (thr s t) = WR 1" "wcount s = 1" "unlock_wr u (set_thr t ((thr s t)\<lparr>wr := WR 0\<rparr>) s) = Some s'"
proof -
  obtain c r where c: "psync_rwlock_check_recursive_out (thr s t) = Some (c, r)"
    using assms(3) by (auto simp: psync_rwlock_unlock_def split: option.splits)
  note out = recursive_out [OF rw_invD(2) [OF assms(1)] c]
  have ex: "exclusive s" by (rule rw_invD(8) [OF assms(1)])
  have rd: "reader (thr s t)" "rcount s \<noteq> 0" "wcount s = 0" if "rd (thr s t) = 1"
    using that assms(2) rw_invD(3) [OF assms(1), of t] ex by (auto simp: reader_def exclusive_def)
  have wr: "wcount s = 1" "rcount s = 0" if "wr (thr s t) = WR 1"
    using that rw_invD(4) [OF assms(1), of t] ex by (auto simp: writer_def exclusive_def)
  consider "r" | "\<not> r" "rd (thr s t) = 1" "c = (thr s t)\<lparr>rd := 0\<rparr>" | "\<not> r" "rd (thr s t) = 0" "wr (thr s t) = WR 1" "c = (thr s t)\<lparr>wr := WR 0\<rparr>"
    using out by (cases r) auto
  then show thesis
  proof cases
    case 1
    then show thesis using out assms(3) c that(1) by (auto simp: psync_rwlock_unlock_def)
  next
    case 2
    then show thesis using rd assms(3) c that(2) by (auto simp: psync_rwlock_unlock_def set_thr_def split: if_splits)
  next
    case 3
    then show thesis using wr assms(3) c that(3) by (auto simp: psync_rwlock_unlock_def set_thr_def split: if_splits)
  qed
qed

lemma try_cases:
  assumes "rw_inv s" "wait (thr s t) = Running"
  shows "psync_rwlock_tryrdlock t s = Some (s', r) \<Longrightarrow> (\<And>c. same_kind (thr s t) c \<Longrightarrow> s' = set_thr t c s \<Longrightarrow> thesis)
      \<Longrightarrow> (s' = s \<Longrightarrow> thesis) \<Longrightarrow> (free (thr s t) \<Longrightarrow> s' = rd_loop False t (leave t s) \<Longrightarrow> thesis) \<Longrightarrow> thesis"
    and "psync_rwlock_trywrlock t s = Some (s', r) \<Longrightarrow> (\<And>c. same_kind (thr s t) c \<Longrightarrow> s' = set_thr t c s \<Longrightarrow> thesis)
      \<Longrightarrow> (s' = s \<Longrightarrow> thesis) \<Longrightarrow> (free (thr s t) \<Longrightarrow> s' = wr_loop False t (leave t s) \<Longrightarrow> thesis) \<Longrightarrow> thesis"
  unfolding leave_running [OF assms(2)] psync_rwlock_tryrdlock_def psync_rwlock_trywrlock_def
  subgoal by (erule rd_callE) (auto simp: rd_loop_def split: if_splits)
  subgoal by (erule wr_callE) (auto simp: wr_loop_def split: if_splits)
  done

text \<open>The steps of the threads, reduced to the loops and the two halves of \<^verbatim>\<open>psync_rwlock_unlock\<close>.\<close>

lemma rw_step_cases [consumes 2, case_names same nested reader starve writer reserve upgrade rd_timeout wr_timeout unlock_rd unlock_wr]:
  assumes "rw_step s s'" "rw_inv s"
  obtains "s' = s"
  | t c where "wait (thr s t) = Running" "same_kind (thr s t) c" "s' = set_thr t c s"
  | t b where "free (thr s t)" "s' = rd_loop b t (leave t s)" "wait (thr s t) = Running \<or> wait (thr s t) = WaitRd b"
  | t where "free (thr s t)" "s' = starve_loop t (leave t s)" "wait (thr s t) = Running \<or> wait (thr s t) = WaitStarve"
  | t b where "free (thr s t)" "s' = wr_loop b t (leave t s)" "wait (thr s t) = Running \<or> wait (thr s t) = WaitWr b"
  | t where "free (thr s t)" "s' = rs_loop t (leave t s)" "wait (thr s t) = Running \<or> wait (thr s t) = WaitRs"
  | t where "rd (thr s t) \<noteq> 0" "wcount s = 0" "reserved s \<longrightarrow> reserver (thr s t)"
      "up_loop t ((leave t s)\<lparr>reserved := True, rcount := rcount s - of_bool (reader (thr s t))\<rparr>) = Some s'"
  | t where "wait (thr s t) = WaitRd True" "s' = rd_timeout t s"
  | t where "wait (thr s t) = WaitWr True" "\<not> woken (thr s t)" "s' = wr_timeout t s"
  | u t where "wait (thr s t) = Running" "rd (thr s t) = 1" "reader (thr s t)" "wcount s = 0" "signals_waiter u s"
      "s' = unlock_rd u t (set_thr t ((thr s t)\<lparr>rd := 0\<rparr>) s)"
  | u t where "wait (thr s t) = Running" "rd (thr s t) = 0" "wr (thr s t) = WR 1" "wcount s = 1" "signals_waiter u s"
      "unlock_wr u (set_thr t ((thr s t)\<lparr>wr := WR 0\<rparr>) s) = Some s'"
  using assms
proof (cases rule: rw_step.cases)
  case (step_rdlock t)
  then show thesis using that(2,3) leave_running unfolding psync_rwlock_rdlock_def by (elim rd_callE) auto
next
  case (step_timedrdlock t)
  then show thesis using that(2,3) leave_running unfolding psync_rwlock_timedrdlock_def by (elim rd_callE) auto
next
  case (step_tryrdlock t r)
  then show thesis using that(1-3) try_cases(1) [OF assms(2)] by blast
next
  case (step_starvewr t)
  then show thesis using that(2,4) leave_running unfolding psync_rwlock_rdlock_starvewr_def by (elim rd_callE) auto
next
  case (step_wrlock t)
  then show thesis using that(2,5) leave_running unfolding psync_rwlock_wrlock_def by (elim wr_callE) auto
next
  case (step_timedwrlock t)
  then show thesis using that(2,5) leave_running unfolding psync_rwlock_timedwrlock_def by (elim wr_callE) auto
next
  case (step_trywrlock t r)
  then show thesis using that(1,2,5) try_cases(2) [OF assms(2)] by blast
next
  case (step_rslock t)
  then show thesis using that(2,6) leave_running [of s t] by (elim rslock_cases [OF assms(2)]) auto
next
  case (step_towrlock t r)
  then show thesis using that(1,7) by (elim towrlock_loop [OF assms(2)]) auto
next
  case (step_unlock t u)
  show thesis by (rule unlock_cases [OF assms(2) step_unlock(1,3)])
    (fact that(2) [OF step_unlock(1)], fact that(10) [OF step_unlock(1) _ _ _ step_unlock(2)],
      fact that(11) [OF step_unlock(1) _ _ _ step_unlock(2)])
next
  case (step_rd_wake t b)
  then show thesis using that(3) [of t b] waiting_free [OF assms(2), of t] leave_wake(1) [of s t b] by simp
next
  case (step_rd_timeout t)
  then show thesis using that(8) by auto
next
  case (step_starve_wake t)
  then show thesis using that(4) [of t] waiting_free [OF assms(2), of t] leave_wake(2) [of s t] by simp
next
  case (step_wr_wake t b)
  then show thesis using that(5) [of t b] waiting_free [OF assms(2), of t] leave_wake(3) [of s t b] by simp
next
  case (step_wr_timeout t)
  then show thesis using that(9) by auto
next
  case (step_rs_wake t)
  then show thesis using that(6) [of t] waiting_free [OF assms(2), of t] leave_wake(4) [of s t] by simp
next
  case (step_up_wake t)
  then show thesis using that(7) [of t] up_wake_loop [OF assms(2), of t] by simp
qed

subsection \<open>Every step keeps the invariant\<close>

text \<open>A waiting thread gives up, a thread gives up its last lock: the thread holds nothing afterwards.\<close>

lemma inv_give_up:
  assumes "rw_inv s" "wait (thr s t) \<noteq> WaitUp" "thr s' = (thr s)(t := c)" "free c" "wait c = Running"
    "rcount s' = rcount s - of_bool (reader (thr s t))" "wcount s' = wcount s - of_bool (writer (thr s t))"
    "rwait s' = rwait s - of_bool (rwaiter (thr s t))" "wwait s' = wwait s - of_bool (wwaiter (thr s t))"
    "reserved s' = (reserved s \<and> wr (thr s t) \<noteq> RESERVED)" "wait (thr s t) \<noteq> WaitStarve" "prefer_read s' = prefer_read s"
  shows "rw_inv s'"
proof (rule inv_set [OF assms(1,3)])
  have c: "\<not> reader c" "\<not> writer c" "\<not> reserver c" "\<not> rwaiter c" "\<not> wwaiter c"
    using assms(4,5) by (simp_all add: free_def thread_preds)
  show "tok c" using assms(4,5) by (simp add: free_def thread_preds)
  show "(of_bool (reserved s') :: nat) = of_bool (reserved s) - of_bool (reserver (thr s t)) + of_bool (reserver c)"
    using assms(2,10) rw_invD(7) [OF assms(1), of t] c(3) by (auto simp: reserver_def)
  show "exclusive s'" using rw_invD(8) [OF assms(1)] assms(6,7,10) by (auto simp: exclusive_def)
  show "rcount s' = rcount s - of_bool (reader (thr s t)) + of_bool (reader c)"
    "wcount s' = wcount s - of_bool (writer (thr s t)) + of_bool (writer c)"
    "rwait s' = rwait s - of_bool (rwaiter (thr s t)) + of_bool (rwaiter c)"
    "wwait s' = wwait s - of_bool (wwaiter (thr s t)) + of_bool (wwaiter c)"
    using assms(6-9) c by simp_all
  show "prefer_read s' \<Longrightarrow> prefer_read s \<and> wait (thr s t) \<noteq> WaitStarve \<or> wait c = WaitStarve" using assms(11,12) by simp
qed

lemma inv_timeout:
  assumes "rw_inv s"
  shows "wait (thr s t) = WaitRd b \<Longrightarrow> rw_inv (wait_for Running t (s\<lparr>rwait := rwait s - 1\<rparr>))"
    and "wait (thr s t) = WaitWr b \<Longrightarrow> rw_inv (wait_for Running t (s\<lparr>wwait := wwait s - 1\<rparr>))"
proof -
  have f: "\<not> reader (thr s t)" "\<not> writer (thr s t)" "wr (thr s t) = WR 0" "free ((thr s t)\<lparr>wait := Running, woken := False\<rparr>)"
    if "wait (thr s t) = WaitRd b \<or> wait (thr s t) = WaitWr b"
    using waiting_free [OF assms, of t] that by (auto simp: free_def reader_def writer_def)
  show "rw_inv (wait_for Running t (s\<lparr>rwait := rwait s - 1\<rparr>))" if "wait (thr s t) = WaitRd b"
    by (rule inv_give_up [OF assms, of t _ "(thr s t)\<lparr>wait := Running, woken := False\<rparr>"])
      (use f that in \<open>simp_all add: wait_for_def set_thr_def rwaiter_def wwaiter_def\<close>)
  show "rw_inv (wait_for Running t (s\<lparr>wwait := wwait s - 1\<rparr>))" if "wait (thr s t) = WaitWr b"
    by (rule inv_give_up [OF assms, of t _ "(thr s t)\<lparr>wait := Running, woken := False\<rparr>"])
      (use f that in \<open>simp_all add: wait_for_def set_thr_def rwaiter_def wwaiter_def\<close>)
qed

text \<open>The state after releasing a lock, before a waiting thread is woken.\<close>

definition released_rd :: "tid \<Rightarrow> rwlock \<Rightarrow> rwlock" where
  "released_rd t s = s\<lparr>thr := (thr s)(t := (thr s t)\<lparr>rd := 0, wr := WR 0\<rparr>), reserved := reserved s \<and> wr (thr s t) \<noteq> RESERVED,
     rcount := rcount s - 1\<rparr>"

definition released_wr :: "tid \<Rightarrow> rwlock \<Rightarrow> rwlock" where
  "released_wr t s = s\<lparr>thr := (thr s)(t := (thr s t)\<lparr>wr := WR 0\<rparr>), wcount := 0\<rparr>"

lemma inv_released_rd:
  assumes "rw_inv s" "reader (thr s t)" "wait (thr s t) = Running"
  shows "rw_inv (released_rd t s)"
proof (rule inv_give_up [OF assms(1), of t _ "(thr s t)\<lparr>rd := 0, wr := WR 0\<rparr>"])
  have "\<not> writer (thr s t)" using assms(2) rw_invD(2) [OF assms(1), of t] by (auto simp: reader_def tok_def)
  then show "wcount (released_rd t s) = wcount s - of_bool (writer (thr s t))" by (simp add: released_rd_def)
qed (use assms(2,3) in \<open>simp_all add: released_rd_def free_def rwaiter_def wwaiter_def\<close>)

lemma inv_released_wr:
  assumes "rw_inv s" "wr (thr s t) = WR 1" "rd (thr s t) = 0" "wait (thr s t) = Running" "wcount s = 1"
  shows "rw_inv (released_wr t s)"
  by (rule inv_give_up [OF assms(1), of t _ "(thr s t)\<lparr>wr := WR 0\<rparr>"])
    (use assms(2-5) in \<open>simp_all add: released_wr_def free_def reader_def writer_def rwaiter_def wwaiter_def\<close>)

lemma clr_reserved:
  "(if reserved s then case psync_rwlock_is_reserved_by_this_thread_clr t s of (s, r) \<Rightarrow> if r then s\<lparr>reserved := False\<rparr> else s else s)
   = (if reserved s \<and> wr (thr s t) = RESERVED then set_thr t ((thr s t)\<lparr>wr := WR 0\<rparr>) (s\<lparr>reserved := False\<rparr>) else s)"
  by (simp add: psync_rwlock_is_reserved_by_this_thread_clr_def set_thr_def)

lemma unlock_rd_released:
  assumes "rw_inv s" "reader (thr s t)"
  shows "unlock_rd u t (set_thr t ((thr s t)\<lparr>rd := 0\<rparr>) s) =
    (let r = released_rd t s in
     if rcount r = 0 \<and> wwait r \<noteq> 0 then if reserved r then broadcast_w r else signal_w u r else r)"
proof -
  have w: "wr (thr s t) = WR 0 \<or> wr (thr s t) = RESERVED \<and> reserved s"
    using assms rw_invD(2,7) [OF assms(1), of t] by (auto simp: reader_def tok_def writer_def reserver_def)
  let ?s = "set_thr t ((thr s t)\<lparr>rd := 0\<rparr>) s"
  let ?r = "if reserved ?s \<and> wr (thr ?s t) = RESERVED then set_thr t ((thr ?s t)\<lparr>wr := WR 0\<rparr>) (?s\<lparr>reserved := False\<rparr>) else ?s"
  have t: "(thr s t)\<lparr>rd := 0, wr := WR 0\<rparr> = (thr s t)\<lparr>rd := 0\<rparr>" if "wr (thr s t) = WR 0"
    using that by (intro thread.equality) simp_all
  have r: "?r\<lparr>rcount := rcount ?r - 1\<rparr> = released_rd t s"
  proof (rule rwlock.equality)
    show "thr (?r\<lparr>rcount := rcount ?r - 1\<rparr>) = thr (released_rd t s)"
      using w by (elim disjE) (simp_all add: t released_rd_def set_thr_def)
  qed (use w in \<open>auto simp: released_rd_def set_thr_def\<close>)
  show ?thesis unfolding unlock_rd_def clr_reserved Let_def r by (rule refl)
qed

lemma unlock_wr_released:
  assumes "rw_inv s" "wcount s = 1"
  shows "unlock_wr u (set_thr t ((thr s t)\<lparr>wr := WR 0\<rparr>) s) = Some
    (let r = released_wr t s in
     if prefer_read r then if rwait r \<noteq> 0 then broadcast_r r else if wwait r \<noteq> 0 then signal_w u r else r
     else if wwait r \<noteq> 0 then signal_w u r else if rwait r \<noteq> 0 then broadcast_r r else r)"
proof -
  have "\<not> reserved s" using rw_invD(8) [OF assms(1)] assms(2) by (simp add: exclusive_def)
  then show ?thesis using assms(2) unfolding unlock_wr_def released_wr_def by (simp add: set_thr_def Let_def)
qed

lemma rw_step_inv:
  assumes "rw_step s s'" "rw_inv s"
  shows "rw_inv s'"
  using assms
proof (cases rule: rw_step_cases)
  case (wr_timeout t)
  then show ?thesis using inv_timeout(2) [OF assms(2) wr_timeout(1)] by (simp add: wr_timeout_def Let_def inv_broadcast_r)
next
  case (unlock_rd u t)
  then show ?thesis using inv_released_rd [OF assms(2), of t]
    by (simp add: unlock_rd_released [OF assms(2)] Let_def inv_broadcast_w inv_signal_w)
next
  case (unlock_wr u t)
  then have "rw_inv (released_wr t s)" by (intro inv_released_wr [OF assms(2)])
  with unlock_wr(4,6) show ?thesis
    by (auto simp: unlock_wr_released [OF assms(2)] Let_def inv_broadcast_r inv_signal_w)
next
  case (upgrade t)
  then show ?thesis by (rule inv_up_loop [OF assms(2)])
next
  case (rd_timeout t)
  then show ?thesis using inv_timeout(1) [OF assms(2)] by (simp only: rd_timeout_def)
qed (use assms(2) in \<open>simp_all add: inv_nested inv_rd_loop inv_starve_loop inv_wr_loop inv_rs_loop\<close>)

subsection \<open>No wake-up is lost\<close>

text \<open>The threads that take the lock when they run, unless another thread takes it first.\<close>

definition pend :: "thread \<Rightarrow> bool" where
  "pend c \<longleftrightarrow> woken c \<and> (wwaiter c \<or> wait c = WaitStarve)"

definition wake_r :: "rwlock \<Rightarrow> bool" where
  "wake_r s \<longleftrightarrow> wcount s \<noteq> 0 \<or> wwait s \<noteq> 0 \<or> (\<forall>t. rwaiter (thr s t) \<longrightarrow> woken (thr s t))"

definition wake_w :: "rwlock \<Rightarrow> bool" where
  "wake_w s \<longleftrightarrow> wwait s = 0 \<or> rcount s \<noteq> 0 \<or> wcount s \<noteq> 0 \<or> (\<exists>t. pend (thr s t))"

definition wake_up :: "rwlock \<Rightarrow> bool" where
  "wake_up s \<longleftrightarrow> \<not> reserved s \<or> rcount s \<noteq> 0 \<or> (\<exists>t. wait (thr s t) = WaitUp \<and> woken (thr s t))"

definition wake3 :: "rwlock \<Rightarrow> bool" where
  "wake3 s \<longleftrightarrow> wake_r s \<and> wake_w s \<and> wake_up s"

definition wake_inv :: "rwlock \<Rightarrow> bool" where
  "wake_inv s \<longleftrightarrow> rw_inv s \<and> wake3 s"

lemma wake_up_w: "wake_up s \<Longrightarrow> reserved s \<Longrightarrow> wake_w s"
  by (auto simp: wake_up_def wake_w_def pend_def wwaiter_def)

lemma wake_r_set:
  assumes "wake_r s" "thr s' = (thr s)(t := c)"
    "wcount s' \<noteq> 0 \<or> wwait s' \<noteq> 0 \<or> wcount s = 0 \<and> wwait s = 0 \<and> (rwaiter c \<longrightarrow> woken c)"
  shows "wake_r s'"
  using assms unfolding wake_r_def by auto

lemma wake_w_set:
  assumes "wake_w s" "thr s' = (thr s)(t := c)"
    "wwait s' = 0 \<or> rcount s' \<noteq> 0 \<or> wcount s' \<noteq> 0 \<or> wwait s \<noteq> 0 \<and> rcount s = 0 \<and> wcount s = 0 \<and> (pend (thr s t) \<longrightarrow> pend c)"
  shows "wake_w s'"
  using assms unfolding wake_w_def by (metis fun_upd_apply)

lemma wake_up_set:
  assumes "wake_up s" "thr s' = (thr s)(t := c)"
    "\<not> reserved s' \<or> rcount s' \<noteq> 0 \<or> reserved s \<and> rcount s = 0 \<and> (wait (thr s t) = WaitUp \<longrightarrow> wait c = WaitUp \<and> (woken (thr s t) \<longrightarrow> woken c))"
  shows "wake_up s'"
  using assms unfolding wake_up_def by (metis fun_upd_apply)

lemmas wake_set = wake_r_set wake_w_set wake_up_set

lemma leave_blocked [simp]: "wr_blocked (leave t s) = wr_blocked s"
  "\<not> wwaiter (thr s t) \<Longrightarrow> rd_blocked (leave t s) = rd_blocked s" "\<not> wwaiter (thr s t) \<Longrightarrow> wwait (leave t s) = wwait s"
  by (simp_all add: wr_blocked_def rd_blocked_def leave_def)

lemma wake_rd_take:
  assumes "wake3 s" "\<not> wwaiter (thr s t)" "wcount s = 0"
  shows "wake3 (rd_take t (leave t s))"
  using assms by (auto simp: wake3_def rd_take_def set_thr_def wake_r_def wake_w_def wake_up_def)

lemma wake_rd_loop:
  assumes "wake3 s" "wait (thr s t) = Running \<or> wait (thr s t) = WaitRd b"
  shows "wake3 (rd_loop b t (leave t s))"
proof -
  have n: "\<not> wwaiter (thr s t)" "\<not> pend (thr s t)" "wait (thr s t) \<noteq> WaitUp" using assms(2) by (auto simp: wwaiter_def pend_def)
  show ?thesis
  proof (cases "rd_blocked s")
    case True
    then show ?thesis using n assms(1)
      by (auto simp: rd_loop_def rd_blocked_def wait_for_def set_thr_def wake3_def wake_r_def wake_w_def wake_up_def)
  next
    case False
    then show ?thesis using wake_rd_take [OF assms(1) n(1)] n by (simp add: rd_loop_def) (simp add: rd_blocked_def)
  qed
qed

lemma wake_starve_loop:
  assumes "wake3 s" "wait (thr s t) = Running \<or> wait (thr s t) = WaitStarve"
  shows "wake3 (starve_loop t (leave t s))"
proof -
  have n: "\<not> wwaiter (thr s t)" "wait (thr s t) \<noteq> WaitUp" using assms(2) by (auto simp: wwaiter_def)
  show ?thesis
  proof (cases "wcount s = 0")
    case True
    then show ?thesis using wake_rd_take [OF assms(1) n(1)] n by (simp add: starve_loop_def)
  next
    case False
    then show ?thesis using n assms(1)
      by (auto simp: starve_loop_def wait_for_def set_thr_def wake3_def wake_r_def wake_w_def wake_up_def)
  qed
qed

lemma wake_wr_wait:
  assumes "wake3 s" "wait (thr s t) \<noteq> WaitUp" "rcount s \<noteq> 0 \<or> wcount s \<noteq> 0 \<or> reserved s"
    "thr s' = thr (wait_for w t s)" "rcount s' = rcount s" "wcount s' = wcount s" "reserved s' = reserved s" "wwait s' \<noteq> 0"
  shows "wake3 s'"
proof -
  have t: "thr s' = (thr s)(t := (thr s t)\<lparr>wait := w, woken := False\<rparr>)" using assms(4) by (simp add: wait_for_def set_thr_def)
  have u: "wake_up s'" using assms(1,2,5,7) wake_up_set [of s s' t, OF _ t] by (auto simp: wake3_def)
  have "wake_w s'"
  proof (cases "reserved s")
    case True
    then show ?thesis using u assms(7) by (intro wake_up_w) auto
  next
    case False
    then show ?thesis using assms(3,5,6) by (auto simp: wake_w_def)
  qed
  with u assms(8) show ?thesis by (simp add: wake3_def wake_r_def)
qed

lemma wake_wr_loop:
  assumes "wake3 s" "wait (thr s t) = Running \<or> wait (thr s t) = WaitWr b"
  shows "wake3 (wr_loop b t (leave t s))"
proof (cases "wr_blocked s")
  case True
  have n: "wait (thr s t) \<noteq> WaitUp" using assms(2) by auto
  show ?thesis
    using True by (intro wake_wr_wait [OF assms(1) n, where w = "WaitWr b"]) (auto simp: wr_loop_def wr_blocked_def wait_for_def set_thr_def)
next
  case False
  then show ?thesis using assms(1)
    by (simp add: wr_loop_def) (auto simp: wr_blocked_def wr_take_def set_thr_def wake3_def wake_r_def wake_w_def wake_up_def)
qed

lemma rwait_waiter: "rw_inv s \<Longrightarrow> rwait s = 0 \<longleftrightarrow> (\<forall>t. \<not> rwaiter (thr s t))"
  by (simp add: rw_inv_def num_0)

lemma wwait_waiter: "rw_inv s \<Longrightarrow> wwait s = 0 \<longleftrightarrow> (\<forall>t. \<not> wwaiter (thr s t))"
  by (simp add: rw_inv_def num_0)

lemma reserved_reserver: "rw_inv s \<Longrightarrow> reserved s \<longleftrightarrow> (\<exists>t. reserver (thr s t))"
  using num_0 [of "thr s" reserver] by (cases "reserved s") (auto simp: rw_inv_def)

lemma broadcast_woken: "rwaiter (thr s t) \<Longrightarrow> woken (thr (broadcast_r s) t)" "wwaiter (thr s t) \<Longrightarrow> woken (thr (broadcast_w s) t)"
  by (simp_all add: broadcast_r_def broadcast_w_def)

lemma broadcast_w_thr [simp]: "wwaiter (thr (broadcast_w s) t) = wwaiter (thr s t)" "wait (thr (broadcast_w s) t) = wait (thr s t)"
  by (simp_all add: broadcast_w_def rwaiter_def wwaiter_def)

lemma broadcast_r_pend: "pend (thr s t) \<Longrightarrow> pend (thr (broadcast_r s) t)"
  by (simp add: pend_def broadcast_r_def wwaiter_def)

lemma broadcast_r_woken: "woken (thr s t) \<Longrightarrow> woken (thr (broadcast_r s) t)"
  by (simp add: broadcast_r_def)

lemma wake_rs_loop:
  assumes "wake_inv s" "wait (thr s t) = Running \<or> wait (thr s t) = WaitRs"
  shows "wake3 (rs_loop t (leave t s))"
proof (cases "wcount s \<noteq> 0 \<or> reserved s")
  case True
  have n: "wait (thr s t) \<noteq> WaitUp" and w: "wake3 s" using assms by (auto simp: wake_inv_def)
  show ?thesis
    using True by (intro wake_wr_wait [OF w n, where w = WaitRs]) (auto simp: rs_loop_def wait_for_def set_thr_def)
next
  case False
  have "\<not> rwaiter (thr s t)" using assms(2) by (auto simp: rwaiter_def)
  then have r: "rwait (leave t s) = rwait s" by (simp add: leave_def)
  have "rwaiter (thr (rs_loop t (leave t s)) v) \<Longrightarrow> woken (thr (rs_loop t (leave t s)) v)" for v
    using False r assms(1) broadcast_woken(1) [of "leave t s" v]
    by (auto simp: rs_loop_def set_thr_def wake_inv_def rwait_waiter Let_def split: if_splits)
  moreover have "rcount (rs_loop t (leave t s)) \<noteq> 0" using False by (simp add: rs_loop_def Let_def set_thr_def)
  ultimately show ?thesis by (simp add: wake3_def wake_r_def wake_w_def wake_up_def)
qed

lemma wake_up_loop:
  assumes "up_loop t s = Some s'"
  shows "wake3 s'"
  using assms by (auto simp: up_loop_def wait_for_def set_thr_def wake3_def wake_r_def wake_w_def wake_up_def split: if_splits)

text \<open>A thread that nobody counts on stops waiting, or its counters change.\<close>

lemma wake_idle:
  assumes "\<not> pend (thr s t)" "wait c = Running" "rcount s' = rcount s" "wcount s' = wcount s" "reserved s' = reserved s"
    "thr s' = (thr s)(t := c)"
  shows "wake_r s \<Longrightarrow> wwait s' = wwait s \<Longrightarrow> wake_r s'" "wake_w s \<Longrightarrow> wwait s' = wwait s \<or> wwait s' = wwait s - 1 \<Longrightarrow> wake_w s'"
    "wake_up s \<Longrightarrow> wake_up s'"
proof -
  have n: "\<not> rwaiter c" using assms(2) by (simp add: rwaiter_def)
  show "wake_r s'" if "wake_r s" "wwait s' = wwait s"
    using that n assms(4) by (intro wake_r_set [OF that(1) assms(6)]) auto
  show "wake_w s'" if "wake_w s" "wwait s' = wwait s \<or> wwait s' = wwait s - 1"
    using that assms(1,3,4) by (intro wake_w_set [OF that(1) assms(6)]) auto
  have "wait (thr s t) = WaitUp \<Longrightarrow> \<not> woken (thr s t)" using assms(1) by (simp add: pend_def wwaiter_def)
  then show "wake_up s'" if "wake_up s"
    using that assms(3,5,6) unfolding wake_up_def by (metis fun_upd_apply)
qed

lemma wake_nested:
  assumes "wake3 s" "wait (thr s t) = Running" "same_kind (thr s t) c"
  shows "wake3 (set_thr t c s)"
  using assms wake_idle [of s t c "set_thr t c s"] by (simp add: wake3_def set_thr_def same_kind_def pend_def wwaiter_def)

lemma wake_rd_timeout:
  assumes "wake3 s" "wait (thr s t) = WaitRd b"
  shows "wake3 (rd_timeout t s)"
  using assms wake_idle [of s t _ "rd_timeout t s"]
  by (simp add: wake3_def rd_timeout_def wait_for_def set_thr_def pend_def wwaiter_def)

lemma waiter_ex: "rw_inv s \<Longrightarrow> wwait s \<noteq> 0 \<Longrightarrow> \<exists>v. wwaiter (thr s v)" "rw_inv s \<Longrightarrow> rwait s \<noteq> 0 \<Longrightarrow> \<exists>v. rwaiter (thr s v)"
  using wwait_waiter [of s] rwait_waiter [of s] by simp_all

lemma wake_broadcast_r:
  assumes "wake_w s" "wake_up s"
  shows "wake3 (broadcast_r s)"
proof -
  have "wake_w (broadcast_r s)" using assms(1) broadcast_r_pend by (fastforce simp: wake_w_def)
  moreover have "wake_up (broadcast_r s)" using assms(2) broadcast_r_woken by (fastforce simp: wake_up_def)
  ultimately show ?thesis using broadcast_woken(1) by (simp add: wake3_def wake_r_def)
qed

lemma wake_signal_w:
  assumes "rw_inv s" "signals_waiter u s" "wwait s \<noteq> 0" "\<not> reserved s"
  shows "wake3 (signal_w u s)"
proof -
  obtain v where v: "wwaiter (thr s v)" using waiter_ex(1) [OF assms(1,3)] by blast
  have "\<exists>x. pend (thr (signal_w u s) x)"
  proof (cases "wwaiter (thr s u)")
    case True
    then have "pend (thr (signal_w u s) u)" by (simp add: signal_w_def set_thr_def pend_def wwaiter_def)
    then show ?thesis by blast
  next
    case False
    then have "woken (thr s v)" using assms(2) v by (auto simp: signals_waiter_def)
    then have "pend (thr (signal_w u s) v)" using False v by (simp add: signal_w_def pend_def)
    then show ?thesis by blast
  qed
  then show ?thesis using assms(3,4) by (simp add: wake3_def wake_r_def wake_w_def wake_up_def)
qed

lemma wake_broadcast_w:
  assumes "rw_inv s" "wwait s \<noteq> 0" "rcount s = 0"
  shows "wake3 (broadcast_w s)"
proof -
  have pend: "\<exists>x. pend (thr (broadcast_w s) x)"
    using waiter_ex(1) [OF assms(1,2)] broadcast_woken(2) by (fastforce simp: pend_def)
  have "wake_up (broadcast_w s)"
  proof (cases "reserved s")
    case True
    then obtain v where v: "reserver (thr s v)" using reserved_reserver [OF assms(1)] by blast
    have "\<not> reader (thr s v)" using rw_invD(3) [OF assms(1), of v] assms(3) by auto
    then have "wait (thr s v) = WaitUp" using v rw_invD(2) [OF assms(1), of v] by (auto simp: reader_def reserver_def tok_def)
    then show ?thesis using broadcast_woken(2) [of s v] unfolding wake_up_def by (auto simp: wwaiter_def)
  qed (simp add: wake_up_def)
  with pend show ?thesis using assms(2) by (simp add: wake3_def wake_r_def wake_w_def)
qed

lemma wake_wr_timeout:
  assumes "wake_inv s" "wait (thr s t) = WaitWr b" "\<not> woken (thr s t)"
  shows "wake3 (wr_timeout t s)"
proof -
  let ?r = "wait_for Running t (s\<lparr>wwait := wwait s - 1\<rparr>)"
  have inv: "rw_inv ?r" using assms(1,2) inv_timeout(2) unfolding wake_inv_def by blast
  have "\<not> pend (thr s t)" using assms(3) by (simp add: pend_def)
  then have w: "wake_w ?r" "wake_up ?r"
    using assms(1) wake_idle(2,3) [of s t "(thr s t)\<lparr>wait := Running, woken := False\<rparr>" ?r]
    by (simp_all add: wake_inv_def wake3_def wait_for_def set_thr_def)
  show ?thesis
  proof (cases "wwait ?r = 0 \<and> wcount ?r = 0 \<and> rwait ?r \<noteq> 0")
    case True
    then show ?thesis using wake_broadcast_r [OF w] by (simp add: wr_timeout_def Let_def)
  next
    case False
    then have "wake_r ?r" using rwait_waiter [OF inv] by (auto simp: wake_r_def)
    with w False show ?thesis unfolding wr_timeout_def Let_def wake3_def by auto
  qed
qed

lemma signals_released:
  assumes "wait (thr s t) = Running" "signals_waiter u s"
  shows "signals_waiter u (released_rd t s)" "signals_waiter u (released_wr t s)"
proof -
  have "wwaiter (thr (released_rd t s) v) = wwaiter (thr s v)" "woken (thr (released_rd t s) v) = woken (thr s v)"
    "wwaiter (thr (released_wr t s) v) = wwaiter (thr s v)" "woken (thr (released_wr t s) v) = woken (thr s v)" for v
    by (simp_all add: released_rd_def released_wr_def wwaiter_def)
  then show "signals_waiter u (released_rd t s)" "signals_waiter u (released_wr t s)"
    using assms(2) by (simp_all add: signals_waiter_def)
qed

lemma wake_unlock_rd:
  assumes "wake_inv s" "reader (thr s t)" "wait (thr s t) = Running" "signals_waiter u s" "wcount s = 0"
  shows "wake3 (unlock_rd u t (set_thr t ((thr s t)\<lparr>rd := 0\<rparr>) s))"
proof -
  let ?r = "released_rd t s"
  have i: "rw_inv s" "wake3 s" using assms(1) by (simp_all add: wake_inv_def)
  have inv: "rw_inv ?r" by (rule inv_released_rd [OF i(1) assms(2,3)])
  have "wake_r ?r"
    using i(2) assms(3) by (intro wake_r_set [of s ?r t]) (auto simp: wake3_def released_rd_def rwaiter_def wake_r_def)
  consider "rcount ?r \<noteq> 0" | "rcount ?r = 0" "wwait ?r \<noteq> 0" "reserved ?r" | "rcount ?r = 0" "wwait ?r \<noteq> 0" "\<not> reserved ?r"
    | "rcount ?r = 0" "wwait ?r = 0" by blast
  then show ?thesis unfolding unlock_rd_released [OF i(1) assms(2)] Let_def
  proof cases
    case 1
    then show "wake3 (if rcount ?r = 0 \<and> wwait ?r \<noteq> 0 then if reserved ?r then broadcast_w ?r else signal_w u ?r else ?r)"
      using \<open>wake_r ?r\<close> by (simp add: wake3_def wake_w_def wake_up_def)
  next
    case 2
    then show "wake3 (if rcount ?r = 0 \<and> wwait ?r \<noteq> 0 then if reserved ?r then broadcast_w ?r else signal_w u ?r else ?r)"
      using wake_broadcast_w [OF inv] by simp
  next
    case 3
    then show "wake3 (if rcount ?r = 0 \<and> wwait ?r \<noteq> 0 then if reserved ?r then broadcast_w ?r else signal_w u ?r else ?r)"
      using wake_signal_w [OF inv signals_released(1) [OF assms(3,4)]] by simp
  next
    case 4
    have "\<not> reserver (thr ?r v)" for v
    proof
      assume v: "reserver (thr ?r v)"
      have "\<not> reader (thr ?r v)" "\<not> wwaiter (thr ?r v)" using rw_invD(3,6) [OF inv, of v] 4 by auto
      then show False using v rw_invD(2) [OF inv, of v] by (auto simp: reader_def reserver_def tok_def wwaiter_def)
    qed
    then have "\<not> reserved ?r" using reserved_reserver [OF inv] by blast
    then show "wake3 (if rcount ?r = 0 \<and> wwait ?r \<noteq> 0 then if reserved ?r then broadcast_w ?r else signal_w u ?r else ?r)"
      using \<open>wake_r ?r\<close> 4 by (simp add: wake3_def wake_w_def wake_up_def)
  qed
qed

lemma wake_unlock_wr:
  assumes "wake_inv s" "wr (thr s t) = WR 1" "rd (thr s t) = 0" "wait (thr s t) = Running" "wcount s = 1" "signals_waiter u s"
    "unlock_wr u (set_thr t ((thr s t)\<lparr>wr := WR 0\<rparr>) s) = Some s'"
  shows "wake3 s'"
proof -
  let ?r = "released_wr t s"
  have i: "rw_inv s" using assms(1) by (simp add: wake_inv_def)
  have inv: "rw_inv ?r" by (rule inv_released_wr [OF i assms(2-5)])
  have nr: "\<not> reserved ?r" using rw_invD(8) [OF i] assms(5) by (simp add: exclusive_def released_wr_def)
  then have up: "wake_up ?r" by (simp add: wake_up_def)
  note sig = wake_signal_w [OF inv signals_released(2) [OF assms(4,6)] _ nr]
  have none: "wake3 ?r" if "rwait ?r = 0" "wwait ?r = 0"
    using that nr rwait_waiter [OF inv] by (simp add: wake3_def wake_r_def wake_w_def wake_up_def)
  have pref: "wake3 (broadcast_r ?r)" if p: "prefer_read ?r"
  proof -
    obtain v where "wait (thr ?r v) = WaitStarve" using p rw_invD(9) [OF inv] by (auto simp: prefer_ok_def)
    then have "pend (thr (broadcast_r ?r) v)" using broadcast_woken(1) [of ?r v] by (simp add: pend_def rwaiter_def)
    then have "wake_w (broadcast_r ?r)" by (auto simp: wake_w_def)
    moreover have "wake_up (broadcast_r ?r)" using nr by (simp add: wake_up_def)
    ultimately show ?thesis using broadcast_woken(1) by (simp add: wake3_def wake_r_def)
  qed
  have "wake3 (broadcast_r ?r)" if "wwait ?r = 0" using that up by (intro wake_broadcast_r) (simp_all add: wake_w_def)
  then show ?thesis using assms(7) sig none pref unfolding unlock_wr_released [OF i assms(5)] Let_def
    by (auto split: if_splits)
qed

lemma wake_step:
  assumes "wake_inv s" "rw_step s s'"
  shows "wake_inv s'"
proof -
  have i: "rw_inv s" "wake3 s" using assms(1) by (simp_all add: wake_inv_def)
  from assms(2) i(1) have "wake3 s'"
  proof (cases rule: rw_step_cases)
    case (reserve t)
    then show ?thesis using wake_rs_loop [OF assms(1)] by simp
  next
    case (upgrade t)
    then show ?thesis by (intro wake_up_loop)
  next
    case (rd_timeout t)
    then show ?thesis using wake_rd_timeout [OF i(2)] by simp
  next
    case (wr_timeout t)
    then show ?thesis using wake_wr_timeout [OF assms(1)] by simp
  next
    case (unlock_rd u t)
    then show ?thesis using wake_unlock_rd [OF assms(1)] by simp
  next
    case (unlock_wr u t)
    show ?thesis by (rule wake_unlock_wr [OF assms(1) unlock_wr(3,2,1,4,5,6)])
  qed (use i(2) in \<open>simp_all add: wake_nested wake_rd_loop wake_starve_loop wake_wr_loop\<close>)
  with rw_step_inv [OF assms(2) i(1)] show ?thesis by (simp add: wake_inv_def)
qed

interpretation rwlocks: inductive_invariant "\<lambda>s. s = psync_rwlock_init" rw_step wake_inv
proof unfold_locales
  show "wake_inv s" if "s = psync_rwlock_init" for s
    using that inv_init by (simp add: wake_inv_def wake3_def wake_r_def wake_w_def wake_up_def psync_rwlock_init_def thread0_def rwaiter_def)
qed (rule wake_step)

text \<open>The next step of a thread that waits and has been woken.\<close>

definition wake_thread :: "tid \<Rightarrow> rwlock \<Rightarrow> rwlock option" where
  "wake_thread t s = (case wait (thr s t) of
      Running \<Rightarrow> None
    | WaitRd b \<Rightarrow> Some (rd_wake b t s)
    | WaitStarve \<Rightarrow> Some (starve_wake t s)
    | WaitWr b \<Rightarrow> Some (wr_wake b t s)
    | WaitRs \<Rightarrow> Some (rs_wake t s)
    | WaitUp \<Rightarrow> up_wake t s)"

lemma wake_takes:
  assumes "rw_inv s" "rcount s = 0" "wcount s = 0"
  shows "wait (thr s t) = WaitStarve \<Longrightarrow> \<exists>s'. wake_thread t s = Some s' \<and> psync_rwlock_holding_lock t s'"
    "wait (thr s t) = WaitUp \<Longrightarrow> \<exists>s'. wake_thread t s = Some s' \<and> psync_rwlock_holding_lock t s'"
    "\<not> reserved s \<Longrightarrow> wwaiter (thr s t) \<Longrightarrow> \<exists>s'. wake_thread t s = Some s' \<and> psync_rwlock_holding_lock t s'"
    "wwait s = 0 \<Longrightarrow> rwaiter (thr s t) \<Longrightarrow> \<exists>s'. wake_thread t s = Some s' \<and> psync_rwlock_holding_lock t s'"
proof -
  show st: "\<exists>s'. wake_thread t s = Some s' \<and> psync_rwlock_holding_lock t s'" if "wait (thr s t) = WaitStarve"
    using that assms(3) by (simp add: wake_thread_def starve_wake_def starve_loop_def rd_take_def set_thr_def psync_rwlock_holding_lock_def)
  show up: "\<exists>s'. wake_thread t s = Some s' \<and> psync_rwlock_holding_lock t s'" if "wait (thr s t) = WaitUp"
    using that assms rw_invD(2) [OF assms(1), of t]
    by (simp add: wake_thread_def up_wake_def up_loop_def set_thr_def psync_rwlock_holding_lock_def tok_def)
  show "\<exists>s'. wake_thread t s = Some s' \<and> psync_rwlock_holding_lock t s'" if "\<not> reserved s" "wwaiter (thr s t)"
    using that assms up
    by (cases "wait (thr s t)") (simp_all add: wwaiter_def wake_thread_def wr_wake_def wr_loop_def wr_blocked_def wr_take_def rs_wake_def rs_loop_def
      set_thr_def psync_rwlock_holding_lock_def Let_def)
  show "\<exists>s'. wake_thread t s = Some s' \<and> psync_rwlock_holding_lock t s'" if "wwait s = 0" "rwaiter (thr s t)"
    using that assms st
    by (cases "wait (thr s t)") (simp_all add: rwaiter_def wake_thread_def rd_wake_def rd_loop_def rd_blocked_def rd_take_def set_thr_def
      psync_rwlock_holding_lock_def)
qed

subsection \<open>Properties\<close>

definition rw_reachable :: "rwlock \<Rightarrow> bool" where
  "rw_reachable = reachable_from (\<lambda>s. s = psync_rwlock_init) rw_step"

lemma reachable_wake_inv: "rw_reachable s \<Longrightarrow> wake_inv s"
  unfolding rw_reachable_def by (rule rwlocks.reachable_inv)

lemma recursive_or_Some: "recursive_or chk ret cont t s \<noteq> None \<longleftrightarrow> chk \<noteq> None"
  by (auto simp: recursive_or_def split: option.splits)

lemma calls_in_Some:
  assumes "tok (thr s t)"
  shows "psync_rwlock_check_rdrecursive_in (thr s t) \<noteq> None"
    "rd (thr s t) = 0 \<Longrightarrow> psync_rwlock_check_wrrecursive_in (thr s t) \<noteq> None"
    "rd (thr s t) = 0 \<Longrightarrow> psync_rwlock_rslock t s \<noteq> None"
  using assms by (auto simp: psync_rwlock_check_rdrecursive_in_def psync_rwlock_check_wrrecursive_in_def psync_rwlock_rslock_def tok_def
    Let_def split: wrcnt.splits if_splits)

lemma holding_reader:
  assumes "rw_inv s" "wait (thr s t) = Running" "rd (thr s t) \<noteq> 0"
  shows "rcount s \<noteq> 0" "wcount s = 0"
  using assms(2,3) rw_invD(3) [OF assms(1), of t] rw_invD(8) [OF assms(1)] by (auto simp: reader_def exclusive_def)

lemma towrlock_Some:
  assumes "rw_inv s" "wait (thr s t) = Running" "psync_rwlock_holding_lock t s"
  shows "psync_rwlock_towrlock t s \<noteq> None"
proof (cases "writer (thr s t)")
  case True
  then obtain n where "wr (thr s t) = WR (Suc n)" by (cases "wr (thr s t)") (auto simp: writer_def gr0_conv_Suc)
  then show ?thesis by (simp add: psync_rwlock_towrlock_def)
next
  case False
  then have "rd (thr s t) \<noteq> 0"
    using assms(3) rw_invD(2) [OF assms(1), of t] by (auto simp: psync_rwlock_holding_lock_def writer_def tok_def)
  note holding_reader [OF assms(1,2) this] this
  moreover have "wr (thr s t) = WR 0 \<or> wr (thr s t) = RESERVED" using False by (auto simp: writer_def)
  ultimately show ?thesis by (auto simp: psync_rwlock_towrlock_def up_loop_def)
qed

lemma unlock_Some:
  assumes "rw_inv s" "wait (thr s t) = Running" "psync_rwlock_holding_lock t s"
  shows "psync_rwlock_unlock u t s \<noteq> None"
proof -
  have tok: "tok (thr s t)" by (rule rw_invD(2) [OF assms(1)])
  obtain c r where c: "psync_rwlock_check_recursive_out (thr s t) = Some (c, r)"
  proof (cases "psync_rwlock_check_recursive_out (thr s t)")
    case None
    with assms(3) show thesis
      by (auto simp: psync_rwlock_check_recursive_out_def psync_rwlock_holding_lock_def split: wrcnt.splits if_splits)
  qed auto
  note out = recursive_out [OF tok c]
  consider "r" | "\<not> r" "rd (thr s t) = 1" | "\<not> r" "wr (thr s t) = WR 1" "c = (thr s t)\<lparr>wr := WR 0\<rparr>" using out by (auto split: if_splits)
  then show ?thesis
  proof cases
    case 2
    then have "rcount s \<noteq> 0" "wcount s = 0" using holding_reader [OF assms(1,2)] by auto
    then show ?thesis using 2 c by (simp add: psync_rwlock_unlock_def set_thr_def)
  next
    case 3
    then have w: "wcount s = 1" "rcount s = 0"
      using rw_invD(4) [OF assms(1), of t] rw_invD(8) [OF assms(1)] by (auto simp: writer_def exclusive_def)
    then show ?thesis using 3 c unlock_wr_released [OF assms(1) w(1), of u t] by (simp add: psync_rwlock_unlock_def) (simp add: set_thr_def)
  qed (simp add: psync_rwlock_unlock_def c)
qed

text \<open>The branch of \<^verbatim>\<open>psync_rwlock_rslock\<close> for a thread that has reserved the lock already is never reached: such a thread
  reads, and the assertion in front of the branch fails.\<close>

lemma rslock_nested_fails:
  assumes "rw_reachable s" "wr (thr s t) = RESERVED"
  shows "psync_rwlock_rslock t s = None"
proof -
  have "tok (thr s t)" using reachable_wake_inv [OF assms(1)] by (simp add: wake_inv_def rw_inv_def)
  with assms(2) show ?thesis by (simp add: tok_def psync_rwlock_rslock_def)
qed

text \<open>C30: mutual exclusion.  In every state that the threads can reach by any interleaving of the calls, the wake-ups, signalled
  or spurious, and the timeouts, a thread that holds the write lock is the only one that holds any lock.\<close>

theorem rwlock_exclusion:
  assumes "rw_reachable s" "psync_rwlock_holding_wrlock t s"
  shows "psync_rwlock_holding_lock u s \<longleftrightarrow> u = t"
proof -
  have inv: "rw_inv s" using reachable_wake_inv [OF assms(1)] by (simp add: wake_inv_def)
  have w: "writer (thr s t)" using assms(2) by (simp add: psync_rwlock_holding_wrlock_def writer_def)
  then have c: "wcount s = 1" "rcount s = 0" "\<not> reserved s"
    using rw_invD(4) [OF inv, of t] rw_invD(8) [OF inv] by (auto simp: exclusive_def)
  have "u = t" if u: "psync_rwlock_holding_lock u s"
  proof -
    have "\<not> reader (thr s u)" "\<not> reserver (thr s u)" using c rw_invD(3,7) [OF inv, of u] by auto
    then have "writer (thr s u)" using u by (auto simp: psync_rwlock_holding_lock_def reader_def reserver_def writer_def)
    then show ?thesis using w inv c(1) by (intro num_one [of "thr s" writer]) (simp_all add: rw_inv_def)
  qed
  then show ?thesis using assms(2) by (auto simp: psync_rwlock_holding_wrlock_def psync_rwlock_holding_lock_def)
qed

text \<open>C32: no assertion fails.  A thread may ask for the read lock at any time; for the write lock or the reserved lock when it does
  not hold the read lock; it may upgrade or release a lock that it holds; and a waiting upgrade always finds that no thread
  writes.\<close>

theorem rwlock_no_assertion:
  assumes "rw_reachable s"
  shows "psync_rwlock_rdlock t s \<noteq> None \<and> psync_rwlock_timedrdlock t s \<noteq> None \<and> psync_rwlock_tryrdlock t s \<noteq> None
     \<and> psync_rwlock_rdlock_starvewr t s \<noteq> None
     \<and> (\<not> psync_rwlock_holding_rdlock t s \<longrightarrow> psync_rwlock_wrlock t s \<noteq> None \<and> psync_rwlock_timedwrlock t s \<noteq> None
          \<and> psync_rwlock_trywrlock t s \<noteq> None \<and> psync_rwlock_rslock t s \<noteq> None)
     \<and> (wait (thr s t) = Running \<and> psync_rwlock_holding_lock t s \<longrightarrow> psync_rwlock_towrlock t s \<noteq> None \<and> psync_rwlock_unlock u t s \<noteq> None)
     \<and> (wait (thr s t) = WaitUp \<longrightarrow> up_wake t s \<noteq> None)"
proof -
  have inv: "rw_inv s" using reachable_wake_inv [OF assms] by (simp add: wake_inv_def)
  have "wait (thr s t) = WaitUp \<Longrightarrow> up_wake t s \<noteq> None"
    using up_wake_loop(2) [OF inv, of t] by (auto simp: up_wake_def up_loop_def)
  then show ?thesis
    using calls_in_Some [OF rw_invD(2) [OF inv, of t]] towrlock_Some [OF inv, of t] unlock_Some [OF inv, of t u]
    unfolding psync_rwlock_rdlock_def psync_rwlock_timedrdlock_def psync_rwlock_tryrdlock_def psync_rwlock_rdlock_starvewr_def
      psync_rwlock_wrlock_def psync_rwlock_timedwrlock_def psync_rwlock_trywrlock_def recursive_or_Some psync_rwlock_holding_rdlock_def
    by blast
qed


text \<open>Thread 0 takes the write lock, thread 1 waits for it, thread 0 releases it and signals thread 1.\<close>

definition scenario :: "nat \<Rightarrow> rwlock" where
  "scenario n = fold (\<lambda>f s. the (f s))
     (take n [psync_rwlock_wrlock 0, psync_rwlock_wrlock 1, psync_rwlock_unlock 1 0]) psync_rwlock_init"

lemmas scenario_simps = scenario_def psync_rwlock_wrlock_def psync_rwlock_unlock_def recursive_or_def
  psync_rwlock_check_wrrecursive_in_def psync_rwlock_check_recursive_out_def wr_loop_def wr_blocked_def wr_take_def unlock_wr_def signal_w_def
  wait_for_def set_thr_def psync_rwlock_create_cnt_def psync_rwlock_init_def thread0_def wwaiter_def

lemma scenario_reachable: "rw_reachable (scenario 1)" "rw_reachable (scenario 2)" "rw_reachable (scenario 3)"
proof -
  have 0: "rw_reachable (scenario 0)" by (simp add: rw_reachable_def reach_init scenario_def)
  have "rw_step (scenario 0) (scenario 1)" by (rule step_wrlock [of _ 0]) (simp_all add: scenario_simps)
  with 0 show 1: "rw_reachable (scenario 1)" unfolding rw_reachable_def by (rule reach_step)
  have "rw_step (scenario 1) (scenario 2)" by (rule step_wrlock [of _ 1]) (simp_all add: scenario_simps)
  with 1 show 2: "rw_reachable (scenario 2)" unfolding rw_reachable_def by (rule reach_step)
  have "rw_step (scenario 2) (scenario 3)" by (rule step_unlock [of _ 0 1]) (simp_all add: scenario_simps signals_waiter_def)
  with 2 show "rw_reachable (scenario 3)" unfolding rw_reachable_def by (rule reach_step)
qed

lemma rwlock_exclusion_witness:
  "psync_rwlock_holding_wrlock 0 (scenario 2) \<and> \<not> psync_rwlock_holding_lock 1 (scenario 2)"
proof -
  have "psync_rwlock_holding_wrlock 0 (scenario 2)" by (simp add: psync_rwlock_holding_wrlock_def scenario_simps)
  with rwlock_exclusion [OF scenario_reachable(2) this, of 1] show ?thesis by simp
qed

lemma rwlock_no_assertion_witness:
  "psync_rwlock_rdlock 1 (scenario 1) \<noteq> None \<and> psync_rwlock_towrlock 0 (scenario 1) \<noteq> None \<and> psync_rwlock_unlock 1 0 (scenario 1) \<noteq> None"
  using rwlock_no_assertion [OF scenario_reachable(1), of 1 1] rwlock_no_assertion [OF scenario_reachable(1), of 0 1]
  by (simp add: psync_rwlock_holding_lock_def scenario_simps)


end
