(* ===== verification/Pcrc32c.thy ===== *)
theory Pcrc32c
  imports Pcrc32c_tables
begin

section \<open>Checksums (\<open>pcrc32c.c\<close>)\<close>

text \<open>
  The CRC-32C of a buffer, by slicing eight bytes at a time or with the instructions of the processor on three chunks in parallel, and the
  non-cryptographic hash of 256 bits that is built on it.  A pointer is the address of its first byte (for the loops that run up to an
  aligned address) and the list of the bytes behind it.  The build for 64 bits is modelled.  The instructions \<^verbatim>\<open>crc32b\<close> and
  \<^verbatim>\<open>crc32q\<close> are parameters (\<open>hw8\<close>, \<open>hw64\<close>), and the locale \<open>sse42\<close> states what the processor documents of them.
\<close>

subsection \<open>Software\<close>

definition load32 :: "bytes \<Rightarrow> u32" where
  "load32 data = word_of_nat (le_val (take 4 data))"

definition fh_load64 :: "bytes \<Rightarrow> u64" where
  "fh_load64 data = word_of_nat (le_val (take 8 data))"

definition CRC32C_64BIT :: "u32 \<Rightarrow> bytes \<Rightarrow> u32" where
  "CRC32C_64BIT crc data =
     (let crc = crc XOR load32 data in
      crc32c_table ! 7 ! unat (crc AND 0xff) XOR
      crc32c_table ! 6 ! unat (drop_bit 8 crc AND 0xff) XOR
      crc32c_table ! 5 ! unat (drop_bit 16 crc AND 0xff) XOR
      crc32c_table ! 4 ! unat (drop_bit 24 crc AND 0xff) XOR
      crc32c_table ! 3 ! unat (data ! 4) XOR
      crc32c_table ! 2 ! unat (data ! 5) XOR
      crc32c_table ! 1 ! unat (data ! 6) XOR
      crc32c_table ! 0 ! unat (data ! 7))"

definition CRC32C_64BIT_UINT :: "u64 \<Rightarrow> u64 \<Rightarrow> u64" where
  "CRC32C_64BIT_UINT crc n =
     (let crc = crc XOR (n AND 0xffffffff) in
      ucast (crc32c_table ! 7 ! unat (crc AND 0xff) XOR
      crc32c_table ! 6 ! unat (drop_bit 8 crc AND 0xff) XOR
      crc32c_table ! 5 ! unat (drop_bit 16 crc AND 0xff) XOR
      crc32c_table ! 4 ! unat (drop_bit 24 crc AND 0xff) XOR
      crc32c_table ! 3 ! unat (drop_bit 32 n AND 0xff) XOR
      crc32c_table ! 2 ! unat (drop_bit 40 n AND 0xff) XOR
      crc32c_table ! 1 ! unat (drop_bit 48 n AND 0xff) XOR
      crc32c_table ! 0 ! unat (drop_bit 56 n AND 0xff)))"

definition CRC32C_8BIT :: "u32 \<Rightarrow> u8 \<Rightarrow> u32" where
  "CRC32C_8BIT crc b = crc32c_table ! 0 ! unat ((crc XOR ucast b) AND 0xff) XOR drop_bit 8 crc"

fun align_loop :: "nat \<Rightarrow> ('c \<Rightarrow> u8 \<Rightarrow> 'c) \<Rightarrow> nat \<Rightarrow> 'c \<Rightarrow> bytes \<Rightarrow> 'c \<times> bytes" where
  "align_loop w step addr crc [] = (crc, [])"
| "align_loop w step addr crc (b # data) =
     (if addr mod w \<noteq> 0 then align_loop w step (addr + 1) (step crc b) data else (crc, b # data))"

definition step64 :: "u32 \<times> bytes \<Rightarrow> u32 \<times> bytes" where
  "step64 = (\<lambda>(crc, data). (CRC32C_64BIT crc data, drop 8 data))"

function loop64 :: "u32 \<Rightarrow> bytes \<Rightarrow> u32 \<times> bytes" where
  "loop64 crc data =
     (if length data \<ge> 64
      then let (crc, data) = step64 (step64 (step64 (step64 (step64 (step64 (step64 (step64 (crc, data)))))))) in loop64 crc data
      else (crc, data))"
  by pat_completeness auto
termination by (relation "measure (length \<circ> snd)") (auto simp: step64_def)

function loop8 :: "u32 \<Rightarrow> bytes \<Rightarrow> u32 \<times> bytes" where
  "loop8 crc data = (if length data \<ge> 8 then let (crc, data) = step64 (crc, data) in loop8 crc data else (crc, data))"
  by pat_completeness auto
termination by (relation "measure (length \<circ> snd)") (auto simp: step64_def)

declare loop64.simps [simp del] loop8.simps [simp del]

definition psync_crc32c_sw :: "nat \<Rightarrow> u32 \<Rightarrow> bytes \<Rightarrow> u32" where
  "psync_crc32c_sw addr crc data =
     (let (crc, data) = align_loop 4 CRC32C_8BIT addr crc data;
          (crc, data) = loop64 crc data;
          (crc, data) = loop8 crc data
      in foldl CRC32C_8BIT crc data)"

subsection \<open>Hardware\<close>

definition CRC32_PARALLEL_CHUNK :: nat where
  "CRC32_PARALLEL_CHUNK = 1360"

definition crc32c_shift_chunk :: "u32 \<Rightarrow> u32" where
  "crc32c_shift_chunk crc =
     crc32c_shift_chunk_table1360 ! 0 ! unat (crc AND 0xff) XOR
     crc32c_shift_chunk_table1360 ! 1 ! unat (drop_bit 8 crc AND 0xff) XOR
     crc32c_shift_chunk_table1360 ! 2 ! unat (drop_bit 16 crc AND 0xff) XOR
     crc32c_shift_chunk_table1360 ! 3 ! unat (drop_bit 24 crc)"

fun parallel_loop :: "(u64 \<Rightarrow> u64 \<Rightarrow> u64) \<Rightarrow> nat \<Rightarrow> u64 \<Rightarrow> u64 \<Rightarrow> u64 \<Rightarrow> bytes \<Rightarrow> u64 \<times> u64 \<times> u64 \<times> bytes" where
  "parallel_loop hw64 0 crc0 crc1 crc2 data0 = (crc0, crc1, crc2, data0)"
| "parallel_loop hw64 (Suc n) crc0 crc1 crc2 data0 =
     parallel_loop hw64 n (hw64 crc0 (fh_load64 data0)) (hw64 crc1 (fh_load64 (drop CRC32_PARALLEL_CHUNK data0)))
       (hw64 crc2 (fh_load64 (drop (CRC32_PARALLEL_CHUNK * 2) data0))) (drop 8 data0)"

lemma parallel_loop_length: "snd (snd (snd (parallel_loop hw64 n c0 c1 c2 data))) = drop (8 * n) data"
  by (induction n arbitrary: c0 c1 c2 data) (simp_all add: algebra_simps)

function chunks_loop :: "(u64 \<Rightarrow> u64 \<Rightarrow> u64) \<Rightarrow> u64 \<Rightarrow> bytes \<Rightarrow> u64 \<times> bytes" where
  "chunks_loop hw64 crc0 data0 =
     (if length data0 \<ge> CRC32_PARALLEL_CHUNK * 3
      then let (crc0, crc1, crc2, rest) = parallel_loop hw64 (CRC32_PARALLEL_CHUNK div 8) crc0 0 0 data0;
               data1 = drop (CRC32_PARALLEL_CHUNK * 2) rest;
               crc0 = ucast (crc32c_shift_chunk (ucast crc0)) XOR crc1;
               crc0 = ucast (crc32c_shift_chunk (ucast crc0)) XOR crc2
           in chunks_loop hw64 crc0 data1
      else (crc0, data0))"
  by pat_completeness auto
termination
proof (relation "measure (\<lambda>(hw64, crc0, data0). length data0)")
  fix hw64 :: "u64 \<Rightarrow> u64 \<Rightarrow> u64" and crc0 :: u64 and data0 :: bytes and x crc0' y crc1 z crc2 rest data1 c c'
  assume a: "CRC32_PARALLEL_CHUNK * 3 \<le> length data0"
    and x: "x = parallel_loop hw64 (CRC32_PARALLEL_CHUNK div 8) crc0 0 0 data0" "(crc0', y) = x" "(crc1, z) = y" "(crc2, rest) = z"
    and d: "data1 = drop (CRC32_PARALLEL_CHUNK * 2) rest"
  have "rest = drop (8 * (CRC32_PARALLEL_CHUNK div 8)) data0"
    using parallel_loop_length [of hw64 "CRC32_PARALLEL_CHUNK div 8" crc0 0 0 data0] x by (metis snd_conv)
  then show "((hw64, c', data1), hw64, crc0, data0) \<in> measure (\<lambda>(hw64, crc0, data0). length data0)"
    using a d by (auto simp: CRC32_PARALLEL_CHUNK_def)
qed simp

definition step_hw :: "(u64 \<Rightarrow> u64 \<Rightarrow> u64) \<Rightarrow> u64 \<times> bytes \<Rightarrow> u64 \<times> bytes" where
  "step_hw hw64 = (\<lambda>(crc0, data0). (hw64 crc0 (fh_load64 data0), drop 8 data0))"

function quads_loop :: "(u64 \<Rightarrow> u64 \<Rightarrow> u64) \<Rightarrow> u64 \<Rightarrow> bytes \<Rightarrow> u64 \<times> bytes" where
  "quads_loop hw64 crc0 data0 =
     (if length data0 \<ge> 32
      then let (crc0, data0) = step_hw hw64 (step_hw hw64 (step_hw hw64 (step_hw hw64 (crc0, data0)))) in quads_loop hw64 crc0 data0
      else (crc0, data0))"
  by pat_completeness auto
termination by (relation "measure (\<lambda>(hw64, crc0, data0). length data0)") (auto simp: step_hw_def)

function words_loop :: "(u64 \<Rightarrow> u64 \<Rightarrow> u64) \<Rightarrow> u64 \<Rightarrow> bytes \<Rightarrow> u64 \<times> bytes" where
  "words_loop hw64 crc0 data0 =
     (if length data0 \<ge> 8 then let (crc0, data0) = step_hw hw64 (crc0, data0) in words_loop hw64 crc0 data0 else (crc0, data0))"
  by pat_completeness auto
termination by (relation "measure (\<lambda>(hw64, crc0, data0). length data0)") (auto simp: step_hw_def)

declare chunks_loop.simps [simp del] quads_loop.simps [simp del] words_loop.simps [simp del]

definition psync_crc32c_hw :: "(u64 \<Rightarrow> u8 \<Rightarrow> u64) \<Rightarrow> (u64 \<Rightarrow> u64 \<Rightarrow> u64) \<Rightarrow> nat \<Rightarrow> u64 \<Rightarrow> bytes \<Rightarrow> u32" where
  "psync_crc32c_hw hw8 hw64 addr crc0 data0 =
     (let (crc0, data0) = align_loop 8 hw8 addr crc0 data0;
          (crc0, data0) = chunks_loop hw64 crc0 data0;
          (crc0, data0) = quads_loop hw64 crc0 data0;
          (crc0, data0) = words_loop hw64 crc0 data0
      in ucast (foldl hw8 crc0 data0))"

definition psync_crc32c_init :: "(u64 \<Rightarrow> u8 \<Rightarrow> u64) \<Rightarrow> (u64 \<Rightarrow> u64 \<Rightarrow> u64) \<Rightarrow> bool \<Rightarrow> nat \<Rightarrow> u32 \<Rightarrow> bytes \<Rightarrow> u32 \<times> int" where
  "psync_crc32c_init hw8 hw64 has_hw addr crc data =
     (let crc_hashw = of_bool has_hw + 1 in
      if crc_hashw = 2 then (psync_crc32c_hw hw8 hw64 addr (ucast crc) data, crc_hashw)
      else (psync_crc32c_sw addr crc data, crc_hashw))"

text \<open>The second result is the value of \<^verbatim>\<open>crc_hashw\<close> afterwards.\<close>

definition psync_crc32c :: "(u64 \<Rightarrow> u8 \<Rightarrow> u64) \<Rightarrow> (u64 \<Rightarrow> u64 \<Rightarrow> u64) \<Rightarrow> bool \<Rightarrow> int \<Rightarrow> nat \<Rightarrow> u32 \<Rightarrow> bytes \<Rightarrow> u32 \<times> int" where
  "psync_crc32c hw8 hw64 has_hw crc_hashw addr crc data =
     (if crc_hashw = 2 then (psync_crc32c_hw hw8 hw64 addr (ucast crc) data, crc_hashw)
      else if crc_hashw = 1 then (psync_crc32c_sw addr crc data, crc_hashw)
      else psync_crc32c_init hw8 hw64 has_hw addr crc data)"

subsection \<open>Slicing is the reference\<close>

lemma and_ff: "(w :: u32) AND 0xff = take_bit 8 w"
  by (simp add: take_bit_eq_mask mask_eq_exp_minus_1)

lemma table_word:
  assumes "k < 8"
  shows "crc32c_table ! k ! unat (w AND 0xff) = crc_zeros (Suc k) (take_bit 8 w)"
proof -
  have "unat (take_bit 8 w) < 256" unfolding unsigned_take_bit_eq using take_bit_nat_less_exp [of 8 "unat w"] by simp
  then show ?thesis unfolding and_ff using crc32c_table_entry [OF assms, of "unat (take_bit 8 w)"] by simp
qed

lemma table_byte:
  assumes "k < 8"
  shows "crc32c_table ! k ! unat (b :: u8) = crc_zeros (Suc k) (ucast b)"
  using crc32c_table_entry [OF assms, of "unat b"] by simp

lemma table_words:
  "crc32c_table ! 7 ! unat (w AND 0xff) = crc_zeros 8 (take_bit 8 w)" "crc32c_table ! 6 ! unat (w AND 0xff) = crc_zeros 7 (take_bit 8 w)"
  "crc32c_table ! 5 ! unat (w AND 0xff) = crc_zeros 6 (take_bit 8 w)" "crc32c_table ! 4 ! unat (w AND 0xff) = crc_zeros 5 (take_bit 8 w)"
  using table_word [of 7 w] table_word [of 6 w] table_word [of 5 w] table_word [of 4 w] by simp_all

lemma table_bytes:
  "crc32c_table ! 3 ! unat (b :: u8) = crc_zeros 4 (ucast b)" "crc32c_table ! 2 ! unat b = crc_zeros 3 (ucast b)"
  "crc32c_table ! 1 ! unat b = crc_zeros 2 (ucast b)" "crc32c_table ! 0 ! unat b = crc_zeros 1 (ucast b)"
  using table_byte [of 3 b] table_byte [of 2 b] table_byte [of 1 b] table_byte [of 0 b] by (simp_all add: numeral_eq_Suc)

lemma CRC32C_8BIT_ref: "CRC32C_8BIT c b = crc_byte c b"
proof -
  have "drop_bit 8 (ucast b :: u32) = 0" by (rule bit_eqI) (auto simp: bit_simps dest: bit_imp_le_length)
  then have "drop_bit 8 (c XOR ucast b) = drop_bit 8 c" by (simp add: drop_bit_xor)
  then show ?thesis unfolding CRC32C_8BIT_def crc_byte_def table_word [of 0, simplified]
    using crc_zeros_split [of 0 "c XOR ucast b"] by simp
qed

lemma crc_zeros_bytes:
  "crc_zeros 8 w = crc_zeros 8 (take_bit 8 w) XOR crc_zeros 7 (take_bit 8 (drop_bit 8 w))
     XOR crc_zeros 6 (take_bit 8 (drop_bit 16 w)) XOR crc_zeros 5 (take_bit 8 (drop_bit 24 w))"
proof -
  have "drop_bit 32 w = 0" by (rule bit_eqI) (auto simp: bit_simps)
  then show ?thesis
    using crc_zeros_split [of 7 w] crc_zeros_split [of 6 "drop_bit 8 w"] crc_zeros_split [of 5 "drop_bit 16 w"]
      crc_zeros_split [of 4 "drop_bit 24 w"] by (simp add: drop_bit_drop_bit xor.assoc)
qed

lemma crc32c_ref_4: "crc32c_ref 0 [a, b, c, d] = crc_zeros 4 (ucast a) XOR crc_zeros 3 (ucast b) XOR crc_zeros 2 (ucast c) XOR crc_zeros 1 (ucast d)"
  by (simp add: crc32c_ref_Cons crc_byte_def crc_zeros_xor crc_zeros_add xor.assoc numeral_eq_Suc)

lemma crc32c_ref_8:
  assumes "length bs = 4" "length ds = 4"
  shows "crc32c_ref c (bs @ ds) = crc_zeros 8 (c XOR word_of_nat (le_val bs)) XOR crc32c_ref 0 ds"
proof -
  have "crc32c_ref c (bs @ ds) = crc_zeros 4 (crc_zeros 4 c XOR crc32c_ref 0 bs) XOR crc32c_ref 0 ds"
    using crc32c_ref_zero [of "crc32c_ref c bs" ds] crc32c_ref_zero [of c bs] assms by (simp add: crc32c_ref_append)
  also have "crc_zeros 4 (crc_zeros 4 c XOR crc32c_ref 0 bs) = crc_zeros 8 (c XOR word_of_nat (le_val bs))"
    using crc_zeros_le [of bs 8] assms by (simp add: crc_zeros_xor crc_zeros_add)
  finally show ?thesis .
qed

lemma list_split_8:
  assumes "length data \<ge> 8"
  shows "take 8 data = take 4 data @ [data ! 4, data ! 5, data ! 6, data ! 7]"
  using assms by (intro nth_equalityI) (auto simp: nth_append nth_Cons' less_Suc_eq numeral_eq_Suc)

lemma CRC32C_64BIT_ref:
  assumes "length data \<ge> 8"
  shows "CRC32C_64BIT c data = crc32c_ref c (take 8 data)"
proof -
  have "crc32c_ref c (take 8 data) = crc_zeros 8 (c XOR load32 data) XOR crc32c_ref 0 [data ! 4, data ! 5, data ! 6, data ! 7]"
    unfolding list_split_8 [OF assms] load32_def using assms by (intro crc32c_ref_8) simp_all
  then show ?thesis unfolding CRC32C_64BIT_def Let_def crc_zeros_bytes [of "c XOR load32 data"] crc32c_ref_4 table_words table_bytes
    by (simp only: xor.assoc)
qed

text \<open>Every loop processes a prefix of the data and leaves the rest.\<close>

lemma align_loop_ref:
  assumes "\<And>c b. f (step c b) = crc_byte (f c) b" "align_loop w step addr crc data = (crc', rest)"
  shows "crc32c_ref (f crc') rest = crc32c_ref (f crc) data"
  using assms by (induction w step addr crc data rule: align_loop.induct) (auto simp: crc32c_ref_Cons split: if_splits)

lemma step64_ref: "length data \<ge> 8 \<Longrightarrow> crc32c_ref (fst (step64 (c, data))) (snd (step64 (c, data))) = crc32c_ref c data"
  by (simp add: step64_def CRC32C_64BIT_ref crc32c_ref_append [symmetric])

lemma step64_ref':
  "length (snd p) \<ge> 8 \<Longrightarrow> crc32c_ref (fst (step64 p)) (snd (step64 p)) = crc32c_ref (fst p) (snd p)"
  "length (snd (step64 p)) = length (snd p) - 8"
  using step64_ref [of "snd p" "fst p"] by (simp_all add: step64_def split_beta)

lemma loop64_ref: "loop64 c data = (c', rest) \<Longrightarrow> crc32c_ref c' rest = crc32c_ref c data"
proof (induction c data rule: loop64.induct)
  case (1 c data)
  show ?case
  proof (cases "length data \<ge> 64")
    case True
    define p where "p = step64 (step64 (step64 (step64 (step64 (step64 (step64 (step64 (c, data))))))))"
    have "crc32c_ref (fst p) (snd p) = crc32c_ref c data"
      unfolding p_def using True by (simp add: step64_ref')
    moreover have "loop64 (fst p) (snd p) = (c', rest)"
      using 1(2) True by (simp add: loop64.simps [of c] p_def [symmetric] split_beta)
    ultimately show ?thesis using 1(1) [OF True, of p "fst p" "snd p"] by (simp add: p_def)
  next
    case False
    then show ?thesis using 1(2) by (simp add: loop64.simps [of c])
  qed
qed

lemma loop8_ref: "loop8 c data = (c', rest) \<Longrightarrow> crc32c_ref c' rest = crc32c_ref c data"
proof (induction c data rule: loop8.induct)
  case (1 c data)
  show ?case
  proof (cases "length data \<ge> 8")
    case True
    define p where "p = step64 (c, data)"
    have "crc32c_ref (fst p) (snd p) = crc32c_ref c data" unfolding p_def using True by (simp add: step64_ref')
    moreover have "loop8 (fst p) (snd p) = (c', rest)"
      using 1(2) True by (simp add: loop8.simps [of c] p_def [symmetric] split_beta)
    ultimately show ?thesis using 1(1) [OF True, of p "fst p" "snd p"] by (simp add: p_def)
  next
    case False
    then show ?thesis using 1(2) by (simp add: loop8.simps [of c])
  qed
qed

lemma psync_crc32c_sw_ref: "psync_crc32c_sw addr crc data = crc32c_ref crc data"
proof -
  obtain c1 d1 where 1: "align_loop 4 CRC32C_8BIT addr crc data = (c1, d1)" by (cases "align_loop 4 CRC32C_8BIT addr crc data")
  obtain c2 d2 where 2: "loop64 c1 d1 = (c2, d2)" by (cases "loop64 c1 d1")
  obtain c3 d3 where 3: "loop8 c2 d2 = (c3, d3)" by (cases "loop8 c2 d2")
  have "psync_crc32c_sw addr crc data = crc32c_ref c3 d3"
    unfolding psync_crc32c_sw_def crc32c_ref_def using 1 2 3 ext [of CRC32C_8BIT crc_byte, OF ext, OF CRC32C_8BIT_ref] by simp
  then show ?thesis
    using align_loop_ref [of "\<lambda>c. c", OF _ 1] loop64_ref [OF 2] loop8_ref [OF 3] by (simp add: CRC32C_8BIT_ref)
qed

subsection \<open>The instructions and the parallel chunks\<close>

lemma word_bytes:
  "w = take_bit 8 w XOR push_bit 8 (take_bit 8 (drop_bit 8 w)) XOR push_bit 16 (take_bit 8 (drop_bit 16 w)) XOR push_bit 24 (drop_bit 24 w)"
  for w :: u32
proof (rule bit_eqI)
  fix i assume "possible_bit TYPE(32 word) i"
  then have "i < 32" by simp
  then consider "i < 8" | "8 \<le> i" "i < 16" | "16 \<le> i" "i < 24" | "24 \<le> i" "i < 32" by linarith
  then show "bit w i = bit (take_bit 8 w XOR push_bit 8 (take_bit 8 (drop_bit 8 w)) XOR push_bit 16 (take_bit 8 (drop_bit 16 w))
      XOR push_bit 24 (drop_bit 24 w)) i"
    by cases (auto simp: bit_simps)
qed

lemma shift_chunk_word:
  assumes "k < 4"
  shows "crc32c_shift_chunk_table1360 ! k ! unat (w AND 0xff) = crc_zeros 1360 (push_bit (8 * k) (take_bit 8 w))"
proof -
  have "unat (take_bit 8 w) < 256" unfolding unsigned_take_bit_eq using take_bit_nat_less_exp [of 8 "unat w"] by simp
  then show ?thesis unfolding and_ff using shift_chunk_entry [OF assms, of "unat (take_bit 8 w)"] by simp
qed

lemma crc32c_shift_chunk_ref: "crc32c_shift_chunk c = crc_zeros 1360 c"
proof -
  have "take_bit 8 (drop_bit 24 c) = drop_bit 24 c" by (rule bit_eqI) (auto simp: bit_simps dest: bit_imp_le_length)
  then have t: "crc32c_shift_chunk_table1360 ! 3 ! unat (drop_bit 24 c) = crc_zeros 1360 (push_bit 24 (drop_bit 24 c))"
    using shift_chunk_word [of 3 "drop_bit 24 c"] by (simp add: and_ff)
  have "crc_zeros 1360 c = crc_zeros 1360 (take_bit 8 c) XOR crc_zeros 1360 (push_bit 8 (take_bit 8 (drop_bit 8 c)))
      XOR crc_zeros 1360 (push_bit 16 (take_bit 8 (drop_bit 16 c))) XOR crc_zeros 1360 (push_bit 24 (drop_bit 24 c))"
    by (subst word_bytes) (simp only: crc_zeros_xor)
  then show ?thesis
    unfolding crc32c_shift_chunk_def t
    using shift_chunk_word [of 0 c] shift_chunk_word [of 1 "drop_bit 8 c"] shift_chunk_word [of 2 "drop_bit 16 c"] by simp
qed

lemma fh_load64_bytes:
  assumes "length data \<ge> 8"
  shows "le_bytes 8 (unat (fh_load64 data)) = take 8 data"
proof -
  have "le_val (take 8 data) < 256 ^ length (take 8 data)" by (rule le_val_less)
  then have "unat (fh_load64 data) = le_val (take 8 data)"
    using assms by (simp add: fh_load64_def unat_of_nat take_bit_nat_eq_self)
  then show ?thesis using assms by simp
qed

lemma ucast_up_down [simp]: "ucast (ucast w :: u64) = w" for w :: u32
  by (rule bit_eqI) (auto simp: bit_simps)

locale sse42 =
  fixes hw8 :: "u64 \<Rightarrow> u8 \<Rightarrow> u64" and hw64 :: "u64 \<Rightarrow> u64 \<Rightarrow> u64"
  assumes hw8_crc: "hw8 c b = ucast (crc_byte (ucast c) b)"
    and hw64_crc: "hw64 c w = ucast (crc32c_ref (ucast c) (le_bytes 8 (unat w)))"
begin

lemma hw64_load: "length data \<ge> 8 \<Longrightarrow> ucast (hw64 c (fh_load64 data)) = crc32c_ref (ucast c) (take 8 data)"
  by (simp add: hw64_crc fh_load64_bytes)

lemma hw8_byte: "ucast (hw8 c b) = crc_byte (ucast c) b"
  by (simp add: hw8_crc)

lemma parallel_loop_ref:
  assumes "8 * n + 2720 \<le> length data" "parallel_loop hw64 n c0 c1 c2 data = (c0', c1', c2', rest)"
  shows "(ucast c0' :: u32) = crc32c_ref (ucast c0) (take (8 * n) data) \<and>
    (ucast c1' :: u32) = crc32c_ref (ucast c1) (take (8 * n) (drop 1360 data)) \<and>
    (ucast c2' :: u32) = crc32c_ref (ucast c2) (take (8 * n) (drop 2720 data)) \<and> rest = drop (8 * n) data"
  using assms
proof (induction n arbitrary: c0 c1 c2 data)
  case (Suc n)
  let ?d0 = "hw64 c0 (fh_load64 data)" and ?d1 = "hw64 c1 (fh_load64 (drop 1360 data))" and ?d2 = "hw64 c2 (fh_load64 (drop 2720 data))"
  have l: "parallel_loop hw64 n ?d0 ?d1 ?d2 (drop 8 data) = (c0', c1', c2', rest)" "8 * n + 2720 \<le> length (drop 8 data)"
    using Suc.prems by (simp_all add: CRC32_PARALLEL_CHUNK_def)
  note IH = Suc.IH [OF l(2,1)]
  have t: "take (8 * Suc n) xs = take 8 xs @ take (8 * n) (drop 8 xs)" for xs :: bytes by (simp add: take_add)
  have u: "drop 8 (drop 1360 data) = drop 1360 (drop 8 data)" "drop 8 (drop 2720 data) = drop 2720 (drop 8 data)" by simp_all
  have n: "8 \<le> length data" "8 \<le> length (drop 1360 data)" "8 \<le> length (drop 2720 data)" using Suc.prems(1) by simp_all
  have d: "rest = drop (8 * Suc n) data" using IH by (simp add: algebra_simps)
  show ?case unfolding t crc32c_ref_append u hw64_load [OF n(1), symmetric] hw64_load [OF n(2), symmetric] hw64_load [OF n(3), symmetric]
    using IH d by blast
qed simp

lemma chunks_loop_ref: "chunks_loop hw64 c data = (c', rest) \<Longrightarrow> crc32c_ref (ucast c') rest = crc32c_ref (ucast c) data"
proof (induction "length data" arbitrary: c data rule: less_induct)
  case less
  show ?case
  proof (cases "length data \<ge> 4080")
    case True
    obtain c0 c1 c2 r where p: "parallel_loop hw64 170 c 0 0 data = (c0, c1, c2, r)" by (cases "parallel_loop hw64 170 c 0 0 data")
    have l: "8 * 170 + 2720 \<le> length data" using True by simp
    note P = parallel_loop_ref [OF l p]
    let ?a = "crc32c_ref (ucast c) (take 1360 data)" and ?x1 = "take 1360 (drop 1360 data)" and ?x2 = "take 1360 (drop 2720 data)"
    define e where "e = ucast (crc32c_shift_chunk (ucast (ucast (crc32c_shift_chunk (ucast c0)) XOR c1))) XOR c2"
    have "(ucast e :: u32) = crc_zeros 1360 (crc_zeros 1360 ?a XOR crc32c_ref 0 ?x1) XOR crc32c_ref 0 ?x2"
      using P by (simp add: e_def crc32c_shift_chunk_ref unsigned_xor_eq)
    also have "crc_zeros 1360 ?a XOR crc32c_ref 0 ?x1 = crc32c_ref ?a ?x1" using crc32c_ref_zero [of ?a ?x1] True by simp
    also have "crc_zeros 1360 (crc32c_ref ?a ?x1) XOR crc32c_ref 0 ?x2 = crc32c_ref (crc32c_ref ?a ?x1) ?x2"
      using crc32c_ref_zero [of "crc32c_ref ?a ?x1" ?x2] True by simp
    finally have e: "(ucast e :: u32) = crc32c_ref (ucast c) (take 1360 data @ ?x1 @ ?x2)" by (simp add: crc32c_ref_append)
    have d: "data = (take 1360 data @ ?x1 @ ?x2) @ drop 4080 data"
      by (simp add: take_drop [symmetric] append_assoc [symmetric] take_add [symmetric] del: append_assoc)
    have "chunks_loop hw64 e (drop 4080 data) = (c', rest)"
      using less.prems True p P by (simp add: chunks_loop.simps [of hw64 c] CRC32_PARALLEL_CHUNK_def e_def)
    then have "crc32c_ref (ucast c') rest = crc32c_ref (ucast e) (drop 4080 data)" using True by (intro less.hyps) simp_all
    also have "\<dots> = crc32c_ref (ucast c) data" unfolding e crc32c_ref_append [symmetric] using d by metis
    finally show ?thesis .
  next
    case False
    then show ?thesis using less.prems by (simp add: chunks_loop.simps [of hw64 c] CRC32_PARALLEL_CHUNK_def)
  qed
qed

lemma step_hw_ref:
  "length (snd p) \<ge> 8 \<Longrightarrow> crc32c_ref (ucast (fst (step_hw hw64 p))) (snd (step_hw hw64 p)) = crc32c_ref (ucast (fst p)) (snd p)"
  "length (snd (step_hw hw64 p)) = length (snd p) - 8"
  by (simp_all add: step_hw_def split_beta hw64_load crc32c_ref_append [symmetric])

lemma quads_loop_ref: "quads_loop hw64 c data = (c', rest) \<Longrightarrow> crc32c_ref (ucast c') rest = crc32c_ref (ucast c) data"
proof (induction "length data" arbitrary: c data rule: less_induct)
  case less
  show ?case
  proof (cases "length data \<ge> 32")
    case True
    define p where "p = step_hw hw64 (step_hw hw64 (step_hw hw64 (step_hw hw64 (c, data))))"
    have p: "crc32c_ref (ucast (fst p)) (snd p) = crc32c_ref (ucast c) data" "length (snd p) < length data"
      unfolding p_def using True by (simp_all add: step_hw_ref)
    have "quads_loop hw64 (fst p) (snd p) = (c', rest)"
      using less.prems True by (simp add: quads_loop.simps [of hw64 c] p_def [symmetric] split_beta)
    then show ?thesis using less.hyps [OF p(2)] p(1) by simp
  next
    case False
    then show ?thesis using less.prems by (simp add: quads_loop.simps [of hw64 c])
  qed
qed

lemma words_loop_ref: "words_loop hw64 c data = (c', rest) \<Longrightarrow> crc32c_ref (ucast c') rest = crc32c_ref (ucast c) data"
proof (induction "length data" arbitrary: c data rule: less_induct)
  case less
  show ?case
  proof (cases "length data \<ge> 8")
    case True
    define p where "p = step_hw hw64 (c, data)"
    have p: "crc32c_ref (ucast (fst p)) (snd p) = crc32c_ref (ucast c) data" "length (snd p) < length data"
      unfolding p_def using True by (simp_all add: step_hw_ref)
    have "words_loop hw64 (fst p) (snd p) = (c', rest)"
      using less.prems True by (simp add: words_loop.simps [of hw64 c] p_def [symmetric] split_beta)
    then show ?thesis using less.hyps [OF p(2)] p(1) by simp
  next
    case False
    then show ?thesis using less.prems by (simp add: words_loop.simps [of hw64 c])
  qed
qed

lemma foldl_hw8: "ucast (foldl hw8 c data) = crc32c_ref (ucast c) data"
  by (induction data arbitrary: c) (simp_all add: hw8_byte crc32c_ref_Cons)

lemma psync_crc32c_hw_ref: "psync_crc32c_hw hw8 hw64 addr c data = crc32c_ref (ucast c) data"
proof -
  obtain c1 d1 where 1: "align_loop 8 hw8 addr c data = (c1, d1)" by (cases "align_loop 8 hw8 addr c data")
  obtain c2 d2 where 2: "chunks_loop hw64 c1 d1 = (c2, d2)" by (cases "chunks_loop hw64 c1 d1")
  obtain c3 d3 where 3: "quads_loop hw64 c2 d2 = (c3, d3)" by (cases "quads_loop hw64 c2 d2")
  obtain c4 d4 where 4: "words_loop hw64 c3 d3 = (c4, d4)" by (cases "words_loop hw64 c3 d3")
  have "psync_crc32c_hw hw8 hw64 addr c data = crc32c_ref (ucast c4) d4"
    unfolding psync_crc32c_hw_def using 1 2 3 4 by (simp add: foldl_hw8)
  then show ?thesis
    using align_loop_ref [of ucast, OF hw8_byte 1] chunks_loop_ref [OF 2] quads_loop_ref [OF 3] words_loop_ref [OF 4] by simp
qed

end

text \<open>The documented semantics of the instructions as functions.\<close>

definition crc32b :: "u64 \<Rightarrow> u8 \<Rightarrow> u64" where
  "crc32b c b = ucast (crc_byte (ucast c) b)"

definition crc32q :: "u64 \<Rightarrow> u64 \<Rightarrow> u64" where
  "crc32q c w = ucast (crc32c_ref (ucast c) (le_bytes 8 (unat w)))"

interpretation instructions: sse42 crc32b crc32q
  by unfold_locales (simp_all add: crc32b_def crc32q_def)

text \<open>C33: the checksum is CRC-32C.  For every buffer at every address, the table-driven code and the code for the processor
  with its three interleaved chunks give the value of the bit-serial definition; the processor is asked once for its
  support.\<close>

theorem psync_crc32c_reference:
  assumes "crc_hashw = 2 \<or> crc_hashw \<noteq> 1 \<and> has_hw \<Longrightarrow> sse42 hw8 hw64"
  shows "psync_crc32c hw8 hw64 has_hw crc_hashw addr crc data =
    (crc32c_ref crc data, if crc_hashw = 1 \<or> crc_hashw = 2 then crc_hashw else if has_hw then 2 else 1)"
proof -
  have "psync_crc32c_hw hw8 hw64 addr (ucast crc) data = crc32c_ref crc data" if "crc_hashw = 2 \<or> crc_hashw \<noteq> 1 \<and> has_hw"
    using sse42.psync_crc32c_hw_ref [OF assms [OF that]] by simp
  then show ?thesis by (auto simp: psync_crc32c_def psync_crc32c_init_def psync_crc32c_sw_ref)
qed

lemma psync_crc32c_reference_witness:
  "psync_crc32c crc32b crc32q True 0 3 0xffffffff [0x31, 0x32, 0x33] = (crc32c_ref 0xffffffff [0x31, 0x32, 0x33], 2)"
  using psync_crc32c_reference [where crc_hashw = 0 and has_hw = True and ?hw8.0 = crc32b and ?hw64.0 = crc32q] instructions.sse42_axioms by simp

end
