(* ===== verification/Pfasthash.thy ===== *)
theory Pfasthash
  imports Pcrc32c
begin

section \<open>The hash of 256 bits (\<open>psync_fast_hash256\<close> in \<open>pcrc32c.c\<close>)\<close>

text \<open>
  A hash that is fed in pieces: the context keeps six words of state, the length so far and a block of 64 bytes whose last byte is the
  number of bytes that wait in it.  The context is whatever memory the caller passes; the code initialises only the count in the block.
  The digest is shown to depend only on the concatenation of the pieces, and not on whether the processor has the CRC instructions.
\<close>

record psync_fast_hash256_ctx =
  state :: "u64 list"
  length_ctx :: u64
  buff :: bytes

definition PSYNC_FAST_HASH256_BLOCK_LEN :: nat where
  "PSYNC_FAST_HASH256_BLOCK_LEN = 64"

definition k0 :: u64 where "k0 = 0xc3a5c85c97cb3127"
definition k1 :: u64 where "k1 = 0xb492b66fbe98f273"
definition k2 :: u64 where "k2 = 0x9ae16a3b2f90404f"

definition fh_shiftmix :: "u64 \<Rightarrow> u64" where
  "fh_shiftmix val = val XOR drop_bit 47 val"

definition fh_rotate64 :: "u64 \<Rightarrow> nat \<Rightarrow> u64" where
  "fh_rotate64 val shift = (if shift \<noteq> 0 then drop_bit shift val OR push_bit (64 - shift) val else val)"

definition fh_hashmul3 :: "u64 \<Rightarrow> u64 \<Rightarrow> u64 \<Rightarrow> u64" where
  "fh_hashmul3 u v mul = fh_shiftmix ((fh_shiftmix ((u XOR v) * mul) XOR v) * mul) * mul"

definition fh_hashmul2 :: "u64 \<Rightarrow> u64 \<Rightarrow> u64" where
  "fh_hashmul2 u v = fh_hashmul3 u v 0x9ddfea08eb382d69"

definition fh_crc32_64sw :: "u64 \<Rightarrow> u64 \<Rightarrow> u64" where
  "fh_crc32_64sw crc data = CRC32C_64BIT_UINT crc data"

text \<open>The bytes of the tables from the third entry of a row on, and the words and bytes of a buffer.\<close>

definition table_row_bytes :: "nat \<Rightarrow> bytes" where
  "table_row_bytes k = concat (map (\<lambda>x. le_bytes 4 (unat x)) (drop 2 (crc32c_table ! k)))"

definition words64 :: "nat \<Rightarrow> bytes \<Rightarrow> u64 list" where
  "words64 n bs = map (\<lambda>i. fh_load64 (drop (8 * i) bs)) [0..<n]"

definition bytes64 :: "u64 list \<Rightarrow> bytes" where
  "bytes64 ws = concat (map (\<lambda>w. le_bytes 8 (unat w)) ws)"

definition memcpy_at :: "bytes \<Rightarrow> nat \<Rightarrow> bytes \<Rightarrow> bytes" where
  "memcpy_at dst off src = take off dst @ src @ drop (off + length src) dst"

definition psync_fast_hash256_init :: "bool \<Rightarrow> int \<Rightarrow> psync_fast_hash256_ctx \<Rightarrow> psync_fast_hash256_ctx \<times> int" where
  "psync_fast_hash256_init has_hw crc_hashw ctx =
     (ctx\<lparr>state := words64 6 (table_row_bytes 0), length_ctx := 0, buff := (buff ctx)[PSYNC_FAST_HASH256_BLOCK_LEN - 1 := 0]\<rparr>,
      if crc_hashw = 0 then of_bool has_hw + 1 else crc_hashw)"

definition psync_fast_hash256_init_seed :: "bool \<Rightarrow> int \<Rightarrow> psync_fast_hash256_ctx \<Rightarrow> bytes \<Rightarrow> psync_fast_hash256_ctx \<times> int" where
  "psync_fast_hash256_init_seed has_hw crc_hashw ctx seed =
     (let (ctx, crc_hashw) = psync_fast_hash256_init has_hw crc_hashw ctx;
          seed = take 48 seed; st = bytes64 (state ctx)
      in (ctx\<lparr>state := words64 6 (map2 (XOR) (take (length seed) st) seed @ drop (length seed) st)\<rparr>, crc_hashw))"

type_synonym fh_state = "u64 \<times> u64 \<times> u64 \<times> u64 \<times> u64 \<times> u64"

definition FH_LOAD_STATE :: "psync_fast_hash256_ctx \<Rightarrow> fh_state" where
  "FH_LOAD_STATE ctx = (state ctx ! 0, state ctx ! 1, state ctx ! 2, state ctx ! 3, state ctx ! 4, state ctx ! 5)"

definition FH_SAVE_STATE :: "fh_state \<Rightarrow> psync_fast_hash256_ctx \<Rightarrow> psync_fast_hash256_ctx" where
  "FH_SAVE_STATE = (\<lambda>(a, b, c, d, x, y) ctx. ctx\<lparr>state := [a, b, c, d, x, y]\<rparr>)"

definition ROUND_GEN :: "(u64 \<Rightarrow> u64 \<Rightarrow> u64) \<Rightarrow> u64 list \<Rightarrow> fh_state \<Rightarrow> fh_state" where
  "ROUND_GEN crc from = (\<lambda>(a, b, c, d, x, y).
     (let a = a + from ! 0; b = b + from ! 1; c = c + from ! 2; d = d + from ! 3;
          b = b XOR fh_rotate64 a 21; d = d XOR fh_rotate64 c 17;
          x = crc x (a + b); y = crc y (c + d);
          a = a + from ! 4; b = b + from ! 5; c = c + from ! 6; d = d + from ! 7;
          a = a XOR fh_rotate64 b 13; c = c XOR fh_rotate64 d 16;
          x = crc x (a + b); y = crc y (c + d)
      in (d, a, b, c, y, x)))"

function round_cdata :: "(u64 \<Rightarrow> u64 \<Rightarrow> u64) \<Rightarrow> fh_state \<Rightarrow> bytes \<Rightarrow> fh_state \<times> bytes" where
  "round_cdata crc st cdata =
     (if length cdata \<ge> PSYNC_FAST_HASH256_BLOCK_LEN
      then round_cdata crc (ROUND_GEN crc (words64 8 cdata) st) (drop PSYNC_FAST_HASH256_BLOCK_LEN cdata)
      else (st, cdata))"
  by pat_completeness auto
termination by (relation "measure (\<lambda>(crc, st, cdata). length cdata)") (auto simp: PSYNC_FAST_HASH256_BLOCK_LEN_def)

declare round_cdata.simps [simp del]

definition psync_fast_hash256_update_short_sw :: "psync_fast_hash256_ctx \<Rightarrow> bytes \<Rightarrow> psync_fast_hash256_ctx" where
  "psync_fast_hash256_update_short_sw ctx cdata =
     (let l = unat (buff ctx ! (PSYNC_FAST_HASH256_BLOCK_LEN - 1));
          b = (buff ctx)[PSYNC_FAST_HASH256_BLOCK_LEN - 1 := word_of_nat (l + length cdata)]
      in ctx\<lparr>buff := memcpy_at b l cdata\<rparr>)"

definition psync_fast_hash256_update_long :: "(u64 \<Rightarrow> u64 \<Rightarrow> u64) \<Rightarrow> psync_fast_hash256_ctx \<Rightarrow> bytes \<Rightarrow> psync_fast_hash256_ctx" where
  "psync_fast_hash256_update_long crc ctx cdata =
     (let st = FH_LOAD_STATE ctx; l = unat (buff ctx ! (PSYNC_FAST_HASH256_BLOCK_LEN - 1));
          (st, b, cdata) = (if l \<noteq> 0
             then let b = memcpy_at (buff ctx) l (take (PSYNC_FAST_HASH256_BLOCK_LEN - l) cdata)
                  in (ROUND_GEN crc (words64 8 b) st, b, drop (PSYNC_FAST_HASH256_BLOCK_LEN - l) cdata)
             else (st, buff ctx, cdata));
          (st, cdata) = round_cdata crc st cdata
      in (FH_SAVE_STATE st ctx)\<lparr>buff := (memcpy_at b 0 cdata)[PSYNC_FAST_HASH256_BLOCK_LEN - 1 := word_of_nat (length cdata)]\<rparr>)"

definition psync_fast_hash256_update ::
    "(u64 \<Rightarrow> u64 \<Rightarrow> u64) \<Rightarrow> int \<Rightarrow> psync_fast_hash256_ctx \<Rightarrow> bytes \<Rightarrow> psync_fast_hash256_ctx" where
  "psync_fast_hash256_update hw64 crc_hashw ctx data =
     (let ctx = ctx\<lparr>length_ctx := length_ctx ctx + word_of_nat (length data)\<rparr> in
      if length data + unat (buff ctx ! (PSYNC_FAST_HASH256_BLOCK_LEN - 1)) < PSYNC_FAST_HASH256_BLOCK_LEN
      then psync_fast_hash256_update_short_sw ctx data
      else if crc_hashw = 2 then psync_fast_hash256_update_long hw64 ctx data
      else psync_fast_hash256_update_long fh_crc32_64sw ctx data)"

definition final_mix :: "fh_state \<Rightarrow> u64 list" where
  "final_mix = (\<lambda>(a, b, c, d, x, y).
     (let d = d XOR fh_rotate64 a 43; a = a + fh_rotate64 b 42; b = b XOR fh_rotate64 c 41; c = c + fh_rotate64 d 40;
          a = fh_hashmul2 a (x + b); b = fh_hashmul2 b (y + c); c = fh_hashmul2 c (x + d); d = fh_hashmul2 d (y + a)
      in [a + b + y + x, fh_shiftmix ((a + x) * k0) * k0 + b, fh_shiftmix ((c XOR y) * k1) * k1 + d,
          fh_shiftmix ((x - y) * k2) * k2 + (c XOR d)]))"

definition final_words :: "u64 \<Rightarrow> u64 list \<Rightarrow> u64 list" where
  "final_words len w = w[0 := w ! 0 + len * k0, 1 := w ! 1 XOR fh_hashmul2 len k0, 2 := w ! 2 XOR len * k1, 3 := w ! 3 - len * k2]"

definition psync_fast_hash256_final ::
    "(u64 \<Rightarrow> u64 \<Rightarrow> u64) \<Rightarrow> int \<Rightarrow> psync_fast_hash256_ctx \<Rightarrow> bytes \<times> psync_fast_hash256_ctx" where
  "psync_fast_hash256_final hw64 crc_hashw ctx =
     (let len = unat (buff ctx ! (PSYNC_FAST_HASH256_BLOCK_LEN - 1));
          b = memcpy_at (buff ctx) len (take (PSYNC_FAST_HASH256_BLOCK_LEN - len) (table_row_bytes 1));
          w = final_words (length_ctx ctx) (words64 8 b);
          st = (if crc_hashw = 2 then ROUND_GEN hw64 w (FH_LOAD_STATE ctx) else ROUND_GEN fh_crc32_64sw w (FH_LOAD_STATE ctx));
          h = final_mix st
      in (bytes64 h, ctx\<lparr>buff := bytes64 (h @ drop 4 w)\<rparr>))"

subsection \<open>The two variants of the CRC step\<close>

lemma le_bytes_take: "m \<le> n \<Longrightarrow> take m (le_bytes n v) = le_bytes m v"
proof (induction n arbitrary: m v)
  case (Suc n)
  then show ?case by (cases m) auto
qed simp

lemma le_val_le_bytes_mod: "le_val (le_bytes n v) = v mod 256 ^ n"
proof (induction n arbitrary: v)
  case (Suc n)
  have "v mod (256 * 256 ^ n) = v mod 256 + 256 * (v div 256 mod 256 ^ n)" by (simp add: mod_mult2_eq)
  then show ?case using Suc by (simp add: unat_of_nat take_bit_eq_mod)
qed simp

lemma nth_le_bytes: "j < n \<Longrightarrow> le_bytes n v ! j = word_of_nat (v div 256 ^ j)"
proof (induction n arbitrary: j v)
  case (Suc n)
  then show ?case by (cases j) (auto simp: div_mult2_eq)
qed simp

lemma load32_le_bytes: "load32 (le_bytes 8 (unat (n :: u64))) = ucast n"
proof -
  have "load32 (le_bytes 8 (unat n)) = word_of_nat (unat n mod 2 ^ 32)"
    by (simp add: load32_def le_bytes_take le_val_le_bytes_mod)
  also have "\<dots> = word_of_nat (take_bit 32 (unat n))" by (simp add: take_bit_eq_mod)
  also have "\<dots> = ucast n" by (rule bit_eqI) (auto simp: bit_simps)
  finally show ?thesis .
qed

lemma byte_of_word:
  assumes "j < 8"
  shows "unat (le_bytes 8 (unat (n :: u64)) ! j) = unat (drop_bit (8 * j) n AND 0xff)"
proof -
  have "unat (drop_bit (8 * j) n AND 0xff) = unat (take_bit 8 (drop_bit (8 * j) n))"
    by (simp add: take_bit_eq_mask mask_eq_exp_minus_1)
  also have "\<dots> = unat n div 256 ^ j mod 256"
    unfolding unsigned_take_bit_eq unsigned_drop_bit_eq using unsigned_less [of n, where ?'a = nat] by (simp add: take_bit_eq_mod drop_bit_eq_div power_mult)
  finally show ?thesis using assms by (simp add: nth_le_bytes unat_of_nat take_bit_eq_mod)
qed

lemma low_word_index:
  fixes c n :: u64
  assumes "k \<le> 24"
  shows "unat (drop_bit k (c XOR (n AND 0xffffffff)) AND 0xff) = unat (drop_bit k (ucast c XOR ucast n :: u32) AND 0xff)"
proof -
  have f: "(0xff :: u64) = mask 8" "(0xff :: u32) = mask 8" "(0xffffffff :: u64) = mask 32" by (simp_all add: mask_eq_exp_minus_1)
  have "drop_bit k (c XOR (n AND mask 32)) AND mask 8 = ucast (drop_bit k (ucast c XOR ucast n :: u32) AND mask 8)"
    by (rule bit_eqI) (use assms in \<open>auto simp: bit_simps\<close>)
  moreover have "unat (ucast x :: u64) = unat x" for x :: u32
    using unsigned_less [of x, where ?'a = nat] by (simp add: unsigned_ucast_eq take_bit_nat_eq_self)
  ultimately show ?thesis unfolding f by (simp only:)
qed

lemma CRC32C_64BIT_UINT_crc32q: "CRC32C_64BIT_UINT c n = crc32q c n"
proof -
  let ?d = "le_bytes 8 (unat n)"
  have "CRC32C_64BIT (ucast c) ?d = crc32c_ref (ucast c) ?d" by (subst CRC32C_64BIT_ref) simp_all
  moreover have "CRC32C_64BIT_UINT c n = ucast (CRC32C_64BIT (ucast c) ?d)"
    unfolding CRC32C_64BIT_UINT_def CRC32C_64BIT_def Let_def load32_le_bytes
    using low_word_index [of 0 c n] low_word_index [of 8 c n] low_word_index [of 16 c n] low_word_index [of 24 c n]
      byte_of_word [of 4 n] byte_of_word [of 5 n] byte_of_word [of 6 n] byte_of_word [of 7 n] by simp
  ultimately show ?thesis by (simp add: crc32q_def)
qed

lemma fh_crc32_64sw_crc32q: "fh_crc32_64sw = crc32q"
  by (intro ext) (simp add: fh_crc32_64sw_def CRC32C_64BIT_UINT_crc32q)

lemma sse42_crc32q: "sse42 hw8 hw64 \<Longrightarrow> hw64 = crc32q"
  by (intro ext) (simp add: sse42.hw64_crc crc32q_def)

subsection \<open>Blocks\<close>

lemma words64_take:
  assumes "8 * n \<le> m"
  shows "words64 n (take m xs) = words64 n xs"
proof -
  have "take 8 (drop (8 * i) (take m xs)) = take 8 (drop (8 * i) xs)" if "i < n" for i
    using that assms by (simp add: drop_take min_def)
  then show ?thesis by (auto simp: words64_def fh_load64_def)
qed

lemma round_cdata_short: "length cdata < 64 \<Longrightarrow> round_cdata crc st cdata = (st, cdata)"
  by (simp add: round_cdata.simps PSYNC_FAST_HASH256_BLOCK_LEN_def)

lemma round_cdata_long:
  "length cdata \<ge> 64 \<Longrightarrow> round_cdata crc st cdata = round_cdata crc (ROUND_GEN crc (words64 8 (take 64 cdata)) st) (drop 64 cdata)"
  by (subst round_cdata.simps) (simp add: PSYNC_FAST_HASH256_BLOCK_LEN_def words64_take)

lemma round_cdata_append:
  assumes "round_cdata crc st data = (st', rest)"
  shows "length rest < 64 \<and> round_cdata crc st (data @ xs) = round_cdata crc st' (rest @ xs)"
  using assms
proof (induction "length data" arbitrary: st data rule: less_induct)
  case less
  show ?case
  proof (cases "length data \<ge> 64")
    case True
    then show ?thesis using less.hyps [of "drop 64 data"] less.prems round_cdata_long [of data] round_cdata_long [of "data @ xs"] by simp
  next
    case False
    then show ?thesis using less.prems round_cdata_short [of data] by simp
  qed
qed

text \<open>The digest of whole data, from a state, with the CRC by definition.\<close>

definition fast_hash256 :: "fh_state \<Rightarrow> bytes \<Rightarrow> bytes" where
  "fast_hash256 st data =
     (let (st, rest) = round_cdata crc32q st data;
          w = final_words (word_of_nat (length data)) (words64 8 (rest @ take (64 - length rest) (table_row_bytes 1)))
      in bytes64 (final_mix (ROUND_GEN crc32q w st)))"

text \<open>The context represents the data that has been fed.\<close>

definition represents :: "fh_state \<Rightarrow> bytes \<Rightarrow> psync_fast_hash256_ctx \<Rightarrow> bool" where
  "represents st data ctx \<longleftrightarrow> length (buff ctx) = 64 \<and> length (state ctx) = 6 \<and> length_ctx ctx = word_of_nat (length data)
     \<and> (case round_cdata crc32q st data of (s, rest) \<Rightarrow>
          FH_LOAD_STATE ctx = s \<and> unat (buff ctx ! 63) = length rest \<and> take (length rest) (buff ctx) = rest)"

lemma FH_SAVE_LOAD [simp]: "FH_LOAD_STATE ((FH_SAVE_STATE st ctx)\<lparr>buff := b\<rparr>) = st" "length (state (FH_SAVE_STATE st ctx)) = 6"
  "buff (FH_SAVE_STATE st ctx) = buff ctx" "length_ctx (FH_SAVE_STATE st ctx) = length_ctx ctx"
  by (auto simp: FH_LOAD_STATE_def FH_SAVE_STATE_def split: prod.splits)

lemma length_byte: "n < 256 \<Longrightarrow> unat (word_of_nat n :: u8) = n"
  by (simp add: unat_of_nat take_bit_nat_eq_self)

lemma update_short_represents:
  assumes "round_cdata crc32q st data = (s, rest)" "represents st data ctx" "length rest + length d < 64"
  shows "represents st (data @ d) ((psync_fast_hash256_update_short_sw ctx d)\<lparr>length_ctx := length_ctx ctx + word_of_nat (length d)\<rparr>)"
proof -
  have r: "length (buff ctx) = 64" "unat (buff ctx ! 63) = length rest" "take (length rest) (buff ctx) = rest" "FH_LOAD_STATE ctx = s"
    using assms(1,2) by (simp_all add: represents_def)
  have "round_cdata crc32q st (data @ d) = (s, rest @ d)"
    using round_cdata_append [OF assms(1), of d] assms(3) round_cdata_short [of "rest @ d"] by simp
  moreover have "take (length rest) ((buff ctx)[63 := x]) = rest" for x using r(3) assms(3) by simp
  moreover have "\<not> 63 - length rest < length d" using assms(3) by linarith
  ultimately show ?thesis using assms r length_byte [of "length rest + length d"]
    by (simp add: represents_def psync_fast_hash256_update_short_sw_def memcpy_at_def PSYNC_FAST_HASH256_BLOCK_LEN_def Let_def
      nth_append length_byte FH_LOAD_STATE_def)
qed

lemma update_long_represents:
  assumes "round_cdata crc32q st data = (s, rest)" "represents st data ctx" "length rest + length d \<ge> 64"
  shows "represents st (data @ d) ((psync_fast_hash256_update_long crc32q ctx d)\<lparr>length_ctx := length_ctx ctx + word_of_nat (length d)\<rparr>)"
proof -
  let ?l = "length rest"
  have r: "length (buff ctx) = 64" "unat (buff ctx ! 63) = ?l" "take ?l (buff ctx) = rest" "FH_LOAD_STATE ctx = s"
    using assms(1,2) by (simp_all add: represents_def)
  have l: "?l < 64" "round_cdata crc32q st (data @ d) = round_cdata crc32q s (rest @ d)" using round_cdata_append [OF assms(1), of d] by simp_all
  obtain b s' d' where b: "(if ?l \<noteq> 0
      then let b = memcpy_at (buff ctx) ?l (take (64 - ?l) d) in (ROUND_GEN crc32q (words64 8 b) s, b, drop (64 - ?l) d)
      else (s, buff ctx, d)) = (s', b, d')" by (cases "?l = 0") (auto simp: Let_def)
  have lb: "length b = 64" using b r(1) l(1) assms(3) by (auto simp: memcpy_at_def Let_def split: if_splits)
  have rs: "round_cdata crc32q s (rest @ d) = round_cdata crc32q s' d'"
  proof (cases "?l = 0")
    case False
    then have "take 64 (rest @ d) = b" using b r assms(3) l(1) by (auto simp: memcpy_at_def Let_def)
    then show ?thesis using False b round_cdata_long [of "rest @ d" crc32q s] assms(3) l(1) by (auto simp: Let_def)
  qed (use b in simp)
  obtain s2 r2 where 2: "round_cdata crc32q s' d' = (s2, r2)" by (cases "round_cdata crc32q s' d'")
  have l2: "length r2 < 64" using round_cdata_append [OF 2] by simp
  have "psync_fast_hash256_update_long crc32q ctx d =
      (FH_SAVE_STATE s2 ctx)\<lparr>buff := (memcpy_at b 0 r2)[63 := word_of_nat (length r2)]\<rparr>"
    unfolding psync_fast_hash256_update_long_def PSYNC_FAST_HASH256_BLOCK_LEN_def using r(2,4) b 2 by (simp add: Let_def)
  then show ?thesis
    using assms(2) l(2) rs 2 l2 lb
    by (simp add: represents_def memcpy_at_def length_byte FH_LOAD_STATE_def FH_SAVE_STATE_def split_beta)
qed

lemma update_represents:
  assumes "represents st data ctx" "crc_hashw = 2 \<Longrightarrow> sse42 hw8 hw64"
  shows "represents st (data @ d) (psync_fast_hash256_update hw64 crc_hashw ctx d)"
proof -
  obtain s rest where c: "round_cdata crc32q st data = (s, rest)" by (cases "round_cdata crc32q st data")
  let ?n = "length_ctx ctx + word_of_nat (length d)"
  have l: "unat (buff ctx ! 63) = length rest" using assms(1) c by (simp add: represents_def)
  have "psync_fast_hash256_update_short_sw (ctx\<lparr>length_ctx := ?n\<rparr>) d = (psync_fast_hash256_update_short_sw ctx d)\<lparr>length_ctx := ?n\<rparr>"
    by (simp add: psync_fast_hash256_update_short_sw_def Let_def)
  moreover have "psync_fast_hash256_update_long f (ctx\<lparr>length_ctx := ?n\<rparr>) d = (psync_fast_hash256_update_long f ctx d)\<lparr>length_ctx := ?n\<rparr>" for f
    by (simp add: psync_fast_hash256_update_long_def FH_LOAD_STATE_def FH_SAVE_STATE_def Let_def split_beta)
  moreover have "(if crc_hashw = 2 then psync_fast_hash256_update_long hw64 x d else psync_fast_hash256_update_long fh_crc32_64sw x d)
      = psync_fast_hash256_update_long crc32q x d" for x
    using sse42_crc32q [OF assms(2)] by (simp add: fh_crc32_64sw_crc32q)
  ultimately show ?thesis
    using update_short_represents [OF c assms(1), of d] update_long_represents [OF c assms(1), of d] l
    by (simp add: psync_fast_hash256_update_def PSYNC_FAST_HASH256_BLOCK_LEN_def Let_def)
qed

lemma updates_represent:
  assumes "represents st data ctx" "crc_hashw = 2 \<Longrightarrow> sse42 hw8 hw64"
  shows "represents st (data @ concat ds) (foldl (psync_fast_hash256_update hw64 crc_hashw) ctx ds)"
  using assms(1)
proof (induction ds arbitrary: data ctx)
  case (Cons d ds)
  have "represents st (data @ d) (psync_fast_hash256_update hw64 crc_hashw ctx d)"
    by (rule update_represents [OF Cons.prems assms(2)])
  from Cons.IH [OF this] show ?case by simp
qed simp

lemma final_digest:
  assumes "represents st data ctx" "crc_hashw = 2 \<Longrightarrow> sse42 hw8 hw64"
  shows "fst (psync_fast_hash256_final hw64 crc_hashw ctx) = fast_hash256 st data"
proof -
  obtain s rest where c: "round_cdata crc32q st data = (s, rest)" by (cases "round_cdata crc32q st data")
  let ?t = "take (64 - length rest) (table_row_bytes 1)"
  have r: "length (buff ctx) = 64" "unat (buff ctx ! 63) = length rest" "take (length rest) (buff ctx) = rest" "FH_LOAD_STATE ctx = s"
    "length_ctx ctx = word_of_nat (length data)" "length rest < 64"
    using assms(1) c round_cdata_append [OF c] by (simp_all add: represents_def)
  have "length (table_row_bytes 1) \<ge> 64"
    by (simp add: table_row_bytes_def crc32c_table_def length_concat comp_def crc32c_table1_def)
  then have b: "memcpy_at (buff ctx) (length rest) ?t = rest @ ?t" using r(1,3,6) by (simp add: memcpy_at_def)
  have "crc_hashw = 2 \<Longrightarrow> hw64 = crc32q" using sse42_crc32q [OF assms(2)] .
  then show ?thesis unfolding psync_fast_hash256_final_def fast_hash256_def PSYNC_FAST_HASH256_BLOCK_LEN_def
    using r b c by (simp add: Let_def fh_crc32_64sw_crc32q)
qed

text \<open>C34: the hash is a function of the data.  However the data is split into pieces, and with or without the CRC instructions, the
  digest is that of the concatenation; the contents of the context before its initialisation do not matter.\<close>

theorem fast_hash256_streaming:
  assumes "length (buff ctx) = 64" "psync_fast_hash256_init_seed has_hw crc_hashw ctx seed = (ctx', crc_hashw')"
    "crc_hashw' = 2 \<Longrightarrow> sse42 hw8 hw64"
  shows "fst (psync_fast_hash256_final hw64 crc_hashw' (foldl (psync_fast_hash256_update hw64 crc_hashw') ctx' ds))
    = fast_hash256 (FH_LOAD_STATE ctx') (concat ds)"
proof -
  have "represents (FH_LOAD_STATE ctx') [] ctx'"
    using assms(1,2) round_cdata_short [of "[]"]
    by (auto simp: represents_def psync_fast_hash256_init_seed_def psync_fast_hash256_init_def words64_def
      PSYNC_FAST_HASH256_BLOCK_LEN_def Let_def)
  from updates_represent [OF this assms(3)] show ?thesis using final_digest [OF _ assms(3)] by (metis append_Nil)
qed

lemma fast_hash256_streaming_witness:
  "case psync_fast_hash256_init_seed True 0 \<lparr>state = [], length_ctx = 0, buff = replicate 64 7\<rparr> [5] of (ctx, h) \<Rightarrow>
     h = 2 \<and> fst (psync_fast_hash256_final crc32q h (foldl (psync_fast_hash256_update crc32q h) ctx [[1], [], [2, 3]]))
       = fast_hash256 (FH_LOAD_STATE ctx) [1, 2, 3]"
proof -
  let ?i = "psync_fast_hash256_init_seed True 0 \<lparr>state = [], length_ctx = 0, buff = replicate 64 7\<rparr> [5]"
  obtain ctx h where i: "?i = (ctx, h)" by (cases ?i)
  then have "h = 2" by (auto simp: psync_fast_hash256_init_seed_def psync_fast_hash256_init_def Let_def)
  moreover have "fst (psync_fast_hash256_final crc32q h (foldl (psync_fast_hash256_update crc32q h) ctx [[1], [], [2, 3]]))
      = fast_hash256 (FH_LOAD_STATE ctx) (concat [[1], [], [2, 3]])"
    by (rule fast_hash256_streaming [OF _ i instructions.sse42_axioms]) simp
  ultimately show ?thesis using i by simp
qed

end
