(* ===== verification/Pcompression.thy ===== *)
theory Pcompression
  imports Prelude
begin

section \<open>Compressed streams (\<open>pcompression.c\<close>)\<close>

text \<open>
  The buffer between the compressor and its users: writing feeds the compressor and keeps its output in a ring of 4096 bytes, with an
  additional buffer for the rest of a flush; reading takes from the ring, from the additional buffer, or directly from the compressor.
  The compressor is zlib, a parameter: \<open>zcall\<close> is one call of \<^verbatim>\<open>deflate\<close> or \<^verbatim>\<open>inflate\<close> on the input and the space for output, and returns the
  new state of the stream, the input that is left, the output and the return code.  The locale \<open>zlib\<close> states what is documented of it.
  \<open>None\<close> is a failed assertion or a loop that does not end.
\<close>

datatype zret = Z_OK | Z_STREAM_END | Z_BUF_ERROR | Z_STREAM_ERROR | Z_DATA_ERROR | Z_OTHER
datatype zflush = Z_NO_FLUSH | Z_PARTIAL_FLUSH | Z_SYNC_FLUSH | Z_FINISH
datatype zop = Deflate zflush | Inflate zflush

type_synonym 'z zcall = "zop \<Rightarrow> 'z \<Rightarrow> bytes \<Rightarrow> nat \<Rightarrow> 'z \<times> bytes \<times> bytes \<times> zret"

definition BUFFER_SIZE :: nat where
  "BUFFER_SIZE = 4 * 1024"

definition PSYNC_DEFLATE_NODATA :: int where "PSYNC_DEFLATE_NODATA = -1"
definition PSYNC_DEFLATE_FULL :: int where "PSYNC_DEFLATE_FULL = -2"
definition PSYNC_DEFLATE_ERROR :: int where "PSYNC_DEFLATE_ERROR = -3"
definition PSYNC_DEFLATE_EOF :: int where "PSYNC_DEFLATE_EOF = 0"

datatype flushing = PSYNC_DEFLATE_NOFLUSH | PSYNC_DEFLATE_FLUSH | PSYNC_DEFLATE_FLUSH_END

record 'z psync_deflate_t =
  stream :: 'z
  next_in :: bytes
  next_out :: nat
  avail_out :: nat
  flushbuff :: "bytes option"
  flushbuffoff :: nat
  bufferstartoff :: nat
  bufferendoff :: nat
  lastout :: nat
  flag_deflate :: bool
  flag_more_data :: bool
  flag_stream_end :: bool
  buffer :: bytes

text \<open>\<open>zinit\<close> is the result of \<^verbatim>\<open>inflateInit2\<close> or \<^verbatim>\<open>deflateInit2\<close>, \<open>def\<close> the allocated memory.\<close>

definition psync_deflate_init :: "(int \<Rightarrow> 'z option) \<Rightarrow> 'z psync_deflate_t \<Rightarrow> int \<Rightarrow> 'z psync_deflate_t option" where
  "psync_deflate_init zinit def level =
     (case zinit level of None \<Rightarrow> None
      | Some z \<Rightarrow> Some (def\<lparr>stream := z, flushbuff := None, bufferstartoff := 0, bufferendoff := 0, flag_deflate := level \<noteq> 0,
          flag_more_data := False, flag_stream_end := False\<rparr>))"

definition psync_deflate_set_out_buff :: "'z psync_deflate_t \<Rightarrow> 'z psync_deflate_t option" where
  "psync_deflate_set_out_buff def =
     (if bufferendoff def - bufferstartoff def = BUFFER_SIZE then None
      else let e = bufferendoff def mod BUFFER_SIZE;
               n = (if e < bufferstartoff def then bufferstartoff def - e else BUFFER_SIZE - e)
           in Some (def\<lparr>next_out := e, avail_out := n, lastout := n\<rparr>))"

definition psync_translate_flush :: "flushing \<Rightarrow> zflush" where
  "psync_translate_flush flush =
     (case flush of PSYNC_DEFLATE_NOFLUSH \<Rightarrow> Z_NO_FLUSH | PSYNC_DEFLATE_FLUSH \<Rightarrow> Z_PARTIAL_FLUSH | PSYNC_DEFLATE_FLUSH_END \<Rightarrow> Z_FINISH)"

text \<open>The output goes to the ring at \<open>next_out\<close> when \<open>adjustbe\<close> is set, and to the reader otherwise.\<close>

definition psync_deflate_call_compressor ::
    "'z zcall \<Rightarrow> 'z psync_deflate_t \<Rightarrow> flushing \<Rightarrow> bool \<Rightarrow> ('z psync_deflate_t \<times> bytes \<times> zret) option" where
  "psync_deflate_call_compressor zcall def flush adjustbe =
     (if avail_out def = 0 then None
      else let (z, inp, out, ret) = zcall (if flag_deflate def then Deflate (psync_translate_flush flush) else Inflate Z_SYNC_FLUSH)
                 (stream def) (next_in def) (avail_out def);
               left = avail_out def - length out;
               def = def\<lparr>stream := z, next_in := inp, avail_out := left\<rparr>;
               def = (if adjustbe
                      then def\<lparr>buffer := take (next_out def) (buffer def) @ out @ drop (next_out def + length out) (buffer def),
                               bufferendoff := bufferendoff def + (lastout def - left)\<rparr>
                      else def)
           in Some (def\<lparr>flag_more_data := (left = 0)\<rparr>, out, ret))"

partial_function (option) add_buffer_loop ::
    "'z zcall \<Rightarrow> zflush \<Rightarrow> 'z \<Rightarrow> bytes \<Rightarrow> bytes \<Rightarrow> nat \<Rightarrow> nat \<Rightarrow> ('z \<times> bytes \<times> bytes option \<times> zret) option" where
  "add_buffer_loop zcall fl z inp buff alloced current =
     (let (z, inp, out, ret) = zcall (Deflate fl) z inp current in
      if ret \<noteq> Z_OK
      then if ret \<noteq> Z_BUF_ERROR then Some (z, inp, None, ret)
           else if buff = [] then Some (z, inp, None, Z_OK)
           else Some (z, inp, Some buff, Z_OK)
      else if length out \<noteq> current then Some (z, inp, Some (buff @ out), Z_OK)
      else add_buffer_loop zcall fl z inp (buff @ out) (alloced * 2) (alloced * 2 - length (buff @ out)))"

definition psync_deflate_finish_flush_add_buffer ::
    "'z zcall \<Rightarrow> 'z psync_deflate_t \<Rightarrow> flushing \<Rightarrow> ('z psync_deflate_t \<times> zret) option" where
  "psync_deflate_finish_flush_add_buffer zcall def flush =
     map_option (\<lambda>(z, inp, fb, ret). (def\<lparr>stream := z, next_in := inp, flag_more_data := False, flushbuffoff := 0,
         flushbuff := (case fb of None \<Rightarrow> flushbuff def | Some b \<Rightarrow> Some b)\<rparr>, ret))
       (add_buffer_loop zcall (psync_translate_flush flush) (stream def) (next_in def) [] 4096 4096)"

definition psync_deflate_write :: "'z zcall \<Rightarrow> 'z psync_deflate_t \<Rightarrow> bytes \<Rightarrow> flushing \<Rightarrow> ('z psync_deflate_t \<times> int) option" where
  "psync_deflate_write zcall def data flush =
     (if data = [] \<and> flush = PSYNC_DEFLATE_NOFLUSH then Some (def, PSYNC_DEFLATE_ERROR)
      else case (if flushbuff def \<noteq> None then None else psync_deflate_set_out_buff def) of
        None \<Rightarrow> Some (def, PSYNC_DEFLATE_FULL)
      | Some def \<Rightarrow>
          Option.bind (psync_deflate_call_compressor zcall (def\<lparr>next_in := data\<rparr>) flush True) (\<lambda>(def, _, ret).
          Option.bind
            (case (if ret = Z_OK \<and> flag_more_data def then psync_deflate_set_out_buff def else None) of
               None \<Rightarrow> Some (def, ret)
             | Some def \<Rightarrow> map_option (\<lambda>(def, _, ret). (def, if ret = Z_BUF_ERROR then Z_OK else ret))
                 (psync_deflate_call_compressor zcall def flush True)) (\<lambda>(def, ret).
          Option.bind
            (if ret = Z_OK \<and> flag_deflate def \<and> flush \<noteq> PSYNC_DEFLATE_NOFLUSH \<and> flag_more_data def
             then psync_deflate_finish_flush_add_buffer zcall def flush else Some (def, ret)) (\<lambda>(def, ret).
          let def = (if ret = Z_STREAM_END then def\<lparr>flag_stream_end := True\<rparr> else def) in
          Some (def, if ret = Z_STREAM_ERROR \<or> ret = Z_DATA_ERROR then PSYNC_DEFLATE_ERROR
                     else int (length data) - int (length (next_in def)))))))"

text \<open>Reading returns the code and the bytes that were copied to the caller.\<close>

definition read_flushbuff :: "'z psync_deflate_t \<Rightarrow> bytes \<Rightarrow> nat \<Rightarrow> 'z psync_deflate_t \<times> int \<times> bytes" where
  "read_flushbuff def fb len =
     (let len = min len (length fb - flushbuffoff def);
          data = take len (drop (flushbuffoff def) fb);
          def = def\<lparr>flushbuffoff := flushbuffoff def + len\<rparr>;
          def = (if flushbuffoff def = length fb then def\<lparr>flushbuff := None\<rparr> else def)
      in (def, int len, data))"

definition read_compressor :: "'z zcall \<Rightarrow> 'z psync_deflate_t \<Rightarrow> nat \<Rightarrow> ('z psync_deflate_t \<times> int \<times> bytes) option" where
  "read_compressor zcall def len =
     map_option (\<lambda>(def, out, ret).
         case ret of
           Z_BUF_ERROR \<Rightarrow> (def, PSYNC_DEFLATE_NODATA, [])
         | Z_STREAM_ERROR \<Rightarrow> (def, PSYNC_DEFLATE_ERROR, [])
         | Z_DATA_ERROR \<Rightarrow> (def, PSYNC_DEFLATE_ERROR, [])
         | _ \<Rightarrow> (if ret = Z_STREAM_END then def\<lparr>flag_stream_end := True\<rparr> else def,
                 if len - avail_out def = 0 then PSYNC_DEFLATE_NODATA else int (len - avail_out def), out))
       (psync_deflate_call_compressor zcall (def\<lparr>next_in := [], avail_out := len\<rparr>) PSYNC_DEFLATE_NOFLUSH False)"

definition read_ring :: "'z psync_deflate_t \<Rightarrow> nat \<Rightarrow> ('z psync_deflate_t \<times> int \<times> bytes) option" where
  "read_ring def len =
     (let s = bufferstartoff def; len = min len (bufferendoff def - s) in
      if \<not> len \<le> BUFFER_SIZE \<or> \<not> s \<le> BUFFER_SIZE then None
      else Option.bind
        (if s + len \<le> BUFFER_SIZE then Some (take len (drop s (buffer def)))
         else if len - (BUFFER_SIZE - s) \<noteq> bufferendoff def mod BUFFER_SIZE then None
         else Some (take (BUFFER_SIZE - s) (drop s (buffer def)) @ take (len - (BUFFER_SIZE - s)) (buffer def))) (\<lambda>data.
      let def = def\<lparr>bufferstartoff := s + len\<rparr> in
      if bufferstartoff def = bufferendoff def then Some (def\<lparr>bufferstartoff := 0, bufferendoff := 0\<rparr>, int len, data)
      else if bufferstartoff def \<ge> BUFFER_SIZE
      then if bufferendoff def < BUFFER_SIZE then None
           else Some (def\<lparr>bufferstartoff := bufferstartoff def - BUFFER_SIZE, bufferendoff := bufferendoff def - BUFFER_SIZE\<rparr>, int len, data)
      else Some (def, int len, data)))"

definition psync_deflate_read :: "'z zcall \<Rightarrow> 'z psync_deflate_t \<Rightarrow> nat \<Rightarrow> ('z psync_deflate_t \<times> int \<times> bytes) option" where
  "psync_deflate_read zcall def len =
     (if \<not> bufferstartoff def \<le> bufferendoff def then None
      else if bufferendoff def = bufferstartoff def
      then case flushbuff def of
             Some fb \<Rightarrow> Some (read_flushbuff def fb len)
           | None \<Rightarrow> if flag_more_data def then read_compressor zcall def len
                     else Some (def, if flag_stream_end def then PSYNC_DEFLATE_EOF else PSYNC_DEFLATE_NODATA, [])
      else read_ring def len)"

definition psync_deflate_pending :: "'z psync_deflate_t \<Rightarrow> nat" where
  "psync_deflate_pending def =
     bufferendoff def - bufferstartoff def + (case flushbuff def of None \<Rightarrow> 0 | Some fb \<Rightarrow> length fb)"

subsection \<open>What the buffers hold\<close>

definition ring_of :: "bytes \<Rightarrow> nat \<Rightarrow> nat \<Rightarrow> bytes" where
  "ring_of b s e = map (\<lambda>i. b ! ((s + i) mod BUFFER_SIZE)) [0..<e - s]"

definition rest_of :: "'z psync_deflate_t \<Rightarrow> bytes" where
  "rest_of def = (case flushbuff def of None \<Rightarrow> [] | Some fb \<Rightarrow> drop (flushbuffoff def) fb)"

definition content :: "'z psync_deflate_t \<Rightarrow> bytes" where
  "content def = ring_of (buffer def) (bufferstartoff def) (bufferendoff def) @ rest_of def"

definition ring_ok :: "bytes \<Rightarrow> nat \<Rightarrow> nat \<Rightarrow> bool" where
  "ring_ok b s e \<longleftrightarrow> length b = BUFFER_SIZE \<and> s < BUFFER_SIZE \<and> s \<le> e \<and> e \<le> s + BUFFER_SIZE"

definition buffers_ok :: "'z psync_deflate_t \<Rightarrow> bool" where
  "buffers_ok def \<longleftrightarrow> ring_ok (buffer def) (bufferstartoff def) (bufferendoff def)
     \<and> (\<forall>fb. flushbuff def = Some fb \<longrightarrow> flushbuffoff def \<le> length fb)"

lemma mod_once: "n < 2 * m \<Longrightarrow> n mod m = (if n < m then n else n - m)" for n m :: nat
  by (simp add: mod_if)

lemma length_ring [simp]: "length (ring_of b s e) = e - s"
  by (simp add: ring_of_def)

lemma ring_nth: "ring_ok b s e \<Longrightarrow> i < e - s \<Longrightarrow> ring_of b s e ! i = b ! (if s + i < BUFFER_SIZE then s + i else s + i - BUFFER_SIZE)"
proof -
  assume a: "ring_ok b s e" "i < e - s"
  then have "s + i < 2 * BUFFER_SIZE" unfolding ring_ok_def by linarith
  then show ?thesis using a mod_once [of "s + i" BUFFER_SIZE] by (simp add: ring_of_def)
qed

text \<open>Output is written behind what the ring holds.\<close>

lemma ring_append:
  assumes ok: "ring_ok b s e" and free: "e - s \<noteq> BUFFER_SIZE"
    and n: "n = (if e mod BUFFER_SIZE < s then s - e mod BUFFER_SIZE else BUFFER_SIZE - e mod BUFFER_SIZE)" and out: "length out \<le> n"
  defines "b' \<equiv> take (e mod BUFFER_SIZE) b @ out @ drop (e mod BUFFER_SIZE + length out) b"
  shows "ring_ok b' s (e + length out)" "ring_of b' s (e + length out) = ring_of b s e @ out"
proof -
  have B: "0 < BUFFER_SIZE" by (simp add: BUFFER_SIZE_def)
  have m: "e mod BUFFER_SIZE = (if e < BUFFER_SIZE then e else e - BUFFER_SIZE)" using ok by (intro mod_once) (simp add: ring_ok_def)
  have le: "e mod BUFFER_SIZE + length out \<le> BUFFER_SIZE" "e + length out \<le> s + BUFFER_SIZE"
    using ok free n out m by (auto simp: ring_ok_def split: if_splits)
  have lb: "length b' = BUFFER_SIZE" using ok le unfolding b'_def by (simp add: ring_ok_def)
  show ok': "ring_ok b' s (e + length out)" using ok le lb by (simp add: ring_ok_def)
  show "ring_of b' s (e + length out) = ring_of b s e @ out"
  proof (rule nth_equalityI)
    show "length (ring_of b' s (e + length out)) = length (ring_of b s e @ out)" using ok by (simp add: ring_ok_def)
  next
    fix i assume "i < length (ring_of b' s (e + length out))"
    then have i: "i < e + length out - s" by simp
    let ?p = "if s + i < BUFFER_SIZE then s + i else s + i - BUFFER_SIZE"
    have b': "b' ! p = (if p < e mod BUFFER_SIZE then b ! p else if p < e mod BUFFER_SIZE + length out then out ! (p - e mod BUFFER_SIZE) else b ! p)"
      if "p < BUFFER_SIZE" for p
      using that ok le(1) unfolding b'_def by (auto simp: nth_append ring_ok_def)
    have p: "?p < BUFFER_SIZE" using ok i le(2) by (auto simp: ring_ok_def)
    show "ring_of b' s (e + length out) ! i = (ring_of b s e @ out) ! i"
    proof (cases "i < e - s")
      case True
      have "\<not> (e mod BUFFER_SIZE \<le> ?p \<and> ?p < e mod BUFFER_SIZE + length out)"
        using True ok free n out m by (auto simp: ring_ok_def split: if_splits)
      then show ?thesis using ring_nth [OF ok' i] ring_nth [OF ok True] b' [OF p] True by (auto simp: nth_append)
    next
      case False
      have "?p = e mod BUFFER_SIZE + (i - (e - s))" using False i ok le m by (auto simp: ring_ok_def split: if_splits)
      then show ?thesis using ring_nth [OF ok' i] b' [OF p] False i ok by (auto simp: nth_append ring_ok_def)
    qed
  qed
qed

text \<open>Reading takes a prefix and leaves the rest.\<close>

lemma ring_take:
  assumes ok: "ring_ok b s e" and len: "len \<le> e - s"
  shows "ring_of b s e = ring_of b s (s + len) @ ring_of b (s + len) e"
  unfolding ring_of_def
proof (rule nth_equalityI)
  show "length (map (\<lambda>i. b ! ((s + i) mod BUFFER_SIZE)) [0..<e - s]) =
      length (map (\<lambda>i. b ! ((s + i) mod BUFFER_SIZE)) [0..<s + len - s] @ map (\<lambda>i. b ! ((s + len + i) mod BUFFER_SIZE)) [0..<e - (s + len)])"
    using len by simp
qed (use len in \<open>auto simp: nth_append\<close>)

lemma ring_shift: "ring_of b (s + BUFFER_SIZE) (e + BUFFER_SIZE) = ring_of b s e"
proof -
  have "(s + BUFFER_SIZE + i) mod BUFFER_SIZE = (s + i) mod BUFFER_SIZE" for i
    using mod_add_self2 [of "s + i" BUFFER_SIZE] by (simp add: ac_simps)
  then show ?thesis by (simp add: ring_of_def)
qed

text \<open>The ring of a read, with the data in two pieces where it wraps.\<close>

lemma ring_data:
  assumes "ring_ok b s e" "len \<le> e - s"
  shows "ring_of b s (s + len) =
    (if s + len \<le> BUFFER_SIZE then take len (drop s b) else take (BUFFER_SIZE - s) (drop s b) @ take (len - (BUFFER_SIZE - s)) b)" (is "_ = ?r")
proof (rule nth_equalityI)
  have l: "length b = BUFFER_SIZE" "s < BUFFER_SIZE" "len \<le> BUFFER_SIZE" "ring_ok b s (s + len)"
    using assms by (auto simp: ring_ok_def)
  show "length (ring_of b s (s + len)) = length ?r" using l by auto
  fix i assume "i < length (ring_of b s (s + len))"
  then have "i < len" by simp
  then show "ring_of b s (s + len) ! i = ?r ! i" using l ring_nth [OF l(4), of i] by (auto simp: nth_append add.commute)
qed

lemma read_ring_result:
  assumes ok: "buffers_ok def" and ne: "bufferendoff def \<noteq> bufferstartoff def"
  shows "read_ring def len = None \<longleftrightarrow> len < bufferendoff def - bufferstartoff def \<and> bufferstartoff def + len > BUFFER_SIZE"
    and "read_ring def len = Some (def', r, data) \<Longrightarrow> buffers_ok def' \<and> content def = data @ content def' \<and> stream def' = stream def
      \<and> r = int (length data) \<and> length data \<le> len \<and> flag_deflate def' = flag_deflate def"
proof -
  let ?b = "buffer def" and ?s = "bufferstartoff def" and ?e = "bufferendoff def"
  define l where "l = min len (?e - ?s)"
  have ring: "ring_ok ?b ?s ?e" using ok by (simp add: buffers_ok_def)
  have r: "length ?b = BUFFER_SIZE" "?s < BUFFER_SIZE" "?s < ?e" "?e \<le> ?s + BUFFER_SIZE" "l \<le> ?e - ?s"
    using ring ne by (auto simp: ring_ok_def l_def)
  have m: "?e mod BUFFER_SIZE = (if ?e < BUFFER_SIZE then ?e else ?e - BUFFER_SIZE)" using r by (intro mod_once) simp
  have fails: "?s + l > BUFFER_SIZE \<and> l - (BUFFER_SIZE - ?s) \<noteq> ?e mod BUFFER_SIZE \<longleftrightarrow> len < ?e - ?s \<and> ?s + len > BUFFER_SIZE"
    using r m by (auto simp: l_def min_def split: if_splits)
  have eval: "read_ring def len =
     (if ?s + l > BUFFER_SIZE \<and> l - (BUFFER_SIZE - ?s) \<noteq> ?e mod BUFFER_SIZE then None
      else Some (if ?s + l = ?e then def\<lparr>bufferstartoff := 0, bufferendoff := 0\<rparr>
                 else if ?s + l \<ge> BUFFER_SIZE then def\<lparr>bufferstartoff := ?s + l - BUFFER_SIZE, bufferendoff := ?e - BUFFER_SIZE\<rparr>
                 else def\<lparr>bufferstartoff := ?s + l\<rparr>, int l, ring_of ?b ?s (?s + l)))"
    unfolding read_ring_def ring_data [OF ring r(5)] l_def [symmetric] Let_def using r by auto
  show "read_ring def len = None \<longleftrightarrow> len < ?e - ?s \<and> ?s + len > BUFFER_SIZE" unfolding fails [symmetric] eval by simp
  assume s: "read_ring def len = Some (def', r, data)"
  then have d: "data = ring_of ?b ?s (?s + l)" "r = int l"
    "def' = (if ?s + l = ?e then def\<lparr>bufferstartoff := 0, bufferendoff := 0\<rparr>
                 else if ?s + l \<ge> BUFFER_SIZE then def\<lparr>bufferstartoff := ?s + l - BUFFER_SIZE, bufferendoff := ?e - BUFFER_SIZE\<rparr>
                 else def\<lparr>bufferstartoff := ?s + l\<rparr>)"
    unfolding eval by (auto split: if_splits)
  have f: "flushbuff def' = flushbuff def" "flushbuffoff def' = flushbuffoff def" "buffer def' = ?b" "stream def' = stream def"
    "flag_deflate def' = flag_deflate def" by (simp_all add: d(3))
  have "ring_ok ?b (bufferstartoff def') (bufferendoff def')" using r by (auto simp: d(3) ring_ok_def BUFFER_SIZE_def)
  then have "buffers_ok def'" using ok f by (simp add: buffers_ok_def)
  moreover have "ring_of ?b (?s + l) ?e = ring_of ?b (bufferstartoff def') (bufferendoff def')"
    using r ring_shift [of ?b "?s + l - BUFFER_SIZE" "?e - BUFFER_SIZE"] by (auto simp: d(3)) (simp_all add: ring_of_def)
  then have "content def = data @ content def'"
    using ring_take [OF ring r(5)] f by (simp add: content_def rest_of_def d(1) split: option.splits)
  ultimately show "buffers_ok def' \<and> content def = data @ content def' \<and> stream def' = stream def
      \<and> r = int (length data) \<and> length data \<le> len \<and> flag_deflate def' = flag_deflate def"
    using f d(1,2) by (simp add: l_def)
qed

subsection \<open>The compressor\<close>

text \<open>Progress of a stream: output \<open>out\<close> and input \<open>used\<close> are added.\<close>

definition progress :: "('z \<Rightarrow> bytes) \<Rightarrow> ('z \<Rightarrow> bytes) \<Rightarrow> 'z psync_deflate_t \<Rightarrow> 'z psync_deflate_t \<Rightarrow> bytes \<Rightarrow> bool" where
  "progress hist fed def def' out \<longleftrightarrow> hist (stream def') = hist (stream def) @ out
     \<and> (\<exists>used. next_in def = used @ next_in def' \<and> fed (stream def') = fed (stream def) @ used)"

text \<open>The stages of a write: the state keeps its form, and output goes to the end of the content.\<close>

definition staged :: "('z \<Rightarrow> bytes) \<Rightarrow> ('z \<Rightarrow> bytes) \<Rightarrow> 'z psync_deflate_t \<Rightarrow> 'z psync_deflate_t \<Rightarrow> bool" where
  "staged hist fed def def' \<longleftrightarrow> buffers_ok def' \<and> flag_deflate def' = flag_deflate def
     \<and> (\<exists>out. content def' = content def @ out \<and> progress hist fed def def' out)"

subsection \<open>Sessions\<close>

text \<open>A session: the compressor's buffers, the input that was accepted and the output that was read.  A step writes or reads; sessions
  in which zlib reports an error or that finish the stream are not continued.\<close>

type_synonym 'z session = "'z psync_deflate_t \<times> bytes \<times> bytes"

definition deflate_start :: "('z \<Rightarrow> bytes) \<Rightarrow> ('z \<Rightarrow> bytes) \<Rightarrow> 'z session \<Rightarrow> bool" where
  "deflate_start hist fed = (\<lambda>(def, sent, got). sent = [] \<and> got = [] \<and>
     (\<exists>z mem level. length (buffer mem) = BUFFER_SIZE \<and> hist z = [] \<and> fed z = [] \<and> psync_deflate_init (\<lambda>_. Some z) mem level = Some def))"

inductive deflate_step :: "'z zcall \<Rightarrow> 'z session \<Rightarrow> 'z session \<Rightarrow> bool" for zcall :: "'z zcall" where
  step_write: "flush \<noteq> PSYNC_DEFLATE_FLUSH_END \<Longrightarrow> psync_deflate_write zcall def data flush = Some (def', r) \<Longrightarrow> r \<noteq> PSYNC_DEFLATE_ERROR \<Longrightarrow>
    deflate_step zcall (def, sent, got) (def', sent @ take (nat r) data, got)"
| step_read: "len > 0 \<Longrightarrow> psync_deflate_read zcall def len = Some (def', r, data) \<Longrightarrow> r \<noteq> PSYNC_DEFLATE_ERROR \<Longrightarrow>
    deflate_step zcall (def, sent, got) (def', sent, got @ take (nat r) data)"

definition fifo_inv :: "('z \<Rightarrow> bytes) \<Rightarrow> ('z \<Rightarrow> bytes) \<Rightarrow> 'z session \<Rightarrow> bool" where
  "fifo_inv hist fed = (\<lambda>(def, sent, got). buffers_ok def \<and> hist (stream def) = got @ content def \<and> fed (stream def) = sent)"

subsection \<open>The contract of zlib\<close>

text \<open>
  What the documentation of zlib promises of a call: the output fits the space, the input that is left is a suffix, \<^verbatim>\<open>Z_BUF_ERROR\<close> means that
  there was no output, \<^verbatim>\<open>deflate\<close> has only some of the return codes and ends the stream only when it is asked to finish, and
  the output that a given input can still cause is bounded.  \<open>hist\<close> and \<open>fed\<close> name the output and the input of a stream so far.
\<close>

locale zlib =
  fixes zcall :: "'z zcall" and hist fed :: "'z \<Rightarrow> bytes" and bound :: "'z \<Rightarrow> bytes \<Rightarrow> nat"
  assumes out_fits: "zcall op z inp n = (z', rest, out, ret) \<Longrightarrow> length out \<le> n"
    and out_hist: "zcall op z inp n = (z', rest, out, ret) \<Longrightarrow> hist z' = hist z @ out"
    and inp_fed: "zcall op z inp n = (z', rest, out, ret) \<Longrightarrow> \<exists>used. inp = used @ rest \<and> fed z' = fed z @ used"
    and buf_error: "zcall op z inp n = (z', rest, out, Z_BUF_ERROR) \<Longrightarrow> out = []"
    and deflate_ret: "zcall (Deflate fl) z inp n = (z', rest, out, ret) \<Longrightarrow> ret \<in> {Z_OK, Z_STREAM_END, Z_BUF_ERROR, Z_STREAM_ERROR}"
    and deflate_end: "zcall (Deflate fl) z inp n = (z', rest, out, Z_STREAM_END) \<Longrightarrow> fl = Z_FINISH"
    and out_bound: "zcall op z inp n = (z', rest, out, ret) \<Longrightarrow> bound z' rest + length out \<le> bound z inp"
begin

lemma progress_trans: "progress hist fed a b x \<Longrightarrow> progress hist fed b c y \<Longrightarrow> progress hist fed a c (x @ y)"
  unfolding progress_def by force

lemma progress_refl: "progress hist fed def def []"
  by (simp add: progress_def)

lemma call_ring:
  assumes "buffers_ok def" "flushbuff def = None" "psync_deflate_set_out_buff def = Some d1"
  obtains def' out ret where "psync_deflate_call_compressor zcall (d1\<lparr>next_in := data\<rparr>) flush True = Some (def', out, ret)"
    "buffers_ok def'" "content def' = content def @ out" "progress hist fed (def\<lparr>next_in := data\<rparr>) def' out" "flushbuff def' = None"
    "flag_deflate def' = flag_deflate def" "flag_deflate def \<Longrightarrow> ret \<in> {Z_OK, Z_STREAM_END, Z_BUF_ERROR, Z_STREAM_ERROR}"
    "flag_deflate def \<Longrightarrow> ret = Z_STREAM_END \<Longrightarrow> flush = PSYNC_DEFLATE_FLUSH_END"
proof -
  define n where "n = (if bufferendoff def mod BUFFER_SIZE < bufferstartoff def then bufferstartoff def - bufferendoff def mod BUFFER_SIZE
    else BUFFER_SIZE - bufferendoff def mod BUFFER_SIZE)"
  have free: "bufferendoff def - bufferstartoff def \<noteq> BUFFER_SIZE"
    and d1: "d1 = def\<lparr>next_out := bufferendoff def mod BUFFER_SIZE, avail_out := n, lastout := n\<rparr>"
    using assms(3) by (auto simp: psync_deflate_set_out_buff_def n_def Let_def split: if_splits)
  have "0 < BUFFER_SIZE" by (simp add: BUFFER_SIZE_def)
  then have "n \<noteq> 0" by (simp add: n_def)
  define op where "op = (if flag_deflate def then Deflate (psync_translate_flush flush) else Inflate Z_SYNC_FLUSH)"
  obtain z inp out ret where z: "zcall op (stream def) data n = (z, inp, out, ret)" by (cases "zcall op (stream def) data n")
  let ?e = "bufferendoff def mod BUFFER_SIZE"
  let ?b = "take ?e (buffer def) @ out @ drop (?e + length out) (buffer def)"
  let ?d = "d1\<lparr>next_in := inp, stream := z, avail_out := n - length out, buffer := ?b, bufferendoff := bufferendoff def + length out,
    flag_more_data := (n - length out = 0)\<rparr>"
  have out: "length out \<le> n" by (rule out_fits [OF z])
  have ok: "ring_ok (buffer def) (bufferstartoff def) (bufferendoff def)" using assms(1) by (simp add: buffers_ok_def)
  note ring = ring_append [OF ok free n_def out]
  have c: "psync_deflate_call_compressor zcall (d1\<lparr>next_in := data\<rparr>) flush True = Some (?d, out, ret)"
    unfolding psync_deflate_call_compressor_def using \<open>n \<noteq> 0\<close> z out by (simp add: d1 op_def Let_def)
  show thesis
  proof (rule that [OF c])
    show "buffers_ok ?d" using ring(1) assms(2) by (simp add: buffers_ok_def d1)
    show "content ?d = content def @ out" using ring(2) assms(2) by (simp add: content_def rest_of_def d1)
    show "progress hist fed (def\<lparr>next_in := data\<rparr>) ?d out" using out_hist [OF z] inp_fed [OF z] by (simp add: progress_def)
    show "flushbuff ?d = None" "flag_deflate ?d = flag_deflate def" using assms(2) by (simp_all add: d1)
    show "ret \<in> {Z_OK, Z_STREAM_END, Z_BUF_ERROR, Z_STREAM_ERROR}" if "flag_deflate def"
      using that z deflate_ret by (simp add: op_def)
    show "flush = PSYNC_DEFLATE_FLUSH_END" if "flag_deflate def" "ret = Z_STREAM_END"
      using that z deflate_end [of "psync_translate_flush flush"] by (auto simp: op_def psync_translate_flush_def split: flushing.splits)
  qed
qed

text \<open>The additional buffer: the loop ends, and unless the stream ends or fails it keeps all output.\<close>

lemma add_buffer_returns:
  assumes "0 < current" "alloced = length buff + current"
  shows "\<exists>z' rest fb ret. add_buffer_loop zcall fl z inp buff alloced current = Some (z', rest, fb, ret)
    \<and> ret \<in> {Z_OK, Z_STREAM_END, Z_STREAM_ERROR} \<and> (ret = Z_STREAM_END \<longrightarrow> fl = Z_FINISH)
    \<and> (\<exists>used. inp = used @ rest \<and> fed z' = fed z @ used)
    \<and> (ret = Z_OK \<longrightarrow> (\<exists>out. hist z' = hist z @ out \<and> buff @ out = (case fb of None \<Rightarrow> [] | Some b \<Rightarrow> b)))"
  using assms
proof (induction "bound z inp" arbitrary: z inp buff alloced current rule: less_induct)
  case less
  obtain z1 inp1 out ret where z: "zcall (Deflate fl) z inp current = (z1, inp1, out, ret)" by (cases "zcall (Deflate fl) z inp current")
  note facts = out_fits [OF z] out_hist [OF z] inp_fed [OF z] deflate_ret [OF z] out_bound [OF z]
  show ?case
  proof (cases "ret = Z_OK \<and> length out = current")
    case True
    have "bound z1 inp1 < bound z inp" using facts(5) True less.prems(1) by simp
    from less.hyps [OF this, of "alloced * 2 - length (buff @ out)" "alloced * 2" "buff @ out"]
    obtain z' rest fb ret' where l: "add_buffer_loop zcall fl z1 inp1 (buff @ out) (alloced * 2) (alloced * 2 - length (buff @ out)) = Some (z', rest, fb, ret')"
      "ret' \<in> {Z_OK, Z_STREAM_END, Z_STREAM_ERROR}" "ret' = Z_STREAM_END \<longrightarrow> fl = Z_FINISH"
      "\<exists>used. inp1 = used @ rest \<and> fed z' = fed z1 @ used"
      "ret' = Z_OK \<longrightarrow> (\<exists>o'. hist z' = hist z1 @ o' \<and> (buff @ out) @ o' = (case fb of None \<Rightarrow> [] | Some b \<Rightarrow> b))"
      using less.prems True by auto
    have "add_buffer_loop zcall fl z inp buff alloced current = Some (z', rest, fb, ret')"
      by (subst add_buffer_loop.simps) (use z True l(1) in simp)
    moreover have "\<exists>used. inp = used @ rest \<and> fed z' = fed z @ used" using l(4) facts(3) by force
    moreover have "ret' = Z_OK \<longrightarrow> (\<exists>o'. hist z' = hist z @ o' \<and> buff @ o' = (case fb of None \<Rightarrow> [] | Some b \<Rightarrow> b))"
      using l(5) facts(2) by (metis append_assoc)
    ultimately show ?thesis using l(2,3) by blast
  next
    case False
    show ?thesis
      by (subst add_buffer_loop.simps)
        (use z False facts deflate_end [of fl z inp current z1 inp1 out] buf_error [of "Deflate fl" z inp current z1 inp1 out] in
          \<open>auto split: option.splits\<close>)
  qed
qed

lemma staged_trans: "staged hist fed a b \<Longrightarrow> staged hist fed b c \<Longrightarrow> staged hist fed a c"
  unfolding staged_def using progress_trans by fastforce

lemma second_call:
  assumes "buffers_ok def" "flushbuff def = None"
  shows "\<exists>def' ret'. (case (if P then psync_deflate_set_out_buff def else None) of
       None \<Rightarrow> Some (def, ret)
     | Some d \<Rightarrow> map_option (\<lambda>(d, _, ret). (d, if ret = Z_BUF_ERROR then Z_OK else ret)) (psync_deflate_call_compressor zcall d flush True))
     = Some (def', ret') \<and> staged hist fed def def' \<and> flushbuff def' = None
     \<and> (flag_deflate def \<longrightarrow> ret' = Z_STREAM_END \<longrightarrow> ret = Z_STREAM_END \<or> flush = PSYNC_DEFLATE_FLUSH_END)"
proof (cases "if P then psync_deflate_set_out_buff def else None")
  case None
  then show ?thesis using assms progress_refl by (auto simp: staged_def)
next
  case (Some d)
  then have d: "psync_deflate_set_out_buff def = Some d" by (auto split: if_splits)
  then have n: "next_in d = next_in def" by (auto simp: psync_deflate_set_out_buff_def Let_def split: if_splits)
  obtain def' out r where c: "psync_deflate_call_compressor zcall (d\<lparr>next_in := next_in def\<rparr>) flush True = Some (def', out, r)"
    "buffers_ok def'" "content def' = content def @ out" "progress hist fed (def\<lparr>next_in := next_in def\<rparr>) def' out" "flushbuff def' = None"
    "flag_deflate def' = flag_deflate def" "flag_deflate def \<Longrightarrow> r = Z_STREAM_END \<Longrightarrow> flush = PSYNC_DEFLATE_FLUSH_END"
    by (rule call_ring [OF assms d, where data = "next_in def" and flush = flush]) blast
  moreover have "d\<lparr>next_in := next_in def\<rparr> = d" using n by simp
  moreover have "def\<lparr>next_in := next_in def\<rparr> = def" by simp
  ultimately show ?thesis using Some by (auto simp: staged_def)
qed

lemma third_stage:
  assumes "buffers_ok def" "flushbuff def = None" "flush \<noteq> PSYNC_DEFLATE_FLUSH_END"
  shows "\<exists>def' ret'. (if ret = Z_OK \<and> flag_deflate def \<and> Q then psync_deflate_finish_flush_add_buffer zcall def flush else Some (def, ret))
     = Some (def', ret') \<and> (staged hist fed def def' \<or> ret' = Z_STREAM_ERROR \<and> buffers_ok def' \<and> flag_deflate def' = flag_deflate def)"
proof (cases "ret = Z_OK \<and> flag_deflate def \<and> Q")
  case True
  have fl: "psync_translate_flush flush \<noteq> Z_FINISH" using assms(3) by (simp add: psync_translate_flush_def split: flushing.splits)
  obtain z' rest fb r where a: "add_buffer_loop zcall (psync_translate_flush flush) (stream def) (next_in def) [] 4096 4096 = Some (z', rest, fb, r)"
    "r = Z_OK \<or> r = Z_STREAM_ERROR" "\<exists>used. next_in def = used @ rest \<and> fed z' = fed (stream def) @ used"
    "r = Z_OK \<longrightarrow> (\<exists>out. hist z' = hist (stream def) @ out \<and> [] @ out = (case fb of None \<Rightarrow> [] | Some b \<Rightarrow> b))"
    using add_buffer_returns [of 4096 4096 "[]" "psync_translate_flush flush" "stream def" "next_in def"] fl by auto
  let ?d = "def\<lparr>stream := z', next_in := rest, flag_more_data := False, flushbuffoff := 0, flushbuff := fb\<rparr>"
  have e: "psync_deflate_finish_flush_add_buffer zcall def flush = Some (?d, r)"
    using a(1) assms(2) by (auto simp: psync_deflate_finish_flush_add_buffer_def split: option.splits)
  have ok: "buffers_ok ?d" using assms(1) by (simp add: buffers_ok_def)
  have "content ?d = content def @ (case fb of None \<Rightarrow> [] | Some b \<Rightarrow> b)"
    using assms(2) by (simp add: content_def rest_of_def split: option.splits)
  then have "r = Z_OK \<Longrightarrow> staged hist fed def ?d" using a(3,4) ok by (auto simp: staged_def progress_def)
  then show ?thesis using e a(2) True ok by auto
next
  case False
  then show ?thesis using assms(1) progress_refl by (auto simp: staged_def)
qed

lemma write_stages:
  assumes "buffers_ok def" "flush \<noteq> PSYNC_DEFLATE_FLUSH_END"
  shows "\<exists>def' r. psync_deflate_write zcall def data flush = Some (def', r) \<and> buffers_ok def' \<and> flag_deflate def' = flag_deflate def
    \<and> (r = PSYNC_DEFLATE_ERROR \<or> r = PSYNC_DEFLATE_FULL \<and> def' = def \<or>
       r = int (length data) - int (length (next_in def')) \<and> staged hist fed (def\<lparr>next_in := data\<rparr>) def')"
proof (cases "(data = [] \<and> flush = PSYNC_DEFLATE_NOFLUSH) \<or> flushbuff def \<noteq> None \<or> psync_deflate_set_out_buff def = None")
  case True
  then show ?thesis using assms(1) by (auto simp: psync_deflate_write_def)
next
  case False
  then obtain d where d: "psync_deflate_set_out_buff def = Some d" and fb: "flushbuff def = None" by auto
  obtain d1 o1 r1 where 1: "psync_deflate_call_compressor zcall (d\<lparr>next_in := data\<rparr>) flush True = Some (d1, o1, r1)" "buffers_ok d1"
    "content d1 = content def @ o1" "progress hist fed (def\<lparr>next_in := data\<rparr>) d1 o1" "flushbuff d1 = None" "flag_deflate d1 = flag_deflate def"
    by (rule call_ring [OF assms(1) fb d, where data = data and flush = flush]) blast
  have c: "content (def\<lparr>next_in := data\<rparr>) = content def" by (simp add: content_def rest_of_def split: option.splits)
  have s1: "staged hist fed (def\<lparr>next_in := data\<rparr>) d1" using 1 c by (auto simp: staged_def)
  obtain d2 r2 where 2: "(case (if r1 = Z_OK \<and> flag_more_data d1 then psync_deflate_set_out_buff d1 else None) of
       None \<Rightarrow> Some (d1, r1)
     | Some d \<Rightarrow> map_option (\<lambda>(d, _, ret). (d, if ret = Z_BUF_ERROR then Z_OK else ret)) (psync_deflate_call_compressor zcall d flush True))
     = Some (d2, r2)" "staged hist fed d1 d2" "flushbuff d2 = None"
    using second_call [OF 1(2,5), where P = "r1 = Z_OK \<and> flag_more_data d1" and ret = r1 and flush = flush] by auto
  have ok2: "buffers_ok d2" using 2(2) by (simp add: staged_def)
  obtain d3 r3 where 3: "(if r2 = Z_OK \<and> flag_deflate d2 \<and> flush \<noteq> PSYNC_DEFLATE_NOFLUSH \<and> flag_more_data d2
      then psync_deflate_finish_flush_add_buffer zcall d2 flush else Some (d2, r2)) = Some (d3, r3)"
    "staged hist fed d2 d3 \<or> r3 = Z_STREAM_ERROR \<and> buffers_ok d3 \<and> flag_deflate d3 = flag_deflate d2"
    using third_stage [OF ok2 2(3) assms(2), where ret = r2 and Q = "flush \<noteq> PSYNC_DEFLATE_NOFLUSH \<and> flag_more_data d2"] by auto
  let ?d = "if r3 = Z_STREAM_END then d3\<lparr>flag_stream_end := True\<rparr> else d3"
  let ?r = "if r3 = Z_STREAM_ERROR \<or> r3 = Z_DATA_ERROR then PSYNC_DEFLATE_ERROR else int (length data) - int (length (next_in ?d))"
  have w: "psync_deflate_write zcall def data flush = Some (?d, ?r)"
  proof -
    have ne: "\<not> (data = [] \<and> flush = PSYNC_DEFLATE_NOFLUSH)" using False by blast
    show ?thesis unfolding psync_deflate_write_def if_not_P [OF ne] using d fb 1(1) 2(1) 3(1) by (simp add: Let_def)
  qed
  have s: "staged hist fed (def\<lparr>next_in := data\<rparr>) d3 \<Longrightarrow> staged hist fed (def\<lparr>next_in := data\<rparr>) ?d"
    by (simp add: staged_def progress_def content_def rest_of_def buffers_ok_def split: option.splits)
  have s2: "staged hist fed (def\<lparr>next_in := data\<rparr>) d2" by (rule staged_trans [OF s1 2(2)])
  show ?thesis
  proof (cases "staged hist fed d2 d3")
    case True
    from s [OF staged_trans [OF s2 True]] w show ?thesis by (auto simp: staged_def)
  next
    case False
    then show ?thesis using w 3(2) s2 by (auto simp: staged_def)
  qed
qed

lemma read_flushbuff_result:
  assumes "buffers_ok def" "bufferendoff def = bufferstartoff def" "flushbuff def = Some fb" "read_flushbuff def fb len = (def', r, data)"
  shows "buffers_ok def' \<and> content def = data @ content def' \<and> stream def' = stream def \<and> r = int (length data) \<and> length data \<le> len
    \<and> flag_deflate def' = flag_deflate def"
proof -
  define l where "l = min len (length fb - flushbuffoff def)"
  have o: "flushbuffoff def \<le> length fb" using assms(1,3) by (simp add: buffers_ok_def)
  have d: "data = take l (drop (flushbuffoff def) fb)" "r = int l"
    "def' = (if flushbuffoff def + l = length fb then def\<lparr>flushbuffoff := flushbuffoff def + l, flushbuff := None\<rparr>
       else def\<lparr>flushbuffoff := flushbuffoff def + l\<rparr>)"
    using assms(4) by (auto simp: read_flushbuff_def Let_def l_def split: if_splits)
  have "content def = drop (flushbuffoff def) fb" "content def' = drop (flushbuffoff def + l) fb"
    using assms(2,3) by (auto simp: content_def rest_of_def ring_of_def d(3))
  then have "content def = data @ content def'" by (simp add: d(1) add.commute flip: drop_drop)
  then show ?thesis using assms(1,3) o d(1,2) by (auto simp: d(3) buffers_ok_def l_def)
qed

lemma read_compressor_result:
  assumes "buffers_ok def" "content def = []" "flushbuff def = None" "len > 0"
  shows "\<exists>def' r data. read_compressor zcall def len = Some (def', r, data) \<and> buffers_ok def' \<and> flag_deflate def' = flag_deflate def
    \<and> fed (stream def') = fed (stream def) \<and> (r \<noteq> PSYNC_DEFLATE_ERROR \<longrightarrow> hist (stream def') = hist (stream def) @ data \<and> content def' = []
      \<and> length data \<le> len \<and> (r = int (length data) \<or> r = PSYNC_DEFLATE_NODATA \<and> data = []))"
proof -
  define op where "op = (if flag_deflate def then Deflate (psync_translate_flush PSYNC_DEFLATE_NOFLUSH) else Inflate Z_SYNC_FLUSH)"
  obtain z inp out ret where z: "zcall op (stream def) [] len = (z, inp, out, ret)" by (cases "zcall op (stream def) [] len")
  let ?d = "def\<lparr>stream := z, next_in := inp, avail_out := len - length out, flag_more_data := (len - length out = 0)\<rparr>"
  have c: "psync_deflate_call_compressor zcall (def\<lparr>next_in := [], avail_out := len\<rparr>) PSYNC_DEFLATE_NOFLUSH False = Some (?d, out, ret)"
    using assms(4) z by (simp add: psync_deflate_call_compressor_def op_def Let_def)
  have f: "fed z = fed (stream def)" using inp_fed [OF z] by simp
  have ok: "buffers_ok (?d\<lparr>flag_stream_end := b\<rparr>)" "buffers_ok ?d" "content (?d\<lparr>flag_stream_end := b\<rparr>) = []" "content ?d = []" for b
    using assms(1-3) by (simp_all add: buffers_ok_def content_def rest_of_def)
  have e: "ret = Z_BUF_ERROR \<Longrightarrow> out = []" using buf_error z by blast
  show ?thesis
    unfolding read_compressor_def c using ok f e out_hist [OF z] out_fits [OF z]
    by (cases ret) (simp_all add: PSYNC_DEFLATE_NODATA_def PSYNC_DEFLATE_ERROR_def)
qed

lemma read_result:
  assumes "buffers_ok def" "len > 0"
  shows "psync_deflate_read zcall def len = None \<longleftrightarrow>
      len < bufferendoff def - bufferstartoff def \<and> bufferstartoff def + len > BUFFER_SIZE"
    and "psync_deflate_read zcall def len = Some (def', r, data) \<Longrightarrow> r \<noteq> PSYNC_DEFLATE_ERROR \<Longrightarrow>
      buffers_ok def' \<and> fed (stream def') = fed (stream def) \<and>
      (\<exists>out. hist (stream def') = hist (stream def) @ out \<and> content def @ out = take (nat r) data @ content def')"
proof -
  have le: "bufferstartoff def \<le> bufferendoff def" using assms(1) by (simp add: buffers_ok_def ring_ok_def)
  consider (ring) "bufferendoff def \<noteq> bufferstartoff def"
    | (flush) fb where "bufferendoff def = bufferstartoff def" "flushbuff def = Some fb"
    | (more) "bufferendoff def = bufferstartoff def" "flushbuff def = None" "flag_more_data def"
    | (none) "bufferendoff def = bufferstartoff def" "flushbuff def = None" "\<not> flag_more_data def" by fastforce
  then have "(psync_deflate_read zcall def len = None \<longleftrightarrow> len < bufferendoff def - bufferstartoff def \<and> bufferstartoff def + len > BUFFER_SIZE)
    \<and> (psync_deflate_read zcall def len = Some (def', r, data) \<longrightarrow> r \<noteq> PSYNC_DEFLATE_ERROR \<longrightarrow>
      buffers_ok def' \<and> fed (stream def') = fed (stream def) \<and>
      (\<exists>out. hist (stream def') = hist (stream def) @ out \<and> content def @ out = take (nat r) data @ content def'))"
  proof cases
    case ring
    then have "psync_deflate_read zcall def len = read_ring def len" using le by (simp add: psync_deflate_read_def)
    then show ?thesis using read_ring_result(1) [OF assms(1) ring, of len] read_ring_result(2) [OF assms(1) ring, of len def' r data]
      by (auto intro: exI [of _ "[]"])
  next
    case flush
    then have "psync_deflate_read zcall def len = Some (read_flushbuff def fb len)" by (simp add: psync_deflate_read_def)
    then show ?thesis using flush(1) read_flushbuff_result [OF assms(1) flush, of len def' r data] by (auto intro: exI [of _ "[]"])
  next
    case more
    then have e: "psync_deflate_read zcall def len = read_compressor zcall def len" by (simp add: psync_deflate_read_def)
    have c: "content def = []" using more by (simp add: content_def ring_of_def rest_of_def)
    show ?thesis using read_compressor_result [OF assms(1) c more(2) assms(2)] more(1) c unfolding e
      by (auto simp: PSYNC_DEFLATE_NODATA_def)
  next
    case none
    then show ?thesis using assms(1)
      by (auto simp: psync_deflate_read_def content_def ring_of_def rest_of_def)
  qed
  then show "psync_deflate_read zcall def len = None \<longleftrightarrow>
      len < bufferendoff def - bufferstartoff def \<and> bufferstartoff def + len > BUFFER_SIZE"
    "psync_deflate_read zcall def len = Some (def', r, data) \<Longrightarrow> r \<noteq> PSYNC_DEFLATE_ERROR \<Longrightarrow>
      buffers_ok def' \<and> fed (stream def') = fed (stream def) \<and>
      (\<exists>out. hist (stream def') = hist (stream def) @ out \<and> content def @ out = take (nat r) data @ content def')" by blast+
qed

lemma write_result:
  assumes "buffers_ok def" "flush \<noteq> PSYNC_DEFLATE_FLUSH_END" "psync_deflate_write zcall def data flush = Some (def', r)" "r \<noteq> PSYNC_DEFLATE_ERROR"
  shows "buffers_ok def' \<and> fed (stream def') = fed (stream def) @ take (nat r) data
    \<and> (\<exists>out. hist (stream def') = hist (stream def) @ out \<and> content def' = content def @ out)"
proof -
  consider "r = PSYNC_DEFLATE_FULL" "def' = def"
    | "r = int (length data) - int (length (next_in def'))" "staged hist fed (def\<lparr>next_in := data\<rparr>) def'"
    using write_stages [OF assms(1,2), of data] assms(3,4) by auto
  then show ?thesis
  proof cases
    case 1
    then show ?thesis using assms(1) by (simp add: PSYNC_DEFLATE_FULL_def)
  next
    case 2
    then obtain used out where u: "data = used @ next_in def'" "fed (stream def') = fed (stream def) @ used"
      "hist (stream def') = hist (stream def) @ out" "content def' = content (def\<lparr>next_in := data\<rparr>) @ out" "buffers_ok def'"
      by (auto simp: staged_def progress_def)
    have "nat r = length used" using 2(1) u(1) by (metis add_diff_cancel_right' length_append nat_int of_nat_add)
    then have "take (nat r) data = used" using u(1) by simp
    moreover have "content (def\<lparr>next_in := data\<rparr>) = content def" by (simp add: content_def rest_of_def split: option.splits)
    ultimately show ?thesis using u by auto
  qed
qed

end

sublocale zlib \<subseteq> fifo: inductive_invariant "deflate_start hist fed" "deflate_step zcall" "fifo_inv hist fed"
proof unfold_locales
  show "fifo_inv hist fed s" if "deflate_start hist fed s" for s
    using that by (auto simp: deflate_start_def fifo_inv_def psync_deflate_init_def buffers_ok_def ring_ok_def content_def rest_of_def ring_of_def
      BUFFER_SIZE_def)
  show "fifo_inv hist fed t" if "fifo_inv hist fed s" "deflate_step zcall s t" for s t
    using that(2,1)
  proof (cases rule: deflate_step.cases)
    case (step_write flush def data def' r sent got)
    then show ?thesis using that(1) write_result [of def flush data def' r] by (auto simp: fifo_inv_def)
  next
    case (step_read len def def' r data sent got)
    then show ?thesis using that(1) read_result(2) [of def len def' r data] by (auto simp: fifo_inv_def)
  qed
qed

context zlib
begin

lemma session_inv: "reachable_from (deflate_start hist fed) (deflate_step zcall) s \<Longrightarrow> fifo_inv hist fed s"
  by (rule fifo.reachable_inv)

end

text \<open>A compressor that copies satisfies the contract.\<close>

definition zcopy :: "(bytes \<times> bytes) zcall" where
  "zcopy op z inp n =
     ((fst z @ take n inp, snd z @ take n inp), drop n inp, take n inp, if take n inp = [] then Z_BUF_ERROR else Z_OK)"

interpretation copying: zlib zcopy fst snd "\<lambda>z inp. length inp"
  by unfold_locales (auto simp: zcopy_def split: if_splits)

text \<open>Finishing a stream loses output: what \<^verbatim>\<open>deflate\<close> writes to the additional buffer in the call that ends the stream is dropped with the
  buffer.\<close>

lemma add_buffer_finish_loses:
  assumes "zcall (Deflate fl) z inp current = (z', rest, out, Z_STREAM_END)"
  shows "add_buffer_loop zcall fl z inp buff alloced current = Some (z', rest, None, Z_STREAM_END)"
  by (subst add_buffer_loop.simps) (simp add: assms)

text \<open>The pending bytes are reported with the part of the additional buffer that has been read already.\<close>

lemma psync_deflate_pending_content:
  assumes "buffers_ok def"
  shows "psync_deflate_pending def = length (content def) + (case flushbuff def of None \<Rightarrow> 0 | Some fb \<Rightarrow> flushbuffoff def)"
  using assms by (auto simp: psync_deflate_pending_def content_def rest_of_def buffers_ok_def split: option.splits)

subsection \<open>Properties\<close>


definition fresh_memory :: "(bytes \<times> bytes) psync_deflate_t" where
  "fresh_memory = \<lparr>stream = ([], []), next_in = [], next_out = 0, avail_out = 0, flushbuff = None, flushbuffoff = 0, bufferstartoff = 0,
     bufferendoff = 0, lastout = 0, flag_deflate = True, flag_more_data = False, flag_stream_end = False, buffer = replicate 4096 0\<rparr>"

definition session_write :: "(bytes \<times> bytes) psync_deflate_t" where
  "session_write = fst (the (psync_deflate_write zcopy fresh_memory [1, 2, 3] PSYNC_DEFLATE_FLUSH))"

lemma session_reachable:
  "reachable_from (deflate_start fst snd) (deflate_step zcopy) (session_write, [1, 2, 3], [])"
proof -
  have "psync_deflate_init (\<lambda>_. Some ([], [])) fresh_memory 2 = Some fresh_memory"
    by (simp add: psync_deflate_init_def fresh_memory_def)
  moreover have "length (buffer fresh_memory) = BUFFER_SIZE" by (simp add: fresh_memory_def BUFFER_SIZE_def)
  ultimately have "\<exists>z mem level. length (buffer mem) = BUFFER_SIZE \<and> fst z = [] \<and> snd z = [] \<and>
      psync_deflate_init (\<lambda>_. Some z) mem level = Some fresh_memory"
    by (intro exI [of _ "([], [])"] exI [of _ fresh_memory] exI [of _ 2]) simp
  then have start: "deflate_start fst snd (fresh_memory, [], [])" by (simp add: deflate_start_def)
  have "psync_deflate_write zcopy fresh_memory [1, 2, 3] PSYNC_DEFLATE_FLUSH = Some (session_write, 3)"
    by (simp add: session_write_def psync_deflate_write_def fresh_memory_def psync_deflate_set_out_buff_def psync_deflate_call_compressor_def
      zcopy_def BUFFER_SIZE_def Let_def)
  then have "deflate_step zcopy (fresh_memory, [], []) (session_write, [] @ take (nat 3) [1, 2, 3], [])"
    by (rule step_write [rotated]) (simp_all add: PSYNC_DEFLATE_ERROR_def)
  then have step: "deflate_step zcopy (fresh_memory, [], []) (session_write, [1, 2, 3], [])" by simp
  show ?thesis by (rule reach_step [where step = "deflate_step zcopy", OF reach_init [where init = "deflate_start fst snd", OF start] step])
qed


end
