(* ===== verification/Pfscrypto.thy ===== *)
theory Pfscrypto
  imports Prelude
begin

section \<open>Layout of an encrypted file\<close>

text \<open>
  The layout functions of \<^verbatim>\<open>src/src/psync/pfscrypto.c\<close>.  An encrypted file holds the encrypted data
  in sectors of 4096 bytes, and between them the sectors of a hash tree: 32 bytes of authentication
  for each data sector make up the sectors of level 0, 32 bytes for each sector of level 0 those of
  level 1, and so on.  A sector of the tree follows the last sector it authenticates, and the last
  sector of each level, which may be incomplete, is placed at the end of the file.  All quantities
  are unsigned C integers: natural numbers with the reduction to their width written out.  An access
  outside of an array and a failed assertion are values of \<open>crypto_fault\<close>.

  The file proves that the two ways to compute a layout, from the size of the plain text and from the
  size of the encrypted file, agree, and that the sectors of a file do not overlap.
\<close>

subsection \<open>Unsigned integers\<close>

definition uint16 :: "nat \<Rightarrow> nat" where "uint16 x = x mod 2 ^ 16"

definition uint32 :: "nat \<Rightarrow> nat" where "uint32 x = x mod 2 ^ 32"

definition uint64 :: "nat \<Rightarrow> nat" where "uint64 x = x mod 2 ^ 64"

definition sub32 :: "nat \<Rightarrow> nat \<Rightarrow> nat" where "sub32 x y = (x + (2 ^ 32 - uint32 y)) mod 2 ^ 32"

definition sub64 :: "nat \<Rightarrow> nat \<Rightarrow> nat" where "sub64 x y = (x + (2 ^ 64 - uint64 y)) mod 2 ^ 64"

named_theorems fits \<open>operations that do not wrap around\<close>

lemma uint16_id [fits]: "x < 65536 \<Longrightarrow> uint16 x = x"
  by (simp add: uint16_def)

lemma uint32_id [fits]: "x < 4294967296 \<Longrightarrow> uint32 x = x"
  by (simp add: uint32_def)

lemma uint64_id [fits]: "x < 18446744073709551616 \<Longrightarrow> uint64 x = x"
  by (simp add: uint64_def)

lemma sub64_id [fits]: "y \<le> x \<Longrightarrow> x < 18446744073709551616 \<Longrightarrow> sub64 x y = x - y"
  by (simp add: sub64_def uint64_def le_mod_geq)

subsection \<open>The definitions of the source\<close>

definition PSYNC_CRYPTO_SECTOR_SIZE :: nat where [simp]: "PSYNC_CRYPTO_SECTOR_SIZE = 4096"

definition PSYNC_CRYPTO_AUTH_SIZE :: nat where [simp]: "PSYNC_CRYPTO_AUTH_SIZE = 32"

definition PSYNC_CRYPTO_HASH_TREE_SECTORS :: nat where [simp]: "PSYNC_CRYPTO_HASH_TREE_SECTORS = 128"

definition PSYNC_CRYPTO_MAX_HASH_TREE_LEVEL :: nat where [simp]: "PSYNC_CRYPTO_MAX_HASH_TREE_LEVEL = 6"

record psync_crypto_offsets_t =
  masterauthoff :: nat
  plainsize :: nat
  lastauthsectoroff :: "nat list"
  lastauthsectorlen :: "nat list"
  treelevels :: nat
  needmasterauth :: bool

datatype crypto_fault = Out_of_bounds | Assertion_failed

type_synonym 'a checked = "crypto_fault + 'a"

definition max_level_size :: "nat list" where
  "max_level_size = [0x1000, 0x81000, 0x4081000, 0x204081000, 0x10204081000, 0x810204081000, 0x40810204081000]"

fun data_sectorid_loop :: "nat \<Rightarrow> nat \<Rightarrow> nat" where
  "data_sectorid_loop sectorid sect =
     (if PSYNC_CRYPTO_HASH_TREE_SECTORS \<le> sectorid
      then data_sectorid_loop (sectorid div PSYNC_CRYPTO_HASH_TREE_SECTORS)
             (uint32 (sect + sectorid div PSYNC_CRYPTO_HASH_TREE_SECTORS))
      else sect)"

definition psync_fs_crypto_data_sectorid_by_sectorid :: "nat \<Rightarrow> nat" where
  "psync_fs_crypto_data_sectorid_by_sectorid sectorid = data_sectorid_loop sectorid sectorid"

fun data_offset_loop :: "nat \<Rightarrow> nat \<Rightarrow> nat" where
  "data_offset_loop sectorid off =
     (if PSYNC_CRYPTO_HASH_TREE_SECTORS \<le> sectorid
      then let sectorid' = sectorid div PSYNC_CRYPTO_HASH_TREE_SECTORS
           in data_offset_loop sectorid' (uint64 (off + uint64 (sectorid' * PSYNC_CRYPTO_SECTOR_SIZE)))
      else off)"

definition psync_fs_crypto_data_offset_by_sectorid :: "nat \<Rightarrow> nat" where
  "psync_fs_crypto_data_offset_by_sectorid sectorid =
     data_offset_loop sectorid (uint64 (sectorid * PSYNC_CRYPTO_SECTOR_SIZE))"

fun auth_offset_loop :: "nat \<Rightarrow> nat \<Rightarrow> nat" where
  "auth_offset_loop sid ret =
     (if PSYNC_CRYPTO_HASH_TREE_SECTORS \<le> sid
      then let sid' = sid div PSYNC_CRYPTO_HASH_TREE_SECTORS
           in auth_offset_loop sid' (uint64 (ret + uint32 (sid' * PSYNC_CRYPTO_SECTOR_SIZE)))
      else ret)"

definition psync_fs_crypto_auth_offset :: "nat \<Rightarrow> nat \<Rightarrow> nat checked" where
  "psync_fs_crypto_auth_offset level sid =
     (if level + 1 < length max_level_size
      then Inr (auth_offset_loop sid
             (sub64 (uint64 (max_level_size ! (level + 1) * uint32 (sid + 1))) PSYNC_CRYPTO_SECTOR_SIZE))
      else Inl Out_of_bounds)"

definition no_offsets :: psync_crypto_offsets_t where
  "no_offsets = \<lparr>masterauthoff = 0, plainsize = 0,
     lastauthsectoroff = replicate PSYNC_CRYPTO_MAX_HASH_TREE_LEVEL 0,
     lastauthsectorlen = replicate PSYNC_CRYPTO_MAX_HASH_TREE_LEVEL 0, treelevels = 0, needmasterauth = False\<rparr>"

definition set_lastauthsector :: "psync_crypto_offsets_t \<Rightarrow> nat \<Rightarrow> nat \<Rightarrow> nat \<Rightarrow> psync_crypto_offsets_t checked" where
  "set_lastauthsector offsets level off len =
     (if level < PSYNC_CRYPTO_MAX_HASH_TREE_LEVEL
      then Inr (offsets\<lparr>lastauthsectoroff := (lastauthsectoroff offsets)[level := off],
                        lastauthsectorlen := (lastauthsectorlen offsets)[level := uint16 len]\<rparr>)
      else Inl Out_of_bounds)"

function plainsize_levels :: "nat \<Rightarrow> nat \<Rightarrow> nat \<Rightarrow> psync_crypto_offsets_t \<Rightarrow> psync_crypto_offsets_t checked" where
  "plainsize_levels size0 off level offsets =
     (let sz0 = uint32 (size0 mod PSYNC_CRYPTO_HASH_TREE_SECTORS);
          size1 = uint64 (size0 + PSYNC_CRYPTO_HASH_TREE_SECTORS - 1) div PSYNC_CRYPTO_HASH_TREE_SECTORS;
          sz1 = (if sz0 = 0 then PSYNC_CRYPTO_HASH_TREE_SECTORS else sz0);
          sz = uint32 (sz1 * PSYNC_CRYPTO_AUTH_SIZE)
      in case set_lastauthsector offsets level off sz of
           Inl e \<Rightarrow> Inl e
         | Inr offsets1 \<Rightarrow>
             let off1 = uint64 (off + sz); level1 = uint32 (level + 1)
             in if 1 < size1 then plainsize_levels size1 off1 level1 offsets1
                else case set_lastauthsector offsets1 level1 off1 PSYNC_CRYPTO_AUTH_SIZE of
                       Inl e \<Rightarrow> Inl e
                     | Inr offsets2 \<Rightarrow> Inr (offsets2\<lparr>masterauthoff := off1, treelevels := level1\<rparr>))"
  by pat_completeness auto
termination
  by (relation "measure (\<lambda>(size0, off, level, offsets). 6 - level)")
     (auto simp: set_lastauthsector_def uint32_def split: if_splits)

declare plainsize_levels.simps [simp del]

definition psync_fs_crypto_offsets_by_plainsize :: "nat \<Rightarrow> psync_crypto_offsets_t checked" where
  "psync_fs_crypto_offsets_by_plainsize size0 =
     (let offsets = no_offsets\<lparr>plainsize := size0, needmasterauth := PSYNC_CRYPTO_SECTOR_SIZE < size0\<rparr>
      in if size0 = 0 then Inr offsets
         else let lastsectorid0 = uint32 (size0 div PSYNC_CRYPTO_SECTOR_SIZE);
                  lastsectorsize0 = uint32 (size0 mod PSYNC_CRYPTO_SECTOR_SIZE);
                  (lastsectorid, lastsectorsize) =
                    (if lastsectorsize0 = 0 then (sub32 lastsectorid0 1, PSYNC_CRYPTO_SECTOR_SIZE)
                     else (lastsectorid0, lastsectorsize0));
                  off = uint64 (psync_fs_crypto_data_offset_by_sectorid lastsectorid + lastsectorsize);
                  size1 = uint64 (size0 + PSYNC_CRYPTO_SECTOR_SIZE - 1) div PSYNC_CRYPTO_SECTOR_SIZE
              in plainsize_levels size1 off 0 offsets)"

function level_by_size :: "nat \<Rightarrow> nat \<Rightarrow> nat" where
  "level_by_size size0 level =
     (if level \<le> PSYNC_CRYPTO_MAX_HASH_TREE_LEVEL
      then if size0 \<le> max_level_size ! level then level else level_by_size size0 (level + 1)
      else level)"
  by pat_completeness auto
termination
  by (relation "measure (\<lambda>(size0, level). 7 - level)") auto

declare level_by_size.simps [simp del]

fun cryptosize_levels :: "nat \<Rightarrow> nat \<Rightarrow> nat \<Rightarrow> psync_crypto_offsets_t \<Rightarrow> psync_crypto_offsets_t checked" where
  "cryptosize_levels size0 off 0 offsets = Inr (offsets\<lparr>plainsize := size0\<rparr>)"
| "cryptosize_levels size0 off (Suc level) offsets =
     (let cnt0 = uint64 (size0 + max_level_size ! level + PSYNC_CRYPTO_AUTH_SIZE - 1)
                   div (max_level_size ! level + PSYNC_CRYPTO_AUTH_SIZE);
          size1 = sub64 size0 (uint64 (cnt0 * PSYNC_CRYPTO_AUTH_SIZE));
          cnt1 = cnt0 mod PSYNC_CRYPTO_HASH_TREE_SECTORS;
          cnt = (if cnt1 = 0 then PSYNC_CRYPTO_HASH_TREE_SECTORS else cnt1);
          off1 = sub64 off (uint64 (cnt * PSYNC_CRYPTO_AUTH_SIZE))
      in case set_lastauthsector offsets level off1 (uint64 (cnt * PSYNC_CRYPTO_AUTH_SIZE)) of
           Inl e \<Rightarrow> Inl e
         | Inr offsets1 \<Rightarrow> cryptosize_levels size1 off1 level offsets1)"

definition psync_fs_crypto_offsets_by_cryptosize :: "nat \<Rightarrow> psync_crypto_offsets_t checked" where
  "psync_fs_crypto_offsets_by_cryptosize size0 =
     (if size0 \<le> PSYNC_CRYPTO_AUTH_SIZE then Inr no_offsets
      else let need = PSYNC_CRYPTO_SECTOR_SIZE + PSYNC_CRYPTO_AUTH_SIZE < size0;
               size1 = (if need then sub64 size0 PSYNC_CRYPTO_AUTH_SIZE else size0);
               offsets = no_offsets\<lparr>needmasterauth := need, masterauthoff := size1\<rparr>;
               level = level_by_size size1 1
           in if level \<le> PSYNC_CRYPTO_MAX_HASH_TREE_LEVEL
              then case set_lastauthsector (offsets\<lparr>treelevels := level\<rparr>) level size1 PSYNC_CRYPTO_AUTH_SIZE of
                     Inl e \<Rightarrow> Inl e
                   | Inr offsets1 \<Rightarrow> cryptosize_levels size1 size1 level offsets1
              else Inl Assertion_failed)"

definition get_last_sectorid_by_size :: "nat \<Rightarrow> nat" where
  "get_last_sectorid_by_size size0 =
     (if size0 = 0 then 0 else uint32 ((size0 - 1) div PSYNC_CRYPTO_SECTOR_SIZE))"

definition psync_fs_crypto_plain_size :: "nat \<Rightarrow> nat checked" where
  "psync_fs_crypto_plain_size cryptosize =
     (case psync_fs_crypto_offsets_by_cryptosize cryptosize of
        Inl e \<Rightarrow> Inl e | Inr offsets \<Rightarrow> Inr (plainsize offsets))"

definition crypto_end :: "psync_crypto_offsets_t \<Rightarrow> nat" where
  "crypto_end offsets = uint64 (masterauthoff offsets + (if needmasterauth offsets then PSYNC_CRYPTO_AUTH_SIZE else 0))"

definition psync_fs_crypto_crypto_size :: "nat \<Rightarrow> nat checked" where
  "psync_fs_crypto_crypto_size size0 =
     (case psync_fs_crypto_offsets_by_plainsize size0 of
        Inl e \<Rightarrow> Inl e | Inr offsets \<Rightarrow> Inr (crypto_end offsets))"

fun auth_walk :: "nat \<Rightarrow> nat \<Rightarrow> nat \<Rightarrow> nat \<Rightarrow> nat \<times> nat \<times> nat" where
  "auth_walk 0 sizesecd aid secd = (sizesecd, aid, secd)"
| "auth_walk (Suc n) sizesecd aid secd =
     auth_walk n (sizesecd div PSYNC_CRYPTO_HASH_TREE_SECTORS) (secd mod PSYNC_CRYPTO_HASH_TREE_SECTORS)
       (secd div PSYNC_CRYPTO_HASH_TREE_SECTORS)"

definition psync_fs_crypto_get_auth_sector_off ::
    "nat \<Rightarrow> nat \<Rightarrow> psync_crypto_offsets_t \<Rightarrow> (nat \<times> nat \<times> nat) checked" where
  "psync_fs_crypto_get_auth_sector_off sectorid level offsets =
     (let (sizesecd, aid, secd) =
        auth_walk level (get_last_sectorid_by_size (plainsize offsets) div PSYNC_CRYPTO_HASH_TREE_SECTORS)
          (sectorid mod PSYNC_CRYPTO_HASH_TREE_SECTORS) (sectorid div PSYNC_CRYPTO_HASH_TREE_SECTORS)
      in if secd = sizesecd
         then if level < PSYNC_CRYPTO_MAX_HASH_TREE_LEVEL
              then Inr (lastauthsectoroff offsets ! level, lastauthsectorlen offsets ! level, aid)
              else Inl Out_of_bounds
         else if secd < sizesecd
         then case psync_fs_crypto_auth_offset level secd of
                Inl e \<Rightarrow> Inl e | Inr off \<Rightarrow> Inr (off, PSYNC_CRYPTO_SECTOR_SIZE, aid)
         else Inl Assertion_failed)"

text \<open>The offset and the length of a data sector, as the reader of a data file computes them.\<close>

definition data_sector :: "psync_crypto_offsets_t \<Rightarrow> nat \<Rightarrow> (nat \<times> nat) option" where
  "data_sector offsets sectorid =
     (let start = uint64 (sectorid * PSYNC_CRYPTO_SECTOR_SIZE)
      in if plainsize offsets \<le> start then None
         else let ssize = (if plainsize offsets < uint64 (start + PSYNC_CRYPTO_SECTOR_SIZE)
                           then uint32 (sub64 (plainsize offsets) start) else PSYNC_CRYPTO_SECTOR_SIZE)
              in Some (psync_fs_crypto_data_offset_by_sectorid sectorid, ssize))"

declare data_sectorid_loop.simps [simp del] data_offset_loop.simps [simp del] auth_offset_loop.simps [simp del]

subsection \<open>The tree of a file in closed form\<close>

text \<open>
  A file whose last data sector has number \<open>s\<close> has \<open>s div 128 ^ k + 1\<close> nodes at height \<open>k\<close> of its tree,
  where height 0 are the data sectors.
\<close>

definition node :: "nat \<Rightarrow> nat \<Rightarrow> nat" where "node s k = s div 128 ^ k"

definition last_len :: "nat \<Rightarrow> nat \<Rightarrow> nat" where "last_len s k = 32 * (node s k mod 128 + 1)"

fun tree_height :: "nat \<Rightarrow> nat" where
  "tree_height s = (if s < 128 then 1 else Suc (tree_height (s div 128)))"

fun tree_sum :: "nat \<Rightarrow> nat" where
  "tree_sum i = (if i < 128 then i else i + tree_sum (i div 128))"

declare tree_height.simps [simp del] tree_sum.simps [simp del]

definition tail_off :: "nat \<Rightarrow> nat \<Rightarrow> nat \<Rightarrow> nat" where
  "tail_off base s k = base + (\<Sum>j<k. last_len s j)"

definition auth_total :: "nat \<Rightarrow> nat \<Rightarrow> nat" where
  "auth_total s l = (\<Sum>k<l. 32 * (node s k + 1))"

lemma node_simps [simp]: "node s 0 = s" "node (s div 128) k = node s (Suc k)" "node 0 k = 0"
  by (simp_all add: node_def div_mult2_eq [symmetric])

lemma node_Suc: "node s (Suc k) = node s k div 128"
  by (simp add: node_def power_Suc2 div_mult2_eq del: power_Suc)

lemma tree_height_pos [simp]: "0 < tree_height s"
  by (subst tree_height.simps) simp

lemma node_tree_height: "node s (tree_height s) = 0"
  by (induction s rule: tree_height.induct) (subst tree_height.simps, auto simp: node_Suc [of _ 0])

lemma node_below_height: "0 < k \<Longrightarrow> k < tree_height s \<Longrightarrow> 0 < node s k"
proof (induction s arbitrary: k rule: tree_height.induct)
  case (1 s)
  show ?case
  proof (cases "s < 128")
    case True
    with 1(2,3) show ?thesis by (subst (asm) tree_height.simps) auto
  next
    case False
    with 1(2,3) have lt: "k - 1 < tree_height (s div 128)" by (subst (asm) tree_height.simps) auto
    show ?thesis
    proof (cases "k = 1")
      case True
      with False show ?thesis by (simp add: node_Suc)
    next
      case ne: False
      with 1(1) [OF False, of "k - 1"] 1(2) lt show ?thesis by simp
    qed
  qed
qed

lemma tree_height_le: "s < 128 ^ k \<Longrightarrow> 0 < k \<Longrightarrow> tree_height s \<le> k"
proof (induction s arbitrary: k rule: tree_height.induct)
  case (1 s)
  show ?case
  proof (cases "s < 128")
    case True
    with 1(3) show ?thesis by (subst tree_height.simps) simp
  next
    case False
    with 1(2,3) obtain m where k: "k = Suc m" "0 < m" by (cases k; cases "k = 1") auto
    with 1(2) have "s div 128 < 128 ^ m" by (simp add: less_mult_imp_div_less mult.commute)
    with 1(1) [OF False] k show ?thesis using False by (subst tree_height.simps) simp
  qed
qed

lemma tree_sum_rec: "tree_sum i = i + tree_sum (i div 128)"
  by (cases "i < 128") (simp_all add: tree_sum.simps [of i] tree_sum.simps [of 0])

lemma tree_sum_le: "tree_sum i \<le> 2 * i"
  by (induction i rule: tree_sum.induct) (subst tree_sum.simps, auto)

lemma tree_sum_nodes: "tree_sum s = (\<Sum>k<tree_height s. node s k)"
proof (induction s rule: tree_sum.induct)
  case (1 s)
  show ?case
  proof (cases "s < 128")
    case False
    with 1 show ?thesis
      by (simp add: tree_sum.simps [of s] tree_height.simps [of s] sum.lessThan_Suc_shift del: sum.lessThan_Suc)
  qed (simp add: tree_sum.simps [of s] tree_height.simps [of s])
qed

lemma tree_sum_mono: "i \<le> j \<Longrightarrow> tree_sum i \<le> tree_sum j"
proof (induction i arbitrary: j rule: tree_sum.induct)
  case (1 i)
  show ?case
  proof (cases "i < 128")
    case True
    with 1(2) show ?thesis by (simp add: tree_sum.simps [of i] tree_sum_rec [of j])
  next
    case False
    with 1 have "tree_sum (i div 128) \<le> tree_sum (j div 128)" by (simp add: div_le_mono)
    with 1(2) show ?thesis by (simp add: tree_sum_rec [of i] tree_sum_rec [of j])
  qed
qed

lemma node_split: "32 * (node s k + 1) = 4096 * node s (Suc k) + last_len s k"
proof -
  have split: "x = 128 * a + b \<Longrightarrow> 32 * (x + 1) = 4096 * a + 32 * (b + 1)" for x a b :: nat by simp
  show ?thesis unfolding node_Suc last_len_def by (rule split) simp
qed

text \<open>The size of the data with its authentication, computed in two ways.\<close>

lemma auth_total_tail:
  "4096 * s + r + auth_total s (tree_height s) = tail_off (4096 * tree_sum s + r) s (tree_height s)"
proof -
  let ?h = "tree_height s"
  have "auth_total s ?h = 4096 * (\<Sum>k<?h. node s (Suc k)) + (\<Sum>k<?h. last_len s k)"
    by (simp only: auth_total_def node_split sum.distrib sum_distrib_left)
  moreover have "(\<Sum>k<Suc ?h. node s k) = s + (\<Sum>k<?h. node s (Suc k))"
    by (simp add: sum.lessThan_Suc_shift del: sum.lessThan_Suc)
  then have "tree_sum s = s + (\<Sum>k<?h. node s (Suc k))"
    by (simp add: tree_sum_nodes node_tree_height)
  ultimately show ?thesis by (simp add: tail_off_def)
qed

subsection \<open>The size limits of the levels\<close>

fun level_size :: "nat \<Rightarrow> nat" where
  "level_size 0 = 4096"
| "level_size (Suc l) = 128 * level_size l + 4096"

lemma level_size_numeral [simp]: "level_size (numeral k) = 128 * level_size (pred_numeral k) + 4096"
  by (simp add: numeral_eq_Suc)

lemma max_level_size_nth:
  assumes "l \<le> 6"
  shows "max_level_size ! l = level_size l"
proof -
  have "l = 0 \<or> l = 1 \<or> l = 2 \<or> l = 3 \<or> l = 4 \<or> l = 5 \<or> l = 6" using assms by linarith
  then show ?thesis by (elim disjE) (simp_all add: max_level_size_def)
qed

lemma level_size_power: "level_size (Suc l) = level_size l + 4096 * 128 ^ Suc l"
  by (induction l) auto

text \<open>What remains of the size when the authentication above height \<open>l\<close> has been taken away determines
  the number of nodes at that height.\<close>

lemma level_size_bounds:
  assumes "4096 * s < n" and "n \<le> 4096 * (s + 1)"
  shows "node s l * level_size l < n + auth_total s l \<and> n + auth_total s l \<le> (node s l + 1) * level_size l"
proof (induction l)
  case 0
  with assms show ?case by (simp add: auth_total_def algebra_simps)
next
  case (Suc l)
  let ?q = "node s l" and ?p = "node s (Suc l)" and ?m = "level_size l"
  have qp: "128 * ?p \<le> ?q" "?q + 1 \<le> 128 * (?p + 1)" by (simp_all add: node_Suc)
  have "auth_total s (Suc l) = auth_total s l + 32 * (?q + 1)" by (simp add: auth_total_def)
  with Suc have "?q * (?m + 32) < n + auth_total s (Suc l)" "n + auth_total s (Suc l) \<le> (?q + 1) * (?m + 32)"
    by (simp_all add: algebra_simps)
  moreover have "?p * level_size (Suc l) = 128 * ?p * (?m + 32)" "(?p + 1) * level_size (Suc l) = 128 * (?p + 1) * (?m + 32)"
    by (simp_all add: algebra_simps)
  moreover have "128 * ?p * (?m + 32) \<le> ?q * (?m + 32)" "(?q + 1) * (?m + 32) \<le> 128 * (?p + 1) * (?m + 32)"
    using qp by (intro mult_le_mono1; simp)+
  ultimately show ?case by linarith
qed

subsection \<open>The layout computed from the size of the plain text\<close>

lemma last_len_bounds: "0 < last_len s k" "last_len s k \<le> 4096"
proof -
  have "node s k mod 128 < 128" by simp
  then have "node s k mod 128 + 1 \<le> 128" by linarith
  then show "last_len s k \<le> 4096" by (simp add: last_len_def)
qed (simp add: last_len_def)

lemma tail_off_Suc: "tail_off base s (Suc k) = tail_off base s k + last_len s k"
  by (simp add: tail_off_def)

lemma tail_off_mono: "k \<le> l \<Longrightarrow> tail_off base s k \<le> tail_off base s l"
  by (auto simp: tail_off_def intro: sum_mono2)

lemma tail_off_le: "tail_off base s k \<le> base + 4096 * k"
proof (induction k)
  case (Suc k)
  with last_len_bounds(2) [of s k] show ?case by (simp add: tail_off_Suc)
qed (simp add: tail_off_def)

lemma data_offset_loop_sum:
  "i < 2 ^ 32 \<Longrightarrow> off + 4096 * tree_sum (i div 128) < 2 ^ 64 \<Longrightarrow>
   data_offset_loop i off = off + 4096 * tree_sum (i div 128)"
proof (induction i off rule: data_offset_loop.induct)
  case (1 i off)
  show ?case
  proof (cases "128 \<le> i")
    case True
    let ?i = "i div 128"
    have "off + 4096 * ?i + 4096 * tree_sum (?i div 128) < 2 ^ 64"
      using 1(3) by (simp add: tree_sum_rec [of ?i])
    then have "uint64 (off + uint64 (?i * 4096)) = off + 4096 * ?i"
      by (simp add: fits)
    moreover have "data_offset_loop ?i (off + 4096 * ?i) = off + 4096 * ?i + 4096 * tree_sum (?i div 128)"
      using 1(1) [OF _ refl] True 1(2) \<open>off + 4096 * ?i + 4096 * tree_sum (?i div 128) < 2 ^ 64\<close> calculation by simp
    ultimately show ?thesis
      using True by (simp add: data_offset_loop.simps [of i] Let_def tree_sum_rec [of ?i])
  qed (simp add: data_offset_loop.simps [of i] tree_sum.simps [of 0])
qed

lemma data_offset_by_sectorid:
  assumes "i < 2 ^ 32"
  shows "psync_fs_crypto_data_offset_by_sectorid i = 4096 * tree_sum i"
proof -
  have "tree_sum i < 2 ^ 33" using tree_sum_le [of i] assms by simp
  then have lt: "4096 * i + 4096 * tree_sum (i div 128) < 2 ^ 64" by (simp add: tree_sum_rec [of i])
  then have "uint64 (i * 4096) = 4096 * i" by (simp add: fits)
  with data_offset_loop_sum [OF assms lt] show ?thesis
    by (simp add: psync_fs_crypto_data_offset_by_sectorid_def tree_sum_rec [of i])
qed

text \<open>The record of offsets of a file with \<open>n\<close> bytes, the last of them the \<open>r\<close>-th byte of sector \<open>s\<close>.\<close>

definition auth_offs :: "nat \<Rightarrow> nat \<Rightarrow> nat \<Rightarrow> nat list" where
  "auth_offs base s h = map (tail_off base s) [0..<h]"

definition auth_lens :: "nat \<Rightarrow> nat \<Rightarrow> nat list" where
  "auth_lens s h = map (last_len s) [0..<h]"

definition layout :: "nat \<Rightarrow> nat \<Rightarrow> nat \<Rightarrow> psync_crypto_offsets_t" where
  "layout n s base =
     (let h = tree_height s
      in \<lparr>masterauthoff = tail_off base s h, plainsize = n,
          lastauthsectoroff = auth_offs base s (Suc h) @ replicate (5 - h) 0,
          lastauthsectorlen = auth_lens s h @ 32 # replicate (5 - h) 0,
          treelevels = h, needmasterauth = 4096 < n\<rparr>)"

lemma auth_offs_Suc: "auth_offs base s (Suc k) = auth_offs base s k @ [tail_off base s k]"
  by (simp add: auth_offs_def)

lemma auth_lens_Suc: "auth_lens s (Suc k) = auth_lens s k @ [last_len s k]"
  by (simp add: auth_lens_def)

lemma length_auth_lists [simp]: "length (auth_offs base s k) = k" "length (auth_lens s k) = k"
  by (simp_all add: auth_offs_def auth_lens_def)

lemma replicate_update: "k < m \<Longrightarrow> length xs = k \<Longrightarrow> (xs @ replicate (m - k) 0)[k := v] = xs @ v # replicate (m - Suc k) 0"
  by (cases "m - k") (auto simp: list_update_append)

lemma sector_count:
  "(if (q + 1) mod 128 = 0 then 128 else (q + 1) mod 128) = q mod 128 + 1" for q :: nat
  by (auto simp: mod_Suc)

lemma set_lastauthsector_extend:
  assumes "level \<le> 5" and "len \<le> 4096"
    and "lastauthsectoroff offsets = auth_offs base s level @ replicate (6 - level) 0"
    and "lastauthsectorlen offsets = auth_lens s level @ replicate (6 - level) 0"
  shows "set_lastauthsector offsets level off len =
    Inr (offsets\<lparr>lastauthsectoroff := auth_offs base s level @ off # replicate (5 - level) 0,
                 lastauthsectorlen := auth_lens s level @ len # replicate (5 - level) 0\<rparr>)"
  using assms by (simp add: set_lastauthsector_def replicate_update fits)

lemma node_le: "node s k \<le> s"
  by (simp add: node_def)

lemma plainsize_step:
  assumes "s < 2 ^ 32" and "level \<le> 4" and "tail_off base s (Suc level) < 2 ^ 64"
    and "lastauthsectoroff offsets = auth_offs base s level @ replicate (6 - level) 0"
    and "lastauthsectorlen offsets = auth_lens s level @ replicate (6 - level) 0"
  shows "plainsize_levels (node s level + 1) (tail_off base s level) level offsets =
    (let offsets1 = offsets\<lparr>lastauthsectoroff := auth_offs base s (Suc level) @ replicate (5 - level) 0,
                            lastauthsectorlen := auth_lens s (Suc level) @ replicate (5 - level) 0\<rparr>
     in if 0 < node s (Suc level)
        then plainsize_levels (node s (Suc level) + 1) (tail_off base s (Suc level)) (Suc level) offsets1
        else Inr (offsets1\<lparr>lastauthsectoroff := auth_offs base s (Suc (Suc level)) @ replicate (4 - level) 0,
               lastauthsectorlen := auth_lens s (Suc level) @ 32 # replicate (4 - level) 0,
               masterauthoff := tail_off base s (Suc level), treelevels := Suc level\<rparr>))"
proof -
  let ?q = "node s level"
  have "?q < 2 ^ 32" using node_le [of s level] assms(1) by linarith
  then have sz: "uint32 ((?q + 1) mod 128) = (?q + 1) mod 128" "uint64 (?q + 1 + 128 - 1) div 128 = node s (Suc level) + 1"
    by (simp_all add: fits uint32_def node_Suc)
  have len: "uint32 ((if (?q + 1) mod 128 = 0 then 128 else (?q + 1) mod 128) * 32) = last_len s level"
    unfolding sector_count using last_len_bounds(2) [of s level] by (simp add: last_len_def fits mult.commute)
  have off: "uint64 (tail_off base s level + last_len s level) = tail_off base s (Suc level)"
    using assms(3) by (simp add: tail_off_Suc fits)
  have lev: "uint32 (level + 1) = Suc level" using assms(2) by (simp add: fits)
  have st1: "set_lastauthsector offsets level (tail_off base s level) (last_len s level) =
    Inr (offsets\<lparr>lastauthsectoroff := auth_offs base s (Suc level) @ replicate (5 - level) 0,
                 lastauthsectorlen := auth_lens s (Suc level) @ replicate (5 - level) 0\<rparr>)"
    using set_lastauthsector_extend [OF _ last_len_bounds(2) assms(4,5)] assms(2) by (simp add: auth_offs_Suc auth_lens_Suc)
  have st2: "set_lastauthsector (offsets\<lparr>lastauthsectoroff := auth_offs base s (Suc level) @ replicate (5 - level) 0,
                 lastauthsectorlen := auth_lens s (Suc level) @ replicate (5 - level) 0\<rparr>) (Suc level) (tail_off base s (Suc level)) 32 =
    Inr (offsets\<lparr>lastauthsectoroff := auth_offs base s (Suc (Suc level)) @ replicate (4 - level) 0,
                 lastauthsectorlen := auth_lens s (Suc level) @ 32 # replicate (4 - level) 0\<rparr>)"
    by (subst set_lastauthsector_extend [where base = base and s = s]) (use assms(2) in \<open>auto simp: auth_offs_Suc [of _ _ "Suc level"]\<close>)
  show ?thesis
    apply (subst plainsize_levels.simps)
    apply (simp only: PSYNC_CRYPTO_HASH_TREE_SECTORS_def PSYNC_CRYPTO_AUTH_SIZE_def Let_def sz len off lev st1 st2 sum.case)
    apply simp
    done
qed

lemma plainsize_levels_layout:
  assumes "s < 2 ^ 32" and "h = tree_height s" and "h \<le> 5" and "tail_off base s h < 2 ^ 64" and "level < h"
    and "lastauthsectoroff offsets = auth_offs base s level @ replicate (6 - level) 0"
    and "lastauthsectorlen offsets = auth_lens s level @ replicate (6 - level) 0"
  shows "plainsize_levels (node s level + 1) (tail_off base s level) level offsets =
    Inr (offsets\<lparr>lastauthsectoroff := auth_offs base s (Suc h) @ replicate (5 - h) 0,
                 lastauthsectorlen := auth_lens s h @ 32 # replicate (5 - h) 0,
                 masterauthoff := tail_off base s h, treelevels := h\<rparr>)"
  using assms(5-7)
proof (induction "h - level" arbitrary: level offsets)
  case (Suc d)
  have "tail_off base s (Suc level) < 2 ^ 64"
    using tail_off_mono [of "Suc level" h base s] Suc.prems(1) assms(4) by linarith
  note step = plainsize_step [OF assms(1) _ this Suc.prems(2,3)]
  show ?case
  proof (cases "Suc level < h")
    case True
    have "0 < node s (Suc level)" using node_below_height True assms(2) by blast
    with step Suc.hyps(1) [of "Suc level"] Suc.hyps(2) True assms(3) show ?thesis by (simp add: Let_def)
  next
    case False
    with Suc.prems(1) have h: "h = Suc level" by simp
    with assms(2) have "node s (Suc level) = 0" using node_tree_height [of s] by simp
    with step h assms(3) show ?thesis by (simp add: Let_def)
  qed
qed simp

text \<open>A size, the number of its last sector and the length of that sector.\<close>

definition last_sector :: "nat \<Rightarrow> nat" where "last_sector n = (n - 1) div 4096"

definition data_end :: "nat \<Rightarrow> nat" where
  "data_end n = 4096 * tree_sum (last_sector n) + (n - 4096 * last_sector n)"

lemma last_sector_bounds:
  assumes "0 < n"
  shows "4096 * last_sector n < n" "n \<le> 4096 * (last_sector n + 1)"
  using assms by (simp_all add: last_sector_def)

lemma last_sector_less: "0 < n \<Longrightarrow> n \<le> 2 ^ 44 \<Longrightarrow> last_sector n < 2 ^ 32"
  by (simp add: last_sector_def less_mult_imp_div_less)

lemma tree_height_le5: "0 < n \<Longrightarrow> n \<le> 2 ^ 44 \<Longrightarrow> tree_height (last_sector n) \<le> 5"
  using last_sector_less [of n] by (intro tree_height_le) simp_all

lemma tail_off_data_end: "0 < n \<Longrightarrow> tail_off (data_end n) (last_sector n) (tree_height (last_sector n)) = n + auth_total (last_sector n) (tree_height (last_sector n))"
  using auth_total_tail [of "last_sector n" "n - 4096 * last_sector n"] last_sector_bounds(1) [of n]
  by (simp add: data_end_def)

lemma data_end_less:
  assumes "0 < n" and "n \<le> 2 ^ 44"
  shows "data_end n < 2 ^ 46"
proof -
  have "tree_sum (last_sector n) \<le> 2 * last_sector n" by (rule tree_sum_le)
  with last_sector_bounds [OF assms(1)] last_sector_less [OF assms] show ?thesis by (simp add: data_end_def)
qed

lemma tail_off_less:
  assumes "0 < n" and "n \<le> 2 ^ 44" and "k \<le> 6"
  shows "tail_off (data_end n) (last_sector n) k < 2 ^ 47"
  using tail_off_le [of "data_end n" "last_sector n" k] data_end_less [OF assms(1,2)] assms(3) by simp

lemma offsets_by_plainsize_layout:
  assumes "0 < n" and "n \<le> 2 ^ 44"
  shows "psync_fs_crypto_offsets_by_plainsize n = Inr (layout n (last_sector n) (data_end n))"
proof -
  let ?s = "last_sector n" and ?r = "n - 4096 * last_sector n"
  have lt: "?s < 2 ^ 32" by (rule last_sector_less [OF assms])
  have last: "(if uint32 (n mod 4096) = 0 then (sub32 (uint32 (n div 4096)) 1, 4096)
      else (uint32 (n div 4096), uint32 (n mod 4096))) = (?s, ?r)"
  proof (cases "n mod 4096 = 0")
    case True
    then obtain k where k: "n = 4096 * k" by (auto simp: mod_eq_0_iff_dvd)
    with assms have "0 < k" "k \<le> 2 ^ 32" by simp_all
    then have "last_sector n = k - 1" by (simp add: last_sector_def k div_nat_eqI)
    moreover have "sub32 (uint32 k) 1 = k - 1"
      using \<open>0 < k\<close> \<open>k \<le> 2 ^ 32\<close> by (cases "k = 2 ^ 32") (simp_all add: sub32_def uint32_def le_mod_geq)
    ultimately show ?thesis using k \<open>0 < k\<close> by (simp add: uint32_def algebra_simps)
  next
    case False
    then have "last_sector n = n div 4096" unfolding last_sector_def
      using assms(1) by (metis One_nat_def Suc_pred div_Suc)
    moreover have "n mod 4096 < 4096" by simp
    then have "uint32 (n mod 4096) = n mod 4096" by (intro uint32_id) linarith
    ultimately show ?thesis using False lt by (simp add: fits minus_mult_div_eq_mod)
  qed
  have off: "uint64 (psync_fs_crypto_data_offset_by_sectorid ?s + ?r) = tail_off (data_end n) ?s 0"
    using data_end_less [OF assms] data_offset_by_sectorid [OF lt] by (simp add: fits tail_off_def data_end_def)
  have cnt: "uint64 (n + 4096 - 1) div 4096 = node ?s 0 + 1"
    using assms by (simp add: fits last_sector_def)
  have "tail_off (data_end n) ?s (tree_height ?s) < 2 ^ 64"
    using tail_off_less [OF assms, of "tree_height ?s"] tree_height_le5 [OF assms] by simp
  note lev = plainsize_levels_layout [OF lt refl tree_height_le5 [OF assms] this tree_height_pos, unfolded node_simps]
  show ?thesis
    using assms(1) unfolding psync_fs_crypto_offsets_by_plainsize_def Let_def
    by (simp only: PSYNC_CRYPTO_SECTOR_SIZE_def last off cnt split)
       (simp add: lev no_offsets_def layout_def auth_offs_def auth_lens_def Let_def del: One_nat_def)
qed

subsection \<open>The layout computed from the size of the encrypted file\<close>

lemma ceiling_div:
  fixes q x m :: nat
  assumes "q * m < x" and "x \<le> (q + 1) * m"
  shows "(x + m - 1) div m = q + 1"
proof (rule div_nat_eqI)
  show "m * (q + 1) \<le> x + m - 1" using assms(1) by (simp add: algebra_simps)
  show "x + m - 1 < m * Suc (q + 1)" using assms by (cases m) (auto simp: algebra_simps)
qed

lemma level_size_le: "l \<le> 6 \<Longrightarrow> level_size l \<le> 0x40810204081000"
  using lift_Suc_mono_le [of level_size l 6] by simp

lemma auth_total_mono: "k \<le> l \<Longrightarrow> auth_total s k \<le> auth_total s l"
  by (auto simp: auth_total_def intro: sum_mono2)

lemma crypto_total_less:
  assumes "0 < n" and "n \<le> 2 ^ 44" and "l \<le> tree_height (last_sector n)"
  shows "n + auth_total (last_sector n) l < 2 ^ 47"
  using auth_total_mono [OF assms(3), of "last_sector n"] tail_off_data_end [OF assms(1)]
    tail_off_less [OF assms(1,2), of "tree_height (last_sector n)"] tree_height_le5 [OF assms(1,2)] by simp

lemma node_count:
  assumes "0 < n" and "n \<le> 2 ^ 44" and "Suc l \<le> tree_height (last_sector n)"
  shows "uint64 (n + auth_total (last_sector n) (Suc l) + max_level_size ! l + 32 - 1) div (max_level_size ! l + 32) =
    node (last_sector n) l + 1"
proof -
  let ?s = "last_sector n" and ?x = "n + auth_total (last_sector n) (Suc l)"
  have l: "l \<le> 4" using assms(3) tree_height_le5 [OF assms(1,2)] by simp
  then have "level_size l \<le> 0x40810204081000" by (intro level_size_le) simp
  then have "?x + (level_size l + 32) - 1 < 2 ^ 64" using crypto_total_less [OF assms] by simp
  moreover have "node ?s l * (level_size l + 32) < ?x \<and> ?x \<le> (node ?s l + 1) * (level_size l + 32)"
    using level_size_bounds [OF last_sector_bounds [OF assms(1)], of l] by (simp add: auth_total_def algebra_simps)
  then have "(?x + (level_size l + 32) - 1) div (level_size l + 32) = node ?s l + 1"
    by (intro ceiling_div) simp_all
  moreover have "max_level_size ! l = level_size l" using l by (intro max_level_size_nth) simp
  ultimately show ?thesis by (simp add: fits add.assoc)
qed

lemma replicate_last_update: "(replicate (Suc l) x @ ys)[l := v] = replicate l x @ v # ys"
  by (induction l) auto

lemma cryptosize_step:
  assumes "0 < n" and "n \<le> 2 ^ 44" and "Suc l \<le> tree_height (last_sector n)"
    and "lastauthsectoroff offsets = replicate (Suc l) 0 @ ys"
    and "lastauthsectorlen offsets = replicate (Suc l) 0 @ zs"
    and "tail_off base (last_sector n) (Suc l) < 2 ^ 64"
  shows "cryptosize_levels (n + auth_total (last_sector n) (Suc l)) (tail_off base (last_sector n) (Suc l)) (Suc l) offsets =
    cryptosize_levels (n + auth_total (last_sector n) l) (tail_off base (last_sector n) l) l
      (offsets\<lparr>lastauthsectoroff := replicate l 0 @ tail_off base (last_sector n) l # ys,
               lastauthsectorlen := replicate l 0 @ last_len (last_sector n) l # zs\<rparr>)"
proof -
  let ?s = "last_sector n" and ?q = "node (last_sector n) l"
  have q: "?q < 2 ^ 32" using node_le [of ?s l] last_sector_less [OF assms(1,2)] by linarith
  have size1: "sub64 (n + auth_total ?s (Suc l)) (uint64 ((?q + 1) * 32)) = n + auth_total ?s l"
    using crypto_total_less [OF assms(1-3)] q by (simp add: auth_total_def fits algebra_simps)
  have len: "uint64 ((if (?q + 1) mod 128 = 0 then 128 else (?q + 1) mod 128) * 32) = last_len ?s l"
    unfolding sector_count using last_len_bounds(2) [of ?s l] by (simp add: last_len_def fits mult.commute)
  have off: "sub64 (tail_off base ?s (Suc l)) (last_len ?s l) = tail_off base ?s l"
    using assms(6) by (simp add: tail_off_Suc fits)
  have "l \<le> 4" using assms(3) tree_height_le5 [OF assms(1,2)] by simp
  then have st: "set_lastauthsector offsets l (tail_off base ?s l) (last_len ?s l) =
    Inr (offsets\<lparr>lastauthsectoroff := replicate l 0 @ tail_off base ?s l # ys,
                lastauthsectorlen := replicate l 0 @ last_len ?s l # zs\<rparr>)"
    using assms(4,5) last_len_bounds(2) [of ?s l]
    by (simp add: set_lastauthsector_def replicate_last_update fits del: replicate.simps)
  show ?thesis
    by (simp only: cryptosize_levels.simps PSYNC_CRYPTO_HASH_TREE_SECTORS_def PSYNC_CRYPTO_AUTH_SIZE_def Let_def
          node_count [OF assms(1-3)] size1 len off st sum.case)
qed

lemma cryptosize_levels_layout:
  assumes "0 < n" and "n \<le> 2 ^ 44" and "l \<le> tree_height (last_sector n)"
    and "lastauthsectoroff offsets = replicate l 0 @ ys" and "lastauthsectorlen offsets = replicate l 0 @ zs"
  shows "cryptosize_levels (n + auth_total (last_sector n) l) (tail_off (data_end n) (last_sector n) l) l offsets =
    Inr (offsets\<lparr>lastauthsectoroff := auth_offs (data_end n) (last_sector n) l @ ys,
                 lastauthsectorlen := auth_lens (last_sector n) l @ zs, plainsize := n\<rparr>)"
  using assms(3-5)
proof (induction l arbitrary: offsets ys zs)
  case 0
  then show ?case by (simp add: auth_total_def auth_offs_def auth_lens_def)
next
  case (Suc l)
  have "Suc l \<le> 6" using Suc.prems(1) tree_height_le5 [OF assms(1,2)] by simp
  then have "tail_off (data_end n) (last_sector n) (Suc l) < 2 ^ 64"
    using tail_off_less [OF assms(1,2), of "Suc l"] by simp
  with Suc show ?case
    by (subst cryptosize_step [OF assms(1,2) Suc.prems]) (simp_all add: auth_offs_Suc auth_lens_Suc)
qed

lemma level_by_size_height:
  assumes "0 < n" and "n \<le> 2 ^ 44" and "h = tree_height (last_sector n)" and "1 \<le> k" and "k \<le> h"
  shows "level_by_size (n + auth_total (last_sector n) h) k = h"
  using assms(4,5)
proof (induction "h - k" arbitrary: k)
  case 0
  let ?s = "last_sector n"
  have "k = h" "h \<le> 5" using 0 tree_height_le5 [OF assms(1,2)] assms(3) by simp_all
  moreover have "n + auth_total ?s h \<le> level_size h"
    using level_size_bounds [OF last_sector_bounds [OF assms(1)], of h] node_tree_height [of ?s] assms(3) by simp
  ultimately show ?case by (subst level_by_size.simps) (simp add: max_level_size_nth)
next
  case (Suc d)
  let ?s = "last_sector n"
  have k: "k < h" "h \<le> 5" using Suc tree_height_le5 [OF assms(1,2)] assms(3) by simp_all
  then have "1 \<le> node ?s k" using node_below_height [of k ?s] Suc.prems(1) assms(3) by simp
  then have "1 * level_size k \<le> node ?s k * level_size k" by (intro mult_le_mono1)
  moreover have "node ?s k * level_size k < n + auth_total ?s k"
    using level_size_bounds [OF last_sector_bounds [OF assms(1)], of k] by simp
  moreover have "auth_total ?s k \<le> auth_total ?s h" using k by (intro auth_total_mono) simp
  ultimately have "level_size k < n + auth_total ?s h" by linarith
  then have "level_by_size (n + auth_total ?s h) k = level_by_size (n + auth_total ?s h) (k + 1)"
    using k by (subst level_by_size.simps) (simp add: max_level_size_nth)
  with Suc.hyps(1) [of "k + 1"] Suc.hyps(2) k show ?case by simp
qed

lemma auth_total_small:
  assumes "0 < n"
  shows "4096 < n \<longleftrightarrow> 4096 + 32 < n + auth_total (last_sector n) (tree_height (last_sector n)) + (if 4096 < n then 32 else 0)"
proof (cases "4096 < n")
  case True
  have "auth_total (last_sector n) 1 \<le> auth_total (last_sector n) (tree_height (last_sector n))"
    by (intro auth_total_mono) (simp add: Suc_le_eq)
  with True show ?thesis by (simp add: auth_total_def)
next
  case False
  then have "last_sector n = 0" by (simp add: last_sector_def)
  with False show ?thesis by (simp add: tree_height.simps [of 0] auth_total_def)
qed

lemma offsets_by_cryptosize_layout:
  assumes "0 < n" and "n \<le> 2 ^ 44"
  shows "psync_fs_crypto_offsets_by_cryptosize (crypto_end (layout n (last_sector n) (data_end n))) =
    Inr (layout n (last_sector n) (data_end n))"
proof -
  let ?s = "last_sector n" and ?h = "tree_height (last_sector n)" and ?b = "data_end n"
  let ?x = "n + auth_total ?s ?h" and ?m = "if 4096 < n then 32 else (0 :: nat)"
  have x: "?x < 2 ^ 47" by (rule crypto_total_less [OF assms order_refl])
  have h: "?h \<le> 5" by (rule tree_height_le5 [OF assms])
  have fin: "crypto_end (layout n ?s ?b) = ?x + ?m"
    using x tail_off_data_end [OF assms(1)] by (simp add: crypto_end_def layout_def Let_def fits)
  have "auth_total ?s 1 \<le> auth_total ?s ?h" by (intro auth_total_mono) (simp add: Suc_le_eq)
  then have nz: "\<not> ?x + ?m \<le> 32" using assms(1) by (simp add: auth_total_def)
  have need: "(4096 + 32 < ?x + ?m) = (4096 < n)" using auth_total_small [OF assms(1)] by simp
  have size1: "(if 4096 < n then sub64 (?x + ?m) 32 else ?x + ?m) = ?x" using x by (simp add: fits)
  have st: "set_lastauthsector (no_offsets\<lparr>needmasterauth := 4096 < n, masterauthoff := ?x, treelevels := ?h\<rparr>) ?h ?x 32 =
    Inr (no_offsets\<lparr>needmasterauth := 4096 < n, masterauthoff := ?x, treelevels := ?h,
      lastauthsectoroff := replicate ?h 0 @ ?x # replicate (5 - ?h) 0,
      lastauthsectorlen := replicate ?h 0 @ 32 # replicate (5 - ?h) 0\<rparr>)"
    using h replicate_update [of ?h 6 "replicate ?h (0 :: nat)"]
    by (simp add: set_lastauthsector_def no_offsets_def fits replicate_add [symmetric])
  have lev: "level_by_size ?x 1 = ?h" by (rule level_by_size_height [OF assms refl]) (simp_all add: Suc_le_eq)
  note run = cryptosize_levels_layout [OF assms order_refl, unfolded tail_off_data_end [OF assms(1)]]
  show ?thesis
    unfolding fin psync_fs_crypto_offsets_by_cryptosize_def
    by (simp only: PSYNC_CRYPTO_SECTOR_SIZE_def PSYNC_CRYPTO_AUTH_SIZE_def PSYNC_CRYPTO_MAX_HASH_TREE_LEVEL_def
          nz need size1 Let_def lev st if_False sum.case)
       (use h in \<open>simp add: run layout_def no_offsets_def auth_offs_Suc tail_off_data_end [OF assms(1)] Let_def\<close>)
qed

subsection \<open>The extents of the sectors\<close>

lemma tree_sum_gap:
  "128 ^ t dvd i + 1 \<Longrightarrow> tree_sum i + t + 1 \<le> tree_sum (i + 1)"
proof (induction t arbitrary: i)
  case 0
  have "tree_sum (i div 128) \<le> tree_sum ((i + 1) div 128)" by (intro tree_sum_mono div_le_mono) simp
  then show ?case using tree_sum_rec [of i] tree_sum_rec [of "i + 1"] by linarith
next
  case (Suc t)
  then obtain m where m: "i + 1 = 128 * (128 ^ t * m)" by (auto simp: mult.assoc)
  then have "0 < 128 ^ t * m" by (cases "128 ^ t * m = 0") auto
  with m have d: "i div 128 + 1 = 128 ^ t * m" "(i + 1) div 128 = 128 ^ t * m"
    by (simp_all add: div_Suc mod_Suc)
  then have "tree_sum (i div 128) + t + 1 \<le> tree_sum ((i + 1) div 128)" using Suc.IH [of "i div 128"] by simp
  then show ?case using tree_sum_rec [of i] tree_sum_rec [of "i + 1"] by linarith
qed

lemma tree_sum_block:
  "4096 * (tree_sum (128 ^ m * (j + 1) - 1) + m) + 4096 = level_size m * (j + 1) + 4096 * tree_sum (j div 128)"
proof (induction m)
  case 0
  show ?case by (simp add: tree_sum_rec [of j])
next
  case (Suc m)
  have pos: "0 < 128 ^ m * (j + 1)" by simp
  then have "(128 ^ Suc m * (j + 1) - 1) div 128 = 128 ^ m * (j + 1) - 1"
    by (intro div_nat_eqI) (simp_all add: algebra_simps)
  then have "tree_sum (128 ^ Suc m * (j + 1) - 1) = 128 ^ Suc m * (j + 1) - 1 + tree_sum (128 ^ m * (j + 1) - 1)"
    by (metis tree_sum_rec)
  moreover have "level_size (Suc m) * (j + 1) = level_size m * (j + 1) + 4096 * (128 ^ Suc m * (j + 1))"
    by (simp only: level_size_power) (simp add: algebra_simps)
  moreover have "1 \<le> 128 ^ Suc m * (j + 1)" unfolding One_nat_def Suc_le_eq by (rule mult_pos_pos) simp_all
  ultimately show ?case using Suc by (simp del: power_Suc level_size.simps)
qed

lemma auth_offset_loop_sum:
  "j < 2 ^ 27 \<Longrightarrow> ret + 4096 * tree_sum (j div 128) < 2 ^ 64 \<Longrightarrow>
   auth_offset_loop j ret = ret + 4096 * tree_sum (j div 128)"
proof (induction j ret rule: auth_offset_loop.induct)
  case (1 j ret)
  show ?case
  proof (cases "128 \<le> j")
    case True
    let ?j = "j div 128"
    have lt: "ret + 4096 * ?j + 4096 * tree_sum (?j div 128) < 2 ^ 64"
      using 1(3) by (simp add: tree_sum_rec [of ?j])
    have "?j < 2 ^ 20" using 1(2) by (simp add: less_mult_imp_div_less)
    with lt have "uint64 (ret + uint32 (?j * 4096)) = ret + 4096 * ?j" by (simp add: fits)
    moreover have "auth_offset_loop ?j (ret + 4096 * ?j) = ret + 4096 * ?j + 4096 * tree_sum (?j div 128)"
      using 1(1) [OF _ refl] True 1(2) lt calculation by simp
    ultimately show ?thesis
      using True by (simp add: auth_offset_loop.simps [of j] Let_def tree_sum_rec [of ?j])
  qed (simp add: auth_offset_loop.simps [of j] tree_sum.simps [of 0])
qed

lemma auth_offset_block:
  assumes "s < 2 ^ 32" and "l \<le> 4" and "128 ^ Suc l * (j + 1) \<le> s"
  shows "psync_fs_crypto_auth_offset l j = Inr (4096 * (tree_sum (128 ^ Suc l * (j + 1) - 1) + Suc l))"
proof -
  let ?t = "tree_sum (128 ^ Suc l * (j + 1) - 1)"
  have "128 * 1 \<le> 128 * (128 :: nat) ^ l" by (intro mult_le_mono2) simp
  then have "128 * (j + 1) \<le> 128 ^ Suc l * (j + 1)" by (intro mult_le_mono1) simp
  then have j: "j < 2 ^ 25" using assms(1,3) by simp
  have small: "i \<le> s \<Longrightarrow> t \<le> 2 * (i - 1) \<Longrightarrow> t < 2 ^ 33" for i t using assms(1) by simp
  have t: "?t < 2 ^ 33" by (rule small [OF assms(3) tree_sum_le])
  have eq: "4096 * (?t + Suc l) + 4096 = level_size (Suc l) * (j + 1) + 4096 * tree_sum (j div 128)"
    by (rule tree_sum_block)
  have "level_size (Suc l) * 1 \<le> level_size (Suc l) * (j + 1)" by (intro mult_le_mono2) simp
  then have ge: "4096 \<le> level_size (Suc l) * (j + 1)" by simp
  have lt: "level_size (Suc l) * (j + 1) + 4096 * tree_sum (j div 128) < 2 ^ 64"
    unfolding eq [symmetric] using t assms(2) by simp
  then have "sub64 (uint64 (max_level_size ! (l + 1) * uint32 (j + 1))) 4096 = level_size (Suc l) * (j + 1) - 4096"
    using ge j assms(2) max_level_size_nth [of "Suc l"] by (simp add: fits del: level_size.simps mult_Suc_right)
  moreover have "auth_offset_loop j (level_size (Suc l) * (j + 1) - 4096) =
      level_size (Suc l) * (j + 1) - 4096 + 4096 * tree_sum (j div 128)"
    by (rule auth_offset_loop_sum) (use j in simp, use lt in linarith)
  moreover have "level_size (Suc l) * (j + 1) - 4096 + 4096 * tree_sum (j div 128) = 4096 * (?t + Suc l)"
    using eq ge by linarith
  ultimately show ?thesis
    using assms(2) by (simp only: psync_fs_crypto_auth_offset_def PSYNC_CRYPTO_SECTOR_SIZE_def) (simp add: max_level_size_def)
qed

lemma auth_walk_node:
  "auth_walk l a aid (node i 1) = (a div 128 ^ l, node i l mod 128 * (if l = 0 then 0 else 1) + (if l = 0 then aid else 0), node i (Suc l))"
proof (induction l arbitrary: a aid i)
  case (Suc l)
  have "auth_walk (Suc l) a aid (node i 1) = auth_walk l (a div 128) (node i 1 mod 128) (node (i div 128) 1)"
    by (simp add: node_Suc)
  with Suc [of "a div 128" "node i 1 mod 128" "i div 128"] show ?case
    by (auto simp: div_mult2_eq [symmetric] node_Suc)
qed simp

text \<open>
  A slot of a file is a data sector \<open>k\<close> (then \<open>t = 0\<close>) or the sector of level \<open>t - 1\<close> of the tree whose last
  data sector is \<open>k\<close>.  The file holds its slots in the lexicographic order of \<open>(k, t)\<close>.
\<close>

fun slot_start :: "nat \<Rightarrow> nat \<times> nat \<Rightarrow> nat" where
  "slot_start n (k, t) =
     (if k = last_sector n
      then (case t of 0 \<Rightarrow> 4096 * tree_sum k | Suc l \<Rightarrow> tail_off (data_end n) k l)
      else 4096 * (tree_sum k + t))"

fun slot_len :: "nat \<Rightarrow> nat \<times> nat \<Rightarrow> nat" where
  "slot_len n (k, t) =
     (if k = last_sector n
      then (case t of 0 \<Rightarrow> n - 4096 * k | Suc l \<Rightarrow> if l < tree_height k then last_len k l else 32)
      else 4096)"

fun slot_valid :: "nat \<Rightarrow> nat \<times> nat \<Rightarrow> bool" where
  "slot_valid n (k, t) \<longleftrightarrow> k \<le> last_sector n \<and> (k < last_sector n \<longrightarrow> 128 ^ t dvd k + 1) \<and>
     (t \<le> tree_height (last_sector n) \<or> t = Suc (tree_height (last_sector n)) \<and> 4096 < n)"

lemma slot_end_before:
  assumes "slot_valid n (k, t)" and "k < k'" and "k' \<le> last_sector n"
  shows "slot_start n (k, t) + slot_len n (k, t) \<le> 4096 * tree_sum k'"
proof -
  have "tree_sum k + t + 1 \<le> tree_sum (k + 1)" using assms by (intro tree_sum_gap) simp
  also have "tree_sum (k + 1) \<le> tree_sum k'" using assms by (intro tree_sum_mono) simp
  finally show ?thesis using assms by simp
qed

lemma slot_start_ge: "4096 * tree_sum k \<le> slot_start n (k, t)"
  by (auto simp: tail_off_def data_end_def split: nat.splits)

lemma tail_slot_end:
  assumes "t < t'" and "t' \<le> Suc (tree_height (last_sector n))"
  shows "slot_start n (last_sector n, t) + slot_len n (last_sector n, t) \<le> slot_start n (last_sector n, t')"
proof (cases t)
  case 0
  with assms(1) tail_off_mono [of 0 "t' - 1" "data_end n"] show ?thesis
    by (cases t') (auto simp: tail_off_def data_end_def)
next
  case (Suc l)
  with assms have "l < tree_height (last_sector n)" "Suc l \<le> t' - 1" by simp_all
  with Suc assms(1) tail_off_mono [of "Suc l" "t' - 1" "data_end n" "last_sector n"] show ?thesis
    by (cases t') (auto simp: tail_off_Suc)
qed

lemma slots_ordered:
  assumes "slot_valid n (k, t)" and "slot_valid n (k', t')" and "k < k' \<or> k = k' \<and> t < t'"
  shows "slot_start n (k, t) + slot_len n (k, t) \<le> slot_start n (k', t')"
proof (cases "k < k'")
  case True
  with assms(1,2) slot_end_before [of n k t k'] slot_start_ge [of k' n t'] show ?thesis by simp
next
  case False
  with assms(3) have k: "k' = k" "t < t'" by auto
  show ?thesis
  proof (cases "k = last_sector n")
    case True
    with k assms(2) tail_slot_end [of t t' n] show ?thesis by auto
  qed (use k in auto)
qed

lemma slot_end_le:
  assumes "slot_valid n (k, t)" and "0 < n"
  shows "slot_start n (k, t) + slot_len n (k, t) \<le>
    tail_off (data_end n) (last_sector n) (tree_height (last_sector n)) + (if 4096 < n then 32 else 0)"
proof -
  let ?h = "tree_height (last_sector n)"
  have "t = Suc ?h \<and> 4096 < n \<or> t \<le> ?h" using assms(1) by auto
  moreover have "slot_start n (k, t) + slot_len n (k, t) \<le> slot_start n (last_sector n, Suc ?h)" if "k < last_sector n"
    using slot_end_before [OF assms(1) that order_refl] slot_start_ge [of "last_sector n" n "Suc ?h"] by linarith
  moreover have "slot_start n (k, t) + slot_len n (k, t) \<le> slot_start n (last_sector n, Suc ?h)" if "k = last_sector n" "t \<le> ?h"
    using tail_slot_end [of t "Suc ?h" n] that by simp
  moreover have "k = last_sector n \<or> k < last_sector n" using assms(1) by auto
  ultimately show ?thesis by auto
qed

lemma slot_len_pos:
  assumes "slot_valid n (k, t)" and "0 < n"
  shows "0 < slot_len n (k, t)"
  using last_sector_bounds(1) [OF assms(2)] last_len_bounds(1) by (auto split: nat.splits)

subsection \<open>The sectors of a file\<close>

text \<open>
  A sector as the code addresses it: a data sector by its number, a sector of the tree by its level and
  the number of a data sector below it.
\<close>

datatype sector = Data_sector nat | Auth_sector nat nat

fun sector_extent :: "psync_crypto_offsets_t \<Rightarrow> sector \<Rightarrow> (nat \<times> nat) option" where
  "sector_extent offsets (Data_sector i) = data_sector offsets i"
| "sector_extent offsets (Auth_sector level i) =
     (case psync_fs_crypto_get_auth_sector_off i level offsets of
        Inl e \<Rightarrow> None | Inr (off, len, authid) \<Rightarrow> Some (off, len))"

fun in_file :: "psync_crypto_offsets_t \<Rightarrow> sector \<Rightarrow> bool" where
  "in_file offsets (Data_sector i) \<longleftrightarrow> 4096 * i < plainsize offsets"
| "in_file offsets (Auth_sector level i) \<longleftrightarrow> 4096 * i < plainsize offsets \<and>
     (level < treelevels offsets \<or> level = treelevels offsets \<and> needmasterauth offsets)"

fun same_sector :: "sector \<Rightarrow> sector \<Rightarrow> bool" where
  "same_sector (Data_sector i) (Data_sector j) \<longleftrightarrow> i = j"
| "same_sector (Auth_sector l i) (Auth_sector m j) \<longleftrightarrow> l = m \<and> i div 128 ^ (l + 1) = j div 128 ^ (m + 1)"
| "same_sector _ _ \<longleftrightarrow> False"

definition block_end :: "nat \<Rightarrow> nat \<Rightarrow> nat \<Rightarrow> nat" where
  "block_end n l i = (if node i (Suc l) = node (last_sector n) (Suc l) then last_sector n
     else 128 ^ Suc l * (node i (Suc l) + 1) - 1)"

fun sector_slot :: "nat \<Rightarrow> sector \<Rightarrow> nat \<times> nat" where
  "sector_slot n (Data_sector i) = (i, 0)"
| "sector_slot n (Auth_sector l i) = (block_end n l i, Suc l)"

lemma block_inside:
  assumes "j < node s k"
  shows "128 ^ k * (j + 1) \<le> s"
proof -
  have "128 ^ k * (j + 1) \<le> 128 ^ k * node s k" using assms by (intro mult_le_mono2) simp
  then show ?thesis by (metis div_mult_mod_eq mult.commute le_add1 node_def order_trans)
qed

lemma node_mono: "i \<le> s \<Longrightarrow> node i k \<le> node s k"
  by (simp add: node_def div_le_mono)

lemma inside_sector: "0 < n \<Longrightarrow> 4096 * i < n \<longleftrightarrow> i \<le> last_sector n"
  by (auto simp: last_sector_def)

lemma block_end_inner:
  assumes "i \<le> last_sector n" and "node i (Suc l) \<noteq> node (last_sector n) (Suc l)"
  shows "block_end n l i + 1 = 128 ^ Suc l * (node i (Suc l) + 1)" and "block_end n l i < last_sector n"
proof -
  have "node i (Suc l) < node (last_sector n) (Suc l)" using assms node_mono [OF assms(1), of "Suc l"] by simp
  then have "128 ^ Suc l * (node i (Suc l) + 1) \<le> last_sector n" by (rule block_inside)
  moreover have "0 < (128 :: nat) ^ Suc l * (node i (Suc l) + 1)" by (rule mult_pos_pos) simp_all
  ultimately show "block_end n l i + 1 = 128 ^ Suc l * (node i (Suc l) + 1)" "block_end n l i < last_sector n"
    using assms(2) unfolding block_end_def by (simp_all only: if_False)
qed

lemma sector_slot_valid:
  assumes "0 < n" and "in_file (layout n (last_sector n) (data_end n)) a"
  shows "slot_valid n (sector_slot n a)"
proof (cases a)
  case (Auth_sector l i)
  with assms have "i \<le> last_sector n" by (simp add: layout_def Let_def inside_sector)
  then have "node i (Suc l) = node (last_sector n) (Suc l) \<or> (128 ^ Suc l dvd block_end n l i + 1 \<and> block_end n l i < last_sector n)"
    using block_end_inner [of i n l] by (metis dvd_triv_left)
  with Auth_sector assms show ?thesis by (auto simp: layout_def Let_def block_end_def)
qed (use assms in \<open>simp add: layout_def Let_def inside_sector\<close>)

lemma sector_slot_eq:
  assumes "in_file (layout n (last_sector n) (data_end n)) a" and "in_file (layout n (last_sector n) (data_end n)) b"
    and "0 < n" and "sector_slot n a = sector_slot n b"
  shows "same_sector a b"
proof (cases a; cases b)
  fix l i m j assume ab: "a = Auth_sector l i" "b = Auth_sector m j"
  with assms have le: "i \<le> last_sector n" "j \<le> last_sector n" and m: "m = l" and eq: "block_end n l i = block_end n l j"
    by (auto simp: layout_def Let_def inside_sector)
  let ?p = "128 ^ Suc l :: nat"
  have last: "block_end n l x = last_sector n" if "node x (Suc l) = node (last_sector n) (Suc l)" for x
    using that by (simp add: block_end_def)
  have "node i (Suc l) = node j (Suc l)"
  proof (cases "node i (Suc l) = node (last_sector n) (Suc l)"; cases "node j (Suc l) = node (last_sector n) (Suc l)")
    assume "node i (Suc l) \<noteq> node (last_sector n) (Suc l)" "node j (Suc l) \<noteq> node (last_sector n) (Suc l)"
    then have "?p * (node i (Suc l) + 1) = ?p * (node j (Suc l) + 1)"
      using block_end_inner(1) [OF le(1)] block_end_inner(1) [OF le(2)] eq by metis
    then show ?thesis by simp
  qed (use block_end_inner(2) [OF le(1), of l] block_end_inner(2) [OF le(2), of l] last [of i] last [of j] eq in auto)
  with ab m show ?thesis by (simp add: node_def)
qed (use assms in auto)

lemma last_sectorid_layout: "0 < n \<Longrightarrow> n \<le> 2 ^ 44 \<Longrightarrow> get_last_sectorid_by_size n = last_sector n"
  using last_sector_less [of n] by (simp add: get_last_sectorid_by_size_def last_sector_def fits)

lemma layout_plainsize [simp]: "plainsize (layout n s base) = n"
  by (simp add: layout_def Let_def)

lemma layout_auth_nth:
  assumes "l \<le> tree_height s"
  shows "lastauthsectoroff (layout n s base) ! l = tail_off base s l"
    and "lastauthsectorlen (layout n s base) ! l = (if l < tree_height s then last_len s l else 32)"
  using assms by (auto simp: layout_def Let_def auth_offs_def auth_lens_def nth_append simp del: upt_Suc)

lemma data_extent:
  assumes "0 < n" and "n \<le> 2 ^ 44" and "i \<le> last_sector n"
  shows "data_sector (layout n (last_sector n) (data_end n)) i = Some (slot_start n (i, 0), slot_len n (i, 0))"
proof -
  have i: "i < 2 ^ 32" "4096 * i < n" using assms last_sector_less [OF assms(1,2)] inside_sector [of n i] by simp_all
  have "4096 * (i + 1) < n" if "i < last_sector n"
    using that inside_sector [of n "i + 1"] assms(1) by simp
  then show ?thesis
    using i assms last_sector_bounds(2) [OF assms(1)]
    by (auto simp: data_sector_def Let_def layout_def fits data_offset_by_sectorid mult.commute)
qed

lemma auth_extent:
  assumes "0 < n" and "n \<le> 2 ^ 44" and "i \<le> last_sector n" and "l \<le> tree_height (last_sector n)"
  shows "\<exists>aid. psync_fs_crypto_get_auth_sector_off i l (layout n (last_sector n) (data_end n)) =
    Inr (slot_start n (block_end n l i, Suc l), slot_len n (block_end n l i, Suc l), aid)"
proof -
  let ?s = "last_sector n"
  obtain aid where walk: "auth_walk l (?s div 128) (i mod 128) (i div 128) = (node ?s (Suc l), aid, node i (Suc l))"
    using auth_walk_node [of l "?s div 128" "i mod 128" i] by (simp add: node_def div_mult2_eq)
  have l: "l \<le> 5" using assms(4) tree_height_le5 [OF assms(1,2)] by simp
  show ?thesis
  proof (cases "node i (Suc l) = node ?s (Suc l)")
    case True
    with walk l assms last_sectorid_layout [OF assms(1,2)] show ?thesis
      by (simp add: psync_fs_crypto_get_auth_sector_off_def Let_def layout_auth_nth block_end_def)
  next
    case False
    then have less: "node i (Suc l) < node ?s (Suc l)" using node_mono [OF assms(3), of "Suc l"] by simp
    then have "\<not> tree_height ?s \<le> Suc l" using node_tree_height [of ?s]
      by (metis node_def div_le_mono2 le_zero_eq not_less_zero one_le_numeral power_increasing zero_less_numeral zero_less_power)
    with l tree_height_le5 [OF assms(1,2)] have "l \<le> 4" by simp
    note off = auth_offset_block [OF last_sector_less [OF assms(1,2)] this block_inside [OF less]]
    from False block_end_inner [OF assms(3) False] have "block_end n l i \<noteq> ?s" "block_end n l i = 128 ^ Suc l * (node i (Suc l) + 1) - 1"
      by (simp_all add: block_end_def)
    with walk off False less last_sectorid_layout [OF assms(1,2)] show ?thesis
      by (simp add: psync_fs_crypto_get_auth_sector_off_def Let_def del: power_Suc)
  qed
qed

lemma sector_extent_slot:
  assumes "0 < n" and "n \<le> 2 ^ 44" and "in_file (layout n (last_sector n) (data_end n)) a"
  shows "sector_extent (layout n (last_sector n) (data_end n)) a = Some (slot_start n (sector_slot n a), slot_len n (sector_slot n a))"
proof (cases a)
  case (Data_sector i)
  with assms have "i \<le> last_sector n" by (simp add: layout_def Let_def inside_sector)
  with data_extent [OF assms(1,2)] Data_sector show ?thesis by simp
next
  case (Auth_sector l i)
  with assms have "i \<le> last_sector n" "l \<le> tree_height (last_sector n)" by (auto simp: layout_def Let_def inside_sector)
  with auth_extent [OF assms(1,2)] obtain aid where
    "psync_fs_crypto_get_auth_sector_off i l (layout n (last_sector n) (data_end n)) =
     Inr (slot_start n (block_end n l i, Suc l), slot_len n (block_end n l i, Suc l), aid)" by blast
  with Auth_sector show ?thesis by (simp del: slot_start.simps slot_len.simps)
qed

lemma crypto_end_layout:
  assumes "0 < n" and "n \<le> 2 ^ 44"
  shows "crypto_end (layout n (last_sector n) (data_end n)) =
    tail_off (data_end n) (last_sector n) (tree_height (last_sector n)) + (if 4096 < n then 32 else 0)"
  using tail_off_less [OF assms, of "tree_height (last_sector n)"] tree_height_le5 [OF assms]
  by (simp add: crypto_end_def layout_def Let_def fits)

lemma slots_disjoint:
  assumes "slot_valid n p" and "slot_valid n q" and "p \<noteq> q"
  shows "slot_start n p + slot_len n p \<le> slot_start n q \<or> slot_start n q + slot_len n q \<le> slot_start n p"
proof (cases p; cases q)
  fix k t k' t' assume pq: "p = (k, t)" "q = (k', t')"
  with assms(3) have "(k < k' \<or> k = k' \<and> t < t') \<or> (k' < k \<or> k' = k \<and> t' < t)" by auto
  with slots_ordered assms(1,2) pq show ?thesis by blast
qed

subsection \<open>Properties\<close>

text \<open>C36: for every size of plain text up to 16 TiB, which is what 32-bit sector numbers can address, the
  layout is computed without leaving an array, the size of the encrypted file is the end of that layout,
  and the layout computed back from the size of the encrypted file is the same record, so that its plain
  size is the original size.\<close>

theorem layout_roundtrip:
  assumes "size0 \<le> 2 ^ 44"
  shows "\<exists>offsets. psync_fs_crypto_offsets_by_plainsize size0 = Inr offsets \<and>
    psync_fs_crypto_crypto_size size0 = Inr (crypto_end offsets) \<and>
    psync_fs_crypto_offsets_by_cryptosize (crypto_end offsets) = Inr offsets \<and>
    psync_fs_crypto_plain_size (crypto_end offsets) = Inr size0"
proof (cases "size0 = 0")
  case True
  then show ?thesis
    by (simp add: psync_fs_crypto_offsets_by_plainsize_def psync_fs_crypto_crypto_size_def crypto_end_def uint64_def
      psync_fs_crypto_offsets_by_cryptosize_def psync_fs_crypto_plain_size_def no_offsets_def Let_def)
next
  case False
  then have "0 < size0" by simp
  then show ?thesis
    using offsets_by_plainsize_layout [OF _ assms] offsets_by_cryptosize_layout [OF _ assms]
    by (simp add: psync_fs_crypto_crypto_size_def psync_fs_crypto_plain_size_def)
qed

theorem layout_roundtrip_witness:
  "psync_fs_crypto_crypto_size 1000000 = Inr 1007936 \<and> psync_fs_crypto_plain_size 1007936 = Inr 1000000"
proof -
  have "psync_fs_crypto_crypto_size 1000000 = Inr 1007936"
    using offsets_by_plainsize_layout [of 1000000] crypto_end_layout [of 1000000]
    by (simp add: psync_fs_crypto_crypto_size_def last_sector_def data_end_def tree_sum.simps [of 244] tree_sum.simps [of "Suc 0"]
      tree_height.simps [of 244] tree_height.simps [of "Suc 0"] tail_off_def last_len_def node_def)
  with layout_roundtrip [of 1000000] show ?thesis by auto
qed

text \<open>C37: in the layout of a file of up to 16 TiB every data sector and every sector of the hash tree, the
  master authentication included, has an extent: it is not empty, it lies inside the encrypted file, and
  the extents of two different sectors do not overlap.\<close>

theorem sectors_disjoint:
  assumes "size0 \<le> 2 ^ 44" and "psync_fs_crypto_offsets_by_plainsize size0 = Inr offsets"
    and "in_file offsets a" and "in_file offsets b"
  shows "\<exists>x xlen y ylen. sector_extent offsets a = Some (x, xlen) \<and> sector_extent offsets b = Some (y, ylen) \<and>
    0 < xlen \<and> x + xlen \<le> crypto_end offsets \<and>
    (same_sector a b \<or> x + xlen \<le> y \<or> y + ylen \<le> x)"
proof (cases "size0 = 0")
  case True
  with assms show ?thesis by (cases a) (auto simp: psync_fs_crypto_offsets_by_plainsize_def no_offsets_def Let_def)
next
  case False
  then have n: "0 < size0" by simp
  with offsets_by_plainsize_layout assms(1,2)
  have o: "offsets = layout size0 (last_sector size0) (data_end size0)" by simp
  note slot = sector_extent_slot [OF n assms(1), folded o] and valid = sector_slot_valid [OF n, folded o]
  obtain k t where a: "sector_slot size0 a = (k, t)" by (cases "sector_slot size0 a")
  have va: "slot_valid size0 (k, t)" using valid [OF assms(3)] a by simp
  have "same_sector a b \<or> sector_slot size0 a \<noteq> sector_slot size0 b"
    using sector_slot_eq [OF assms(3,4) [unfolded o] n] by blast
  with slots_disjoint [OF valid [OF assms(3)] valid [OF assms(4)]] slot [OF assms(3)] slot [OF assms(4)]
    slot_end_le [OF va n] slot_len_pos [OF va n] crypto_end_layout [OF n assms(1), folded o] a
  show ?thesis by (auto simp del: slot_start.simps slot_len.simps slot_valid.simps)
qed

theorem sectors_disjoint_witness:
  "\<exists>offsets x xlen y ylen. psync_fs_crypto_offsets_by_plainsize 1000000 = Inr offsets \<and>
    sector_extent offsets (Data_sector 244) = Some (x, xlen) \<and> sector_extent offsets (Auth_sector 0 244) = Some (y, ylen) \<and>
    0 < xlen \<and> x + xlen \<le> crypto_end offsets \<and> (x + xlen \<le> y \<or> y + ylen \<le> x)"
proof -
  have off: "psync_fs_crypto_offsets_by_plainsize 1000000 = Inr (layout 1000000 (last_sector 1000000) (data_end 1000000))"
    by (rule offsets_by_plainsize_layout) simp_all
  have "in_file (layout 1000000 (last_sector 1000000) (data_end 1000000)) (Data_sector 244)"
    "in_file (layout 1000000 (last_sector 1000000) (data_end 1000000)) (Auth_sector 0 244)"
    by (simp_all add: layout_def Let_def)
  from sectors_disjoint [OF _ off this] off show ?thesis by auto
qed

text \<open>
  The arrays of the record have no entry for a tree of 6 levels, although the loop over the levels and its
  assertion allow one: an encrypted size above the limit of level 5 writes outside of them.
\<close>

lemma cryptosize_level6_out_of_bounds:
  "psync_fs_crypto_offsets_by_cryptosize (2 ^ 48) = Inl Out_of_bounds"
  by (simp add: psync_fs_crypto_offsets_by_cryptosize_def sub64_def uint64_def level_by_size.simps max_level_size_def
    set_lastauthsector_def Let_def)

text \<open>
  The number of a data sector among all sectors of the file is computed with 32 bits and agrees with the
  offset of the sector as long as it fits.
\<close>

lemma data_sectorid_loop_sum:
  "sect + tree_sum (i div 128) < 2 ^ 32 \<Longrightarrow> data_sectorid_loop i sect = sect + tree_sum (i div 128)"
proof (induction i sect rule: data_sectorid_loop.induct)
  case (1 i sect)
  show ?case
  proof (cases "128 \<le> i")
    case True
    have lt: "sect + i div 128 + tree_sum (i div 128 div 128) < 2 ^ 32"
      using 1(2) by (simp add: tree_sum_rec [of "i div 128"])
    then have "uint32 (sect + i div 128) = sect + i div 128" by (simp add: fits)
    with 1(1) True lt show ?thesis
      by (simp add: data_sectorid_loop.simps [of i] tree_sum_rec [of "i div 128"])
  qed (simp add: data_sectorid_loop.simps [of i] tree_sum.simps [of 0])
qed

lemma data_sectorid_offset:
  assumes "tree_sum i < 2 ^ 32"
  shows "psync_fs_crypto_data_offset_by_sectorid i = psync_fs_crypto_data_sectorid_by_sectorid i * 4096"
proof -
  have "i < 2 ^ 32" using assms by (simp add: tree_sum_rec [of i])
  with data_offset_by_sectorid data_sectorid_loop_sum [of i i] assms show ?thesis
    by (simp add: psync_fs_crypto_data_sectorid_by_sectorid_def tree_sum_rec [of i])
qed

end
