(* ===== verification/Pfscryptolog.thy ===== *)
theory Pfscryptolog
  imports Pfscrypto Pfasthash
begin

section \<open>The log of an encrypted file\<close>

text \<open>
  The write-ahead log of \<^verbatim>\<open>src/src/psync/pfscrypto.c\<close>.  Changes of an encrypted file are appended to a log
  as records with a header of 16 bytes; a data record holds bytes for an offset of the data file, an
  interval record an entry of the index file.  When the log is complete, a master record with its size,
  a hash of the records and a checksum is written over its first bytes, and the log is replayed: now, or
  after a crash by the next start of the program.

  A file is a list of bytes.  The results of the system calls are a list that the run consumes; every
  entry says that a call succeeds, or that it fails after having done a part of its work.  An empty list
  means that all further calls succeed.
\<close>

subsection \<open>Files\<close>

datatype io_result = Io_ok | Io_fail nat

definition file_write :: "bytes \<Rightarrow> nat \<Rightarrow> bytes \<Rightarrow> bytes" where
  "file_write f off data =
     (if data = [] then f
      else take off f @ replicate (off - length f) 0 @ data @ drop (off + length data) f)"

definition file_truncate :: "bytes \<Rightarrow> nat \<Rightarrow> bytes" where
  "file_truncate f n = take n f @ replicate (n - length f) 0"

definition psync_file_pread :: "bytes \<Rightarrow> nat \<Rightarrow> nat \<Rightarrow> io_result \<Rightarrow> bytes option" where
  "psync_file_pread f cnt off r = (case r of Io_ok \<Rightarrow> Some (take cnt (drop off f)) | Io_fail k \<Rightarrow> None)"

text \<open>A failing write has written some of the data; an offset that is negative as a signed number is refused.\<close>

definition psync_file_pwrite :: "bytes \<Rightarrow> bytes \<Rightarrow> nat \<Rightarrow> io_result \<Rightarrow> int \<times> bytes" where
  "psync_file_pwrite f data off r =
     (if 2 ^ 63 \<le> off then (-1, f)
      else case r of Io_ok \<Rightarrow> (int (length data), file_write f off data)
           | Io_fail k \<Rightarrow> (if k < length data then int k else -1, file_write f off (take k data)))"

definition seek_truncate :: "bytes \<Rightarrow> nat \<Rightarrow> io_result \<Rightarrow> bool \<times> bytes" where
  "seek_truncate f n r =
     (if 2 ^ 63 \<le> n then (False, f)
      else case r of Io_ok \<Rightarrow> (True, file_truncate f n)
           | Io_fail k \<Rightarrow> (False, if k = 0 then f else file_truncate f n))"

fun next_io :: "io_result list \<Rightarrow> io_result \<times> io_result list" where
  "next_io [] = (Io_ok, [])"
| "next_io (r # rs) = (r, rs)"

subsection \<open>Records\<close>

definition PSYNC_CRYPTO_LOG_DATA :: nat where [simp]: "PSYNC_CRYPTO_LOG_DATA = 1"

definition PSYNC_CRYPTO_LOG_INT :: nat where [simp]: "PSYNC_CRYPTO_LOG_INT = 2"

definition PSYNC_LOG_STATUS_FINALIZED :: nat where [simp]: "PSYNC_LOG_STATUS_FINALIZED = 1"

definition PSYNC_LOG_HASHID_FH256 :: nat where [simp]: "PSYNC_LOG_HASHID_FH256 = 0"

record psync_crypto_log_header =
  rectype :: nat
  finalized :: nat
  reclength :: nat
  longlengthlo :: nat
  recoffset :: nat

definition header_bytes :: "psync_crypto_log_header \<Rightarrow> bytes" where
  "header_bytes h = le_bytes 1 (rectype h) @ le_bytes 1 (finalized h) @ le_bytes 2 (reclength h)
     @ le_bytes 4 (longlengthlo h) @ le_bytes 8 (recoffset h)"

definition read_header :: "bytes \<Rightarrow> psync_crypto_log_header" where
  "read_header bs = \<lparr>rectype = le_val (take 1 bs), finalized = le_val (take 1 (drop 1 bs)),
     reclength = le_val (take 2 (drop 2 bs)), longlengthlo = le_val (take 4 (drop 4 bs)),
     recoffset = le_val (take 8 (drop 8 bs))\<rparr>"

record psync_crypto_master_record =
  mr_status :: nat
  mr_hashid :: nat
  mr_logsize :: nat
  mr_filesize :: nat
  mr_hash :: bytes
  mr_crc :: u32

definition master_prefix :: "psync_crypto_master_record \<Rightarrow> bytes" where
  "master_prefix mr = le_bytes 4 (mr_status mr) @ le_bytes 4 (mr_hashid mr) @ le_bytes 8 (mr_logsize mr)
     @ le_bytes 8 (mr_filesize mr) @ mr_hash mr"

definition read_master :: "bytes \<Rightarrow> psync_crypto_master_record" where
  "read_master bs = \<lparr>mr_status = le_val (take 4 bs), mr_hashid = le_val (take 4 (drop 4 bs)),
     mr_logsize = le_val (take 8 (drop 8 bs)), mr_filesize = le_val (take 8 (drop 16 bs)),
     mr_hash = take 32 (drop 24 bs), mr_crc = word_of_nat (le_val (take 4 (drop 56 bs)))\<rparr>"

subsection \<open>Replay\<close>

record replay =
  io :: "io_result list"
  dfile :: bytes
  ifile :: "bytes option"

datatype replay_end = Failed_assertion | Returned int | End_of_log "(nat \<times> nat) list" nat

definition index_bytes :: "(nat \<times> nat) list \<Rightarrow> bytes" where
  "index_bytes recs = concat (map (\<lambda>(off, len). le_bytes 8 off @ le_bytes 8 len) recs)"

definition write_data :: "replay \<Rightarrow> bytes \<Rightarrow> nat \<Rightarrow> int \<times> replay" where
  "write_data s data off =
     (let (r, rs) = next_io (io s); (wrt, f) = psync_file_pwrite (dfile s) data off r
      in (wrt, s\<lparr>io := rs, dfile := f\<rparr>))"

definition write_index :: "replay \<Rightarrow> bytes \<Rightarrow> nat \<Rightarrow> int \<times> replay" where
  "write_index s data off =
     (case ifile s of
        None \<Rightarrow> (-1, s)
      | Some idx \<Rightarrow> let (r, rs) = next_io (io s); (wrt, f) = psync_file_pwrite idx data off r
                    in (wrt, s\<lparr>io := rs, ifile := Some f\<rparr>))"

definition read_log :: "bytes \<Rightarrow> nat \<Rightarrow> nat \<Rightarrow> replay \<Rightarrow> bytes option \<times> replay" where
  "read_log lfd cnt off s = (let (r, rs) = next_io (io s) in (psync_file_pread lfd cnt off r, s\<lparr>io := rs\<rparr>))"

definition flush_index :: "(nat \<times> nat) list \<Rightarrow> nat \<Rightarrow> replay \<Rightarrow> bool \<times> replay" where
  "flush_index recs ioff s =
     (let (wrt, s) = write_index s (index_bytes recs) (16 * ioff)
      in (wrt = int (16 * length recs), s))"

text \<open>The body of the loop behind the header; \<open>Inr\<close> is the next round with its offset and index records.\<close>

definition replay_record :: "bytes \<Rightarrow> nat \<Rightarrow> nat \<Rightarrow> psync_crypto_log_header \<Rightarrow> (nat \<times> nat) list \<Rightarrow> nat \<Rightarrow> replay
    \<Rightarrow> (replay_end + nat \<times> (nat \<times> nat) list \<times> nat) \<times> replay" where
  "replay_record lfd size0 off hdr recs ioff s =
     (if rectype hdr = PSYNC_CRYPTO_LOG_DATA
      then if \<not> (reclength hdr \<le> PSYNC_CRYPTO_SECTOR_SIZE \<and> recs = []) then (Inl Failed_assertion, s)
           else if size0 < uint64 (recoffset hdr + reclength hdr)
           then (Inr (off + reclength hdr, recs, ioff), s)
           else (case read_log lfd (reclength hdr) off s of
               (None, s) \<Rightarrow> (Inl (Returned (-1)), s)
             | (Some data, s) \<Rightarrow>
                 if length data \<noteq> reclength hdr then (Inl (Returned (-1)), s)
                 else let (wrt, s) = write_data s data (recoffset hdr)
                      in if wrt \<noteq> int (reclength hdr) then (Inl (Returned (-1)), s)
                         else (Inr (off + reclength hdr, recs, ioff), s))
      else if rectype hdr = PSYNC_CRYPTO_LOG_INT
      then if ifile s = None then (Inl Failed_assertion, s)
           else let recs = recs @ [(recoffset hdr, longlengthlo hdr + reclength hdr * 2 ^ 32)]
                in if length recs \<ge> PSYNC_CRYPTO_SECTOR_SIZE div 16
                   then let (ok, s) = flush_index recs ioff s
                        in if ok then (Inr (off, [], ioff + length recs), s) else (Inl (Returned (-1)), s)
                   else (Inr (off, recs, ioff), s)
      else (Inl (Returned (-1)), s))"

lemma replay_record_off:
  "replay_record lfd size0 off hdr recs ioff s = (Inr (off', recs', ioff'), s') \<Longrightarrow> off \<le> off'"
  by (auto simp: replay_record_def Let_def split: if_splits prod.splits option.splits)

function replay_loop :: "bytes \<Rightarrow> nat \<Rightarrow> nat \<Rightarrow> (nat \<times> nat) list \<Rightarrow> nat \<Rightarrow> replay \<Rightarrow> replay_end \<times> replay" where
  "replay_loop lfd size0 off recs ioff s =
     (case read_log lfd 16 off s of
        (None, s) \<Rightarrow> (Returned (-1), s)
      | (Some bs, s) \<Rightarrow>
          if bs = [] then (End_of_log recs ioff, s)
          else if length bs \<noteq> 16 then (Returned (-1), s)
          else case replay_record lfd size0 (off + 16) (read_header bs) recs ioff s of
                 (Inl e, s) \<Rightarrow> (e, s)
               | (Inr (off', recs', ioff'), s) \<Rightarrow> replay_loop lfd size0 off' recs' ioff' s)"
  by pat_completeness auto
termination
  by (relation "measure (\<lambda>(lfd, size0, off, recs, ioff, s). length lfd - off)")
     (auto simp: read_log_def psync_file_pread_def dest!: replay_record_off [OF sym] split: prod.splits io_result.splits)

declare replay_loop.simps [simp del]

text \<open>The parameters for the checksums: the processor, the cached choice of the implementation, the address
  of the checked buffer and the memory that the hash context is made of.\<close>

record crc_env =
  hw8 :: "u64 \<Rightarrow> u8 \<Rightarrow> u64"
  hw64 :: "u64 \<Rightarrow> u64 \<Rightarrow> u64"
  has_hw :: bool
  crc_hashw :: int
  crc_addr :: nat
  ctx_mem :: psync_fast_hash256_ctx

function hash_loop :: "crc_env \<Rightarrow> int \<Rightarrow> bytes \<Rightarrow> nat \<Rightarrow> psync_fast_hash256_ctx \<Rightarrow> replay \<Rightarrow> psync_fast_hash256_ctx option \<times> replay" where
  "hash_loop env hashw lfd off ctx s =
     (case read_log lfd PSYNC_CRYPTO_SECTOR_SIZE off s of
        (None, s) \<Rightarrow> (None, s)
      | (Some data, s) \<Rightarrow>
          if data = [] then (Some ctx, s)
          else hash_loop env hashw lfd (off + length data) (psync_fast_hash256_update (hw64 env) hashw ctx data) s)"
  by pat_completeness auto
termination
  by (relation "measure (\<lambda>(env, hashw, lfd, off, ctx, s). length lfd - off)")
     (auto simp: read_log_def psync_file_pread_def split: prod.splits io_result.splits)

declare hash_loop.simps [simp del]

definition psync_fs_crypto_check_log_hash :: "crc_env \<Rightarrow> int \<Rightarrow> bytes \<Rightarrow> psync_crypto_master_record \<Rightarrow> replay \<Rightarrow> int \<times> replay" where
  "psync_fs_crypto_check_log_hash env hashw lfd mr s =
     (if mr_hashid mr \<noteq> PSYNC_LOG_HASHID_FH256 then (-1, s)
      else let (ctx, hashw) = psync_fast_hash256_init (has_hw env) hashw (ctx_mem env)
           in case hash_loop env hashw lfd PSYNC_CRYPTO_SECTOR_SIZE ctx s of
                (None, s) \<Rightarrow> (-1, s)
              | (Some ctx, s) \<Rightarrow>
                  (if fst (psync_fast_hash256_final (hw64 env) hashw ctx) \<noteq> mr_hash mr then -1 else 0, s))"

definition log_size :: "bytes \<Rightarrow> replay \<Rightarrow> nat \<times> replay" where
  "log_size lfd s = (let (r, rs) = next_io (io s)
     in (case r of Io_ok \<Rightarrow> length lfd | Io_fail k \<Rightarrow> 2 ^ 64 - 1, s\<lparr>io := rs\<rparr>))"

text \<open>The checks of the master record; \<open>Inr\<close> is the size of the data file.\<close>

definition check_master :: "crc_env \<Rightarrow> bytes \<Rightarrow> bool \<Rightarrow> replay \<Rightarrow> (int + nat) \<times> replay" where
  "check_master env lfd checkhash s =
     (case read_log lfd 64 0 s of
        (None, s) \<Rightarrow> (Inl (-1), s)
      | (Some bs, s) \<Rightarrow>
          if length bs \<noteq> 64 then (Inl (-1), s)
          else let mr = read_master bs in
            if mr_status mr \<noteq> PSYNC_LOG_STATUS_FINALIZED then (Inl (-1), s)
            else let (lsize, s) = log_size lfd s in
              if mr_logsize mr \<noteq> lsize then (Inl (-1), s)
              else let (crc, hashw) = psync_crc32c (hw8 env) (hw64 env) (has_hw env) (crc_hashw env) (crc_addr env) 0 (take 56 bs) in
                if mr_crc mr \<noteq> crc then (Inl (-1), s)
                else let (bad, s) = (if checkhash then psync_fs_crypto_check_log_hash env hashw lfd mr s else (0, s)) in
                  if bad \<noteq> 0 then (Inl (-1), s) else (Inr (mr_filesize mr), s))"

definition truncate_data :: "nat \<Rightarrow> replay \<Rightarrow> bool \<times> replay" where
  "truncate_data n s = (let (r, rs) = next_io (io s); (ok, f) = seek_truncate (dfile s) n r in (ok, s\<lparr>io := rs, dfile := f\<rparr>))"

definition truncate_index :: "replay \<Rightarrow> bool \<times> replay" where
  "truncate_index s =
     (case ifile s of
        None \<Rightarrow> (True, s)
      | Some idx \<Rightarrow> let (r, rs) = next_io (io s); (ok, f) = seek_truncate idx 0 r in (ok, s\<lparr>io := rs, ifile := Some f\<rparr>))"

definition psync_fs_crypto_process_log :: "crc_env \<Rightarrow> bytes \<Rightarrow> bool \<Rightarrow> replay \<Rightarrow> replay_end \<times> replay" where
  "psync_fs_crypto_process_log env lfd checkhash s =
     (case check_master env lfd checkhash s of
        (Inl e, s) \<Rightarrow> (Returned e, s)
      | (Inr size0, s) \<Rightarrow>
          let (ok, s) = truncate_data size0 s in
          if \<not> ok then (Returned (-1), s)
          else let (ok, s) = truncate_index s in
            if \<not> ok then (Returned (-1), s)
            else case replay_loop lfd size0 PSYNC_CRYPTO_SECTOR_SIZE [] 0 s of
                   (End_of_log recs ioff, s) \<Rightarrow>
                     let (ok, s) = (if recs \<noteq> [] then flush_index recs ioff s else (True, s)) in
                     if \<not> ok then (Returned (-1), s)
                     else let (ok, s) = truncate_data size0 s in (Returned (if ok then 0 else -1), s)
                 | (e, s) \<Rightarrow> (e, s))"

subsection \<open>What a replay does to the files\<close>

text \<open>The writes of a replay without failures, computed from the log alone.\<close>

datatype effect = Eff_data nat bytes | Eff_index nat bytes

fun eff :: "bytes \<times> bytes option \<Rightarrow> effect \<Rightarrow> bytes \<times> bytes option" where
  "eff (d, i) (Eff_data off data) = (file_write d off data, i)"
| "eff (d, i) (Eff_index off data) = (d, map_option (\<lambda>f. file_write f off data) i)"

definition files :: "replay \<Rightarrow> bytes \<times> bytes option" where
  "files s = (dfile s, ifile s)"

definition record_effs :: "bytes \<Rightarrow> nat \<Rightarrow> bool \<Rightarrow> nat \<Rightarrow> psync_crypto_log_header \<Rightarrow> (nat \<times> nat) list \<Rightarrow> nat
    \<Rightarrow> effect list \<times> (replay_end + nat \<times> (nat \<times> nat) list \<times> nat)" where
  "record_effs lfd size0 idx off hdr recs ioff =
     (if rectype hdr = 1
      then if \<not> (reclength hdr \<le> 4096 \<and> recs = []) then ([], Inl Failed_assertion)
           else if size0 < uint64 (recoffset hdr + reclength hdr) then ([], Inr (off + reclength hdr, recs, ioff))
           else let data = take (reclength hdr) (drop off lfd) in
                if length data \<noteq> reclength hdr \<or> 2 ^ 63 \<le> recoffset hdr then ([], Inl (Returned (-1)))
                else ([Eff_data (recoffset hdr) data], Inr (off + reclength hdr, recs, ioff))
      else if rectype hdr = 2
      then if \<not> idx then ([], Inl Failed_assertion)
           else let recs = recs @ [(recoffset hdr, longlengthlo hdr + reclength hdr * 2 ^ 32)]
                in if length recs \<ge> 256
                   then if 2 ^ 63 \<le> 16 * ioff then ([], Inl (Returned (-1)))
                        else ([Eff_index (16 * ioff) (index_bytes recs)], Inr (off, [], ioff + length recs))
                   else ([], Inr (off, recs, ioff))
      else ([], Inl (Returned (-1))))"

lemma record_effs_off: "record_effs lfd size0 idx off hdr recs ioff = (es, Inr (off', recs', ioff')) \<Longrightarrow> off \<le> off'"
  by (auto simp: record_effs_def Let_def split: if_splits)

function log_effs :: "bytes \<Rightarrow> nat \<Rightarrow> bool \<Rightarrow> nat \<Rightarrow> (nat \<times> nat) list \<Rightarrow> nat \<Rightarrow> effect list \<times> replay_end" where
  "log_effs lfd size0 idx off recs ioff =
     (let bs = take 16 (drop off lfd) in
      if bs = [] then ([], End_of_log recs ioff)
      else if length bs \<noteq> 16 then ([], Returned (-1))
      else case record_effs lfd size0 idx (off + 16) (read_header bs) recs ioff of
             (es, Inl e) \<Rightarrow> (es, e)
           | (es, Inr (off', recs', ioff')) \<Rightarrow>
               let (es', e) = log_effs lfd size0 idx off' recs' ioff' in (es @ es', e))"
  by pat_completeness auto
termination
  by (relation "measure (\<lambda>(lfd, size0, idx, off, recs, ioff). length lfd - off)")
     (auto dest!: record_effs_off [OF sym])

declare log_effs.simps [simp del]

text \<open>A part of a list of writes, the last of them possibly incomplete.\<close>

inductive cut :: "effect list \<Rightarrow> effect list \<Rightarrow> bool" where
  cut_Nil: "cut [] es"
| cut_data: "cut [Eff_data off (take k data)] (Eff_data off data # es)"
| cut_index: "cut [Eff_index off (take k data)] (Eff_index off data # es)"
| cut_Cons: "cut ws es \<Longrightarrow> cut (e # ws) (e # es)"

lemma cut_refl: "cut es es"
  by (induction es) (auto intro: cut.intros)

lemma cut_append: "cut ws es \<Longrightarrow> cut ws (es @ es')"
  by (induction rule: cut.induct) (auto intro: cut.intros)

lemma cut_prepend: "cut ws es' \<Longrightarrow> cut (es @ ws) (es @ es')"
  by (induction es) (auto intro: cut.intros)

lemma length_index_bytes [simp]: "length (index_bytes recs) = 16 * length recs"
  by (induction recs) (auto simp: index_bytes_def)

lemma file_write_Nil [simp]: "file_write f off [] = f"
  by (simp add: file_write_def)

lemma flush_index_run:
  assumes "flush_index recs ioff s = (ok, s')" and "ifile s \<noteq> None"
  shows "\<exists>k. files s' = eff (files s) (Eff_index (16 * ioff) (take k (index_bytes recs)))
    \<and> (ok \<longrightarrow> files s' = eff (files s) (Eff_index (16 * ioff) (index_bytes recs)) \<and> 16 * ioff < 2 ^ 63)
    \<and> (io s = [] \<longrightarrow> io s' = [] \<and> ok = (16 * ioff < 2 ^ 63))"
proof -
  obtain idx where i: "ifile s = Some idx" using assms(2) by auto
  obtain r rs where n: "next_io (io s) = (r, rs)" by (cases "next_io (io s)")
  show ?thesis
  proof (cases "2 ^ 63 \<le> 16 * ioff")
    case True
    with assms(1) i n show ?thesis
      by (intro exI [of _ 0]) (auto simp: flush_index_def write_index_def psync_file_pwrite_def files_def Let_def)
  next
    case False
    show ?thesis
    proof (cases r)
      case Io_ok
      with assms(1) i n False show ?thesis
        by (intro exI [of _ "16 * length recs"])
           (auto simp: flush_index_def write_index_def psync_file_pwrite_def files_def Let_def)
    next
      case (Io_fail k)
      with assms(1) i n False show ?thesis
        by (intro exI [of _ k])
           (auto simp: flush_index_def write_index_def psync_file_pwrite_def files_def Let_def split: if_splits)
    qed
  qed
qed

lemma write_data_run:
  assumes "write_data s data off = (wrt, s')"
  shows "\<exists>k. files s' = eff (files s) (Eff_data off (take k data))
    \<and> (wrt = int (length data) \<longrightarrow> files s' = eff (files s) (Eff_data off data) \<and> off < 2 ^ 63)
    \<and> (io s = [] \<longrightarrow> io s' = [] \<and> (wrt = int (length data)) = (off < 2 ^ 63))"
proof -
  obtain r rs where n: "next_io (io s) = (r, rs)" by (cases "next_io (io s)")
  show ?thesis
  proof (cases "2 ^ 63 \<le> off")
    case True
    with assms n show ?thesis
      by (intro exI [of _ 0]) (auto simp: write_data_def psync_file_pwrite_def files_def Let_def)
  next
    case False
    show ?thesis
    proof (cases r)
      case Io_ok
      with assms n False show ?thesis
        by (intro exI [of _ "length data"]) (auto simp: write_data_def psync_file_pwrite_def files_def Let_def)
    next
      case (Io_fail k)
      with assms n False show ?thesis
        by (intro exI [of _ k]) (auto simp: write_data_def psync_file_pwrite_def files_def Let_def split: if_splits)
    qed
  qed
qed

text \<open>
  A run from the files \<open>f\<close> to the files \<open>f'\<close> against the writes \<open>es\<close> and the result \<open>x\<close> of a run without
  failures: it has done a part of the writes, and all of them when it goes on.
\<close>

definition follows :: "bool \<Rightarrow> bool \<Rightarrow> 'x \<Rightarrow> 'x \<Rightarrow> effect list \<Rightarrow> bytes \<times> bytes option \<Rightarrow> bytes \<times> bytes option \<Rightarrow> bool" where
  "follows quiet goes x' x es f f' \<longleftrightarrow>
     (\<exists>ws. cut ws es \<and> f' = foldl eff f ws \<and> (quiet \<or> goes \<longrightarrow> ws = es \<and> x' = x))"

lemma follows_none: "(quiet \<or> goes \<Longrightarrow> es = [] \<and> x' = x) \<Longrightarrow> follows quiet goes x' x es f f"
  by (auto simp: follows_def intro!: exI [of _ "[]"] cut_Nil)

lemma follows_all: "x' = x \<Longrightarrow> f' = foldl eff f es \<Longrightarrow> follows quiet goes x' x es f f'"
  by (auto simp: follows_def intro: cut_refl)

definition goes_on :: "replay_end + 'x \<Rightarrow> bool" where
  "goes_on x \<longleftrightarrow> (case x of Inl e \<Rightarrow> False | Inr y \<Rightarrow> True)"

lemma goes_on_simps [simp]: "\<not> goes_on (Inl e)" "goes_on (Inr y)"
  by (simp_all add: goes_on_def)

lemma read_log_run:
  assumes "read_log lfd cnt off s = (x, s')"
  shows "files s' = files s" and "x = Some (take cnt (drop off lfd)) \<or> x = None \<and> io s \<noteq> []" and "io s = [] \<Longrightarrow> io s' = []"
  using assms by (auto simp: read_log_def psync_file_pread_def files_def Let_def split: prod.splits io_result.splits)

lemma files_ifile: "(ifile s = None) = (snd (files s) = None)"
  by (simp add: files_def)

lemma data_record_run:
  assumes "rectype hdr = 1" and "replay_record lfd size0 off hdr recs ioff s = (x', s')"
  shows "follows (io s = []) (goes_on x') x' (snd (record_effs lfd size0 idx off hdr recs ioff))
      (fst (record_effs lfd size0 idx off hdr recs ioff)) (files s) (files s') \<and> (io s = [] \<longrightarrow> io s' = [])"
proof (cases "reclength hdr \<le> 4096 \<and> recs = [] \<and> \<not> size0 < uint64 (recoffset hdr + reclength hdr)")
  case False
  with assms show ?thesis by (auto simp: replay_record_def record_effs_def intro!: follows_none split: if_splits)
next
  case True
  let ?n = "reclength hdr" and ?data = "take (reclength hdr) (drop off lfd)"
  obtain y s1 where r: "read_log lfd ?n off s = (y, s1)" by fastforce
  note rd = read_log_run [OF r]
  show ?thesis
  proof (cases "y = None \<or> length ?data \<noteq> ?n")
    case bad: True
    with assms True r have x: "x' = Inl (Returned (-1))" "s' = s1"
      using rd(2) by (auto simp: replay_record_def split: option.splits if_splits)
    moreover have "record_effs lfd size0 idx off hdr recs ioff = ([], Inl (Returned (-1)))" if "length ?data \<noteq> ?n"
      using True assms(1) that by (auto simp: record_effs_def Let_def)
    ultimately show ?thesis using rd bad by (auto intro!: follows_none)
  next
    case good: False
    then have y: "y = Some ?data" using rd(2) by auto
    obtain wrt s2 where w: "write_data s1 ?data (recoffset hdr) = (wrt, s2)" by fastforce
    obtain k where wr: "files s2 = eff (files s) (Eff_data (recoffset hdr) (take k ?data))"
      "wrt = int ?n \<longrightarrow> files s2 = eff (files s) (Eff_data (recoffset hdr) ?data) \<and> recoffset hdr < 2 ^ 63"
      "io s1 = [] \<longrightarrow> io s2 = [] \<and> (wrt = int ?n) = (recoffset hdr < 2 ^ 63)"
      using write_data_run [OF w] good rd(1) by auto
    have x: "s' = s2" "x' = (if wrt = int ?n then Inr (off + ?n, recs, ioff) else Inl (Returned (-1)))"
      using assms True r y w good by (auto simp: replay_record_def Let_def split: if_splits)
    have e: "record_effs lfd size0 idx off hdr recs ioff = (if 2 ^ 63 \<le> recoffset hdr then ([], Inl (Returned (-1)))
        else ([Eff_data (recoffset hdr) ?data], Inr (off + ?n, recs, ioff)))"
      using assms(1) True good by (simp add: record_effs_def Let_def)
    show ?thesis
    proof (cases "wrt = int ?n")
      case True
      then show ?thesis using wr x e rd(3) by (auto intro!: follows_all)
    next
      case wf: False
      show ?thesis
      proof (cases "2 ^ 63 \<le> recoffset hdr")
        case True
        then have "files s2 = files s" using w rd(1) by (auto simp: write_data_def psync_file_pwrite_def files_def Let_def split: prod.splits)
        then show ?thesis using wr x e rd(3) wf True by (auto intro!: follows_none)
      next
        case False
        then have "io s \<noteq> []" using wr(3) rd(3) wf by auto
        then show ?thesis using wr(1) x e wf False
          by (auto simp: follows_def intro!: exI [of _ "[Eff_data (recoffset hdr) (take k ?data)]"] cut_data)
      qed
    qed
  qed
qed

lemma int_record_run:
  assumes "rectype hdr = 2" and "replay_record lfd size0 off hdr recs ioff s = (x', s')"
  shows "follows (io s = []) (goes_on x') x' (snd (record_effs lfd size0 (ifile s \<noteq> None) off hdr recs ioff))
      (fst (record_effs lfd size0 (ifile s \<noteq> None) off hdr recs ioff)) (files s) (files s') \<and> (io s = [] \<longrightarrow> io s' = [])"
proof -
  let ?recs = "recs @ [(recoffset hdr, longlengthlo hdr + reclength hdr * 2 ^ 32)]"
  let ?d = "index_bytes ?recs"
  show ?thesis
  proof (cases "ifile s = None \<or> length ?recs < 256")
    case True
    with assms show ?thesis by (auto simp: replay_record_def record_effs_def Let_def intro!: follows_none split: if_splits)
  next
    case False
    obtain ok s1 where f: "flush_index ?recs ioff s = (ok, s1)" by fastforce
    have i: "ifile s \<noteq> None" using False by simp
    from flush_index_run [OF f i] obtain k where fr: "files s1 = eff (files s) (Eff_index (16 * ioff) (take k ?d))"
      "ok \<longrightarrow> files s1 = eff (files s) (Eff_index (16 * ioff) ?d) \<and> 16 * ioff < 2 ^ 63"
      "io s = [] \<longrightarrow> io s1 = [] \<and> ok = (16 * ioff < 2 ^ 63)"
      by blast
    have x: "s' = s1" "x' = (if ok then Inr (off, [], ioff + length ?recs) else Inl (Returned (-1)))"
      using assms f False by (auto simp: replay_record_def Let_def split: if_splits)
    have e: "record_effs lfd size0 (ifile s \<noteq> None) off hdr recs ioff = (if 2 ^ 63 \<le> 16 * ioff then ([], Inl (Returned (-1)))
        else ([Eff_index (16 * ioff) ?d], Inr (off, [], ioff + length ?recs)))"
      using assms(1) False by (simp add: record_effs_def Let_def)
    show ?thesis
    proof (cases ok)
      case True
      then show ?thesis using fr x e by (auto intro!: follows_all)
    next
      case no: False
      show ?thesis
      proof (cases "2 ^ 63 \<le> 16 * ioff")
        case True
        then have "files s1 = files s" using f
          by (auto simp: flush_index_def write_index_def psync_file_pwrite_def files_def Let_def split: prod.splits option.splits)
        then show ?thesis using fr x e no True by (auto intro!: follows_none)
      next
        case False
        then have "io s \<noteq> []" using fr(3) no by auto
        then show ?thesis using fr(1) x e no False
          by (auto simp: follows_def intro!: exI [of _ "[Eff_index (16 * ioff) (take k ?d)]"] cut_index)
      qed
    qed
  qed
qed

lemma replay_record_run:
  assumes "replay_record lfd size0 off hdr recs ioff s = (x', s')"
  shows "follows (io s = []) (goes_on x') x' (snd (record_effs lfd size0 (ifile s \<noteq> None) off hdr recs ioff))
      (fst (record_effs lfd size0 (ifile s \<noteq> None) off hdr recs ioff)) (files s) (files s') \<and> (io s = [] \<longrightarrow> io s' = [])"
proof -
  consider "rectype hdr = 1" | "rectype hdr = 2" | "rectype hdr \<noteq> 1 \<and> rectype hdr \<noteq> 2" by blast
  then show ?thesis
  proof cases
    case 3
    with assms show ?thesis by (auto simp: replay_record_def record_effs_def intro!: follows_none)
  qed (use data_record_run [OF _ assms] int_record_run [OF _ assms] in blast)+
qed

lemma eff_None: "snd (eff f e) = None \<longleftrightarrow> snd f = None"
  by (cases f; cases e) auto

lemma foldl_eff_None [simp]: "snd (foldl eff f es) = None \<longleftrightarrow> snd f = None"
  by (induction es arbitrary: f) (auto simp: eff_None)

lemma follows_idx: "follows q g x' x es f f' \<Longrightarrow> (snd f' = None) = (snd f = None)"
  by (auto simp: follows_def)

definition finished :: "replay_end \<Rightarrow> bool" where
  "finished e \<longleftrightarrow> (case e of End_of_log recs ioff \<Rightarrow> True | _ \<Rightarrow> False)"

lemma finished_simps [simp]: "finished (End_of_log recs ioff)" "\<not> finished (Returned n)" "\<not> finished Failed_assertion"
  by (simp_all add: finished_def)

lemma follows_append:
  assumes "follows q True x' x es f f1" and "follows q1 g e' e es' f1 f2" and "q \<longrightarrow> q1"
  shows "follows q g e' e (es @ es') f f2"
proof -
  obtain ws where "cut ws es'" "f2 = foldl eff f1 ws" "q1 \<or> g \<longrightarrow> ws = es' \<and> e' = e"
    using assms(2) by (auto simp: follows_def)
  moreover have "f1 = foldl eff f es" using assms(1) by (auto simp: follows_def)
  ultimately show ?thesis using assms(3) by (auto simp: follows_def intro!: exI [of _ "es @ ws"] cut_prepend)
qed

lemma record_effs_not_finished: "record_effs lfd size0 idx off hdr recs ioff = (es, Inl e) \<Longrightarrow> \<not> finished e"
  by (auto simp: record_effs_def Let_def split: if_splits)

lemma replay_record_not_finished: "replay_record lfd size0 off hdr recs ioff s = (Inl e, s') \<Longrightarrow> \<not> finished e"
  by (auto simp: replay_record_def Let_def split: if_splits prod.splits option.splits)

lemma replay_loop_run:
  "replay_loop lfd size0 off recs ioff s = (e', s') \<Longrightarrow>
   follows (io s = []) (finished e') e' (snd (log_effs lfd size0 (ifile s \<noteq> None) off recs ioff))
     (fst (log_effs lfd size0 (ifile s \<noteq> None) off recs ioff)) (files s) (files s') \<and> (io s = [] \<longrightarrow> io s' = [])"
proof (induction lfd size0 off recs ioff s arbitrary: e' s' rule: replay_loop.induct)
  case (1 lfd size0 off recs ioff s)
  let ?idx = "ifile s \<noteq> None" and ?bs = "take 16 (drop off lfd)"
  obtain y s1 where r: "read_log lfd 16 off s = (y, s1)" by fastforce
  note rd = read_log_run [OF r]
  note run = 1(2) [unfolded replay_loop.simps [of lfd size0 off] r]
  show ?case
  proof (cases "y = None \<or> ?bs = [] \<or> length ?bs \<noteq> 16")
    case True
    then show ?thesis
      using run rd by (auto simp: log_effs.simps [of lfd size0 _ off] Let_def intro!: follows_none split: if_splits)
  next
    case False
    then have y: "y = Some ?bs" using rd(2) by auto
    obtain x s2 where rec: "replay_record lfd size0 (off + 16) (read_header ?bs) recs ioff s1 = (x, s2)" by fastforce
    have idx: "(ifile s1 \<noteq> None) = ?idx" using rd(1) by (simp add: files_ifile)
    let ?r = "record_effs lfd size0 ?idx (off + 16) (read_header ?bs) recs ioff"
    have f: "follows (io s1 = []) (goes_on x) x (snd ?r) (fst ?r) (files s) (files s2) \<and> (io s1 = [] \<longrightarrow> io s2 = [])"
      using replay_record_run [OF rec] idx rd(1) by simp
    have eff: "log_effs lfd size0 i off recs ioff = (case record_effs lfd size0 i (off + 16) (read_header ?bs) recs ioff of
        (es, Inl e) \<Rightarrow> (es, e)
        | (es, Inr (off', recs', ioff')) \<Rightarrow> let (es', e) = log_effs lfd size0 i off' recs' ioff' in (es @ es', e))" for i
      using False by (subst log_effs.simps) (simp add: Let_def)
    show ?thesis
    proof (cases x)
      case (Inl e)
      then have "e' = e" "s' = s2" using run y rec False by auto
      moreover have "\<not> finished e" using replay_record_not_finished rec Inl by blast
      moreover obtain ws where "cut ws (fst ?r)" "files s2 = foldl eff (files s) ws" "io s1 = [] \<longrightarrow> ws = fst ?r \<and> x = snd ?r"
        using f Inl by (auto simp: follows_def)
      ultimately show ?thesis using eff f rd(3) Inl
        by (auto simp: follows_def split: prod.splits sum.splits intro!: exI [of _ ws] cut_append)
    next
      case (Inr z)
      obtain off' recs' ioff' where z: "z = (off', recs', ioff')" by (cases z) auto
      with Inr f have re: "?r = (fst ?r, Inr (off', recs', ioff'))" by (auto simp: follows_def prod_eq_iff)
      have l: "replay_loop lfd size0 off' recs' ioff' s2 = (e', s')" using run y rec False Inr z by simp
      have idx2: "(ifile s2 \<noteq> None) = ?idx" using f follows_idx by (metis files_ifile)
      have ih: "follows (io s2 = []) (finished e') e' (snd (log_effs lfd size0 (ifile s2 \<noteq> None) off' recs' ioff'))
          (fst (log_effs lfd size0 (ifile s2 \<noteq> None) off' recs' ioff')) (files s2) (files s') \<and> (io s2 = [] \<longrightarrow> io s' = [])"
        by (rule 1(1) [OF r [symmetric] y _ _ rec [symmetric] Inr z [symmetric] refl l]) (use False in auto)
      have "log_effs lfd size0 ?idx off recs ioff =
          (fst ?r @ fst (log_effs lfd size0 ?idx off' recs' ioff'), snd (log_effs lfd size0 ?idx off' recs' ioff'))"
        by (subst eff, subst re) (simp add: Let_def split_beta)
      then show ?thesis
        using follows_append [OF _ conjunct1 [OF ih [unfolded idx2]], of "io s = []" x "snd ?r" "fst ?r" "files s"] f Inr ih rd(3)
        by (auto simp: follows_def)
    qed
  qed
qed

subsection \<open>Writing twice\<close>

definition covers :: "(nat \<times> bytes) list \<Rightarrow> nat \<Rightarrow> bool" where
  "covers ds p \<longleftrightarrow> (\<exists>(off, data) \<in> set ds. off \<le> p \<and> p < off + length data)"

definition inside :: "nat \<Rightarrow> (nat \<times> bytes) list \<Rightarrow> bool" where
  "inside n ds \<longleftrightarrow> (\<forall>(off, data) \<in> set ds. off + length data \<le> n)"

definition write_all :: "bytes \<Rightarrow> (nat \<times> bytes) list \<Rightarrow> bytes" where
  "write_all f ds = foldl (\<lambda>f (off, data). file_write f off data) f ds"

lemma write_all_simps [simp]: "write_all f [] = f" "write_all f ((off, data) # ds) = write_all (file_write f off data) ds"
  by (simp_all add: write_all_def)

lemma write_all_append: "write_all f (xs @ ys) = write_all (write_all f xs) ys"
  by (simp add: write_all_def)

lemma inside_simps [simp]: "inside n []" "inside n ((off, data) # ds) \<longleftrightarrow> off + length data \<le> n \<and> inside n ds"
  by (auto simp: inside_def)

lemma covers_simps [simp]: "\<not> covers [] p" "covers ((off, data) # ds) p \<longleftrightarrow> off \<le> p \<and> p < off + length data \<or> covers ds p"
  by (auto simp: covers_def)

lemma length_file_write: "off + length data \<le> length f \<Longrightarrow> length (file_write f off data) = length f"
  by (auto simp: file_write_def)

lemma nth_file_write:
  assumes "off + length data \<le> length f" and "p < length f"
  shows "file_write f off data ! p = (if off \<le> p \<and> p < off + length data then data ! (p - off) else f ! p)"
  using assms by (auto simp: file_write_def nth_append)

lemma length_write_all: "inside (length f) ds \<Longrightarrow> length (write_all f ds) = length f"
proof (induction ds arbitrary: f)
  case (Cons w ds)
  then show ?case by (cases w) (auto simp: length_file_write)
qed simp

lemma write_all_outside: "inside (length f) ds \<Longrightarrow> p < length f \<Longrightarrow> \<not> covers ds p \<Longrightarrow> write_all f ds ! p = f ! p"
proof (induction ds arbitrary: f)
  case (Cons w ds)
  then show ?case by (cases w) (auto simp: length_file_write nth_file_write)
qed simp

text \<open>The result depends on the old contents only where nothing is written.\<close>

lemma write_all_cong:
  "\<lbrakk>length f = n; length g = n; inside n ds; \<And>p. p < n \<Longrightarrow> \<not> covers ds p \<Longrightarrow> f ! p = g ! p\<rbrakk>
   \<Longrightarrow> write_all f ds = write_all g ds"
proof (induction ds arbitrary: f g)
  case Nil
  then show ?case by (auto intro: nth_equalityI)
next
  case (Cons w ds)
  obtain off data where w: "w = (off, data)" by (cases w)
  then have "write_all (file_write f off data) ds = write_all (file_write g off data) ds"
    using Cons.prems by (intro Cons.IH) (auto simp: length_file_write nth_file_write)
  then show ?case using w by simp
qed

lemma write_all_again:
  assumes "inside (length f) ds" and "inside (length f) ws" and "\<And>p. covers ws p \<Longrightarrow> covers ds p"
  shows "write_all (write_all f ws) ds = write_all f ds"
proof (rule write_all_cong [where n = "length f"])
  show "length (write_all f ws) = length f" using assms(2) by (rule length_write_all)
  show "write_all f ws ! p = f ! p" if "p < length f" "\<not> covers ds p" for p
    using write_all_outside [OF assms(2)] assms(3) that by blast
qed (use assms in auto)

fun data_writes :: "effect list \<Rightarrow> (nat \<times> bytes) list" where
  "data_writes [] = []"
| "data_writes (Eff_data off data # es) = (off, data) # data_writes es"
| "data_writes (Eff_index off data # es) = data_writes es"

fun index_writes :: "effect list \<Rightarrow> (nat \<times> bytes) list" where
  "index_writes [] = []"
| "index_writes (Eff_data off data # es) = index_writes es"
| "index_writes (Eff_index off data # es) = (off, data) # index_writes es"

lemma foldl_eff: "foldl eff (d, i) es = (write_all d (data_writes es), map_option (\<lambda>f. write_all f (index_writes es)) i)"
proof (induction es arbitrary: d i)
  case (Cons e es)
  then show ?case by (cases e) (auto simp: option.map_comp comp_def)
qed (simp add: option.map_ident)

lemma writes_append [simp]:
  "data_writes (es @ es') = data_writes es @ data_writes es'" "index_writes (es @ es') = index_writes es @ index_writes es'"
  by (induction es rule: data_writes.induct) auto

lemma cut_covers: "cut ws es \<Longrightarrow> covers (data_writes ws) p \<Longrightarrow> covers (data_writes es) p"
proof (induction rule: cut.induct)
  case (cut_Cons ws es e)
  then show ?case by (cases e) auto
qed auto

lemma cut_inside: "cut ws es \<Longrightarrow> inside n (data_writes es) \<Longrightarrow> inside n (data_writes ws)"
proof (induction rule: cut.induct)
  case (cut_Cons ws es e)
  then show ?case by (cases e) auto
qed auto

lemma inside_append [simp]: "inside n (ds @ ds') \<longleftrightarrow> inside n ds \<and> inside n ds'"
  by (auto simp: inside_def)

lemma record_effs_inside: "inside size0 (data_writes (fst (record_effs lfd size0 idx off hdr recs ioff)))"
  by (auto simp: record_effs_def Let_def uint64_def)

lemma log_effs_inside: "inside size0 (data_writes (fst (log_effs lfd size0 idx off recs ioff)))"
proof (induction lfd size0 idx off recs ioff rule: log_effs.induct)
  case (1 lfd size0 idx off recs ioff)
  obtain es x where r: "record_effs lfd size0 idx (off + 16) (read_header (take 16 (drop off lfd))) recs ioff = (es, x)" by fastforce
  have es: "inside size0 (data_writes es)" using record_effs_inside [of size0 lfd idx "off + 16" _ recs ioff] r by (metis fst_conv)
  show ?case
  proof (cases "length (take 16 (drop off lfd)) = 16")
    case True
    then have ne: "take 16 (drop off lfd) \<noteq> []" by auto
    show ?thesis
    proof (cases x)
      case (Inr y)
      obtain off' recs' ioff' where y: "y = (off', recs', ioff')" by (cases y) auto
      have "inside size0 (data_writes (fst (log_effs lfd size0 idx off' recs' ioff')))"
        by (rule 1 [OF refl ne _ r [symmetric] Inr y [symmetric] refl]) (use True in simp)
      then show ?thesis using es r Inr y True ne by (subst log_effs.simps) (simp add: Let_def split_beta)
    qed (use es r True ne in \<open>subst log_effs.simps, simp add: Let_def\<close>)
  qed (subst log_effs.simps, auto simp: Let_def)
qed

subsection \<open>A complete and an interrupted replay\<close>

definition quiet_state :: replay where "quiet_state = \<lparr>io = [], dfile = [], ifile = None\<rparr>"

definition master_size :: "crc_env \<Rightarrow> bytes \<Rightarrow> bool \<Rightarrow> int + nat" where
  "master_size env lfd checkhash = fst (check_master env lfd checkhash quiet_state)"

lemma read_log_quiet: "io s = [] \<Longrightarrow> read_log lfd cnt off s = (Some (take cnt (drop off lfd)), s)"
  by (simp add: read_log_def psync_file_pread_def)

lemma read_log_Some: "read_log lfd cnt off s = (Some bs, s') \<Longrightarrow> bs = take cnt (drop off lfd)"
  by (auto dest: read_log_run(2))

lemma hash_loop_run:
  "hash_loop env hashw lfd off ctx s = (x, s') \<Longrightarrow>
   files s' = files s \<and> (io s = [] \<longrightarrow> io s' = [] \<and> x \<noteq> None) \<and>
   (\<forall>c. x = Some c \<longrightarrow> fst (hash_loop env hashw lfd off ctx quiet_state) = Some c)"
proof (induction env hashw lfd off ctx s arbitrary: x s' rule: hash_loop.induct)
  case (1 env hashw lfd off ctx s)
  obtain y s1 where rd: "read_log lfd 4096 off s = (y, s1)" by fastforce
  note run = 1(2) [unfolded hash_loop.simps [of env hashw lfd off ctx s] PSYNC_CRYPTO_SECTOR_SIZE_def rd]
  let ?data = "take 4096 (drop off lfd)"
  have q: "hash_loop env hashw lfd off ctx quiet_state = (if ?data = [] then (Some ctx, quiet_state)
      else hash_loop env hashw lfd (off + length ?data) (psync_fast_hash256_update (hw64 env) hashw ctx ?data) quiet_state)"
    by (subst hash_loop.simps) (simp add: read_log_quiet quiet_state_def)
  show ?case
  proof (cases "y = None \<or> ?data = []")
    case True
    then show ?thesis using run read_log_run [OF rd] q by (auto split: if_splits)
  next
    case False
    then have y: "y = Some ?data" using read_log_run(2) [OF rd] by auto
    have l: "hash_loop env hashw lfd (off + length ?data) (psync_fast_hash256_update (hw64 env) hashw ctx ?data) s1 = (x, s')"
      using run y False by simp
    from 1(1) [OF rd [folded PSYNC_CRYPTO_SECTOR_SIZE_def, symmetric] y _ l] show ?thesis
      using q False read_log_run [OF rd] by auto
  qed
qed

lemma hash_loop_quiet:
  assumes "io s = []"
  shows "fst (hash_loop env hashw lfd off ctx s) = fst (hash_loop env hashw lfd off ctx quiet_state)"
proof -
  obtain x s' where l: "hash_loop env hashw lfd off ctx s = (x, s')" by fastforce
  from hash_loop_run [OF l] assms obtain c where "x = Some c" by auto
  with hash_loop_run [OF l] l show ?thesis by simp
qed

lemma check_log_hash_run:
  assumes "psync_fs_crypto_check_log_hash env hashw lfd mr s = (x, s')"
  shows "files s' = files s \<and> (io s = [] \<longrightarrow> io s' = [] \<and> x = fst (psync_fs_crypto_check_log_hash env hashw lfd mr quiet_state))
    \<and> (x = 0 \<longrightarrow> fst (psync_fs_crypto_check_log_hash env hashw lfd mr quiet_state) = 0)"
proof -
  obtain ctx h where i: "psync_fast_hash256_init (has_hw env) hashw (ctx_mem env) = (ctx, h)" by fastforce
  obtain y s1 where l: "hash_loop env h lfd 4096 ctx s = (y, s1)" by fastforce
  obtain z s2 where q: "hash_loop env h lfd 4096 ctx quiet_state = (z, s2)" by fastforce
  let ?v = "\<lambda>c. if fst (psync_fast_hash256_final (hw64 env) h c) \<noteq> mr_hash mr then -1 else (0 :: int)"
  have d: "psync_fs_crypto_check_log_hash env hashw lfd mr t = (if mr_hashid mr \<noteq> 0 then (-1, t)
      else case hash_loop env h lfd 4096 ctx t of (None, t) \<Rightarrow> (-1, t) | (Some c, t) \<Rightarrow> (?v c, t))" for t
    by (simp add: psync_fs_crypto_check_log_hash_def i)
  have yz: "io s = [] \<Longrightarrow> y = z" using hash_loop_quiet [of s env h lfd 4096 ctx] l q by simp
  note run = hash_loop_run [OF l]
  show ?thesis
  proof (cases "mr_hashid mr = 0")
    case True
    show ?thesis
    proof (cases y)
      case None
      with True l assms have "x = -1" "s' = s1" by (simp_all add: d)
      with None run show ?thesis by auto
    next
      case (Some c)
      with True l assms have "x = ?v c" "s' = s1" by (simp_all add: d)
      moreover have "z = Some c" using run Some q by simp
      ultimately show ?thesis using run True q by (simp add: d)
    qed
  qed (use assms in \<open>simp add: d\<close>)
qed

lemma log_size_run:
  assumes "log_size lfd s = (n, s')"
  shows "files s' = files s" "io s = [] \<Longrightarrow> n = length lfd \<and> io s' = []"
  using assms by (auto simp: log_size_def files_def Let_def split: prod.splits io_result.splits)

lemma check_master_run:
  assumes "master_size env lfd ch = Inr n" and "check_master env lfd ch s = (x, s')"
  shows "files s' = files s \<and> (io s = [] \<longrightarrow> io s' = [] \<and> x = Inr n) \<and> (x = Inr n \<or> x = Inl (-1))"
proof -
  let ?bs = "take 64 lfd" and ?mr = "read_master (take 64 lfd)"
  obtain crc hashw where c: "psync_crc32c (hw8 env) (hw64 env) (has_hw env) (crc_hashw env) (crc_addr env) 0 (take 56 (take 64 lfd)) = (crc, hashw)"
    by fastforce
  have q: "check_master env lfd ch quiet_state = (Inr n, snd (check_master env lfd ch quiet_state))"
    using assms(1) by (simp add: master_size_def prod_eq_iff)
  let ?rest = "\<lambda>t. if ch then psync_fs_crypto_check_log_hash env hashw lfd ?mr t else (0, t)"
  have d: "check_master env lfd ch t = (case read_log lfd 64 0 t of (None, t) \<Rightarrow> (Inl (-1), t)
      | (Some bs, t) \<Rightarrow> if length ?bs \<noteq> 64 \<or> mr_status ?mr \<noteq> 1 then (Inl (-1), t)
          else case log_size lfd t of (lsize, t) \<Rightarrow> if mr_logsize ?mr \<noteq> lsize \<or> mr_crc ?mr \<noteq> crc then (Inl (-1), t)
          else case ?rest t of (bad, t) \<Rightarrow> if bad \<noteq> 0 then (Inl (-1), t) else (Inr (mr_filesize ?mr), t))" for t
  proof (cases "fst (read_log lfd 64 0 t)")
    case None
    then show ?thesis by (cases "read_log lfd 64 0 t") (simp add: check_master_def)
  next
    case (Some bs)
    then obtain t1 where t1: "read_log lfd 64 0 t = (Some ?bs, t1)"
      using read_log_Some [of lfd 64 0 t] by (cases "read_log lfd 64 0 t") auto
    obtain lsize t2 where "log_size lfd t1 = (lsize, t2)" by fastforce
    with t1 c show ?thesis by (simp add: check_master_def Let_def)
  qed
  from q have ok: "\<not> (length ?bs \<noteq> 64 \<or> mr_status ?mr \<noteq> 1)" "mr_logsize ?mr = length lfd" "mr_crc ?mr = crc" "mr_filesize ?mr = n"
    "fst (?rest quiet_state) = 0"
    by (simp_all add: d read_log_quiet log_size_def quiet_state_def split: if_splits prod.splits)
  obtain y s1 where rd: "read_log lfd 64 0 s = (y, s1)" by fastforce
  obtain lsize s2 where ls: "log_size lfd s1 = (lsize, s2)" by fastforce
  obtain bad s3 where h: "?rest s2 = (bad, s3)" by fastforce
  have rest: "files s3 = files s2" "io s2 = [] \<Longrightarrow> io s3 = [] \<and> bad = 0"
    using h ok(5) check_log_hash_run [of env hashw lfd ?mr s2 bad s3] by (simp_all split: if_splits)
  note runs = read_log_run [OF rd] log_size_run [OF ls]
  show ?thesis
  proof (cases y)
    case None
    then have "x = Inl (-1)" "s' = s1" using assms(2) rd by (simp_all add: d)
    then show ?thesis using None runs by auto
  next
    case (Some bs)
    show ?thesis
    proof (cases "lsize = length lfd")
      case False
      then have "x = Inl (-1)" "s' = s2" using assms(2) rd ls Some ok(1,2) by (simp_all add: d)
      then show ?thesis using runs False by auto
    next
      case True
      then have "x = (if bad \<noteq> 0 then Inl (-1) else Inr n)" "s' = s3"
        using assms(2) rd ls Some ok(1-4) h by (simp_all add: d split: if_splits)
      then show ?thesis using runs rest by auto
    qed
  qed
qed

text \<open>The files as the replay finds them after it has cut them, and all the writes of a complete replay.\<close>

definition prepared :: "nat \<Rightarrow> bytes \<times> bytes option \<Rightarrow> bytes \<times> bytes option" where
  "prepared n f = (file_truncate (fst f) n, map_option (\<lambda>_. []) (snd f))"

definition all_effs :: "bytes \<Rightarrow> nat \<Rightarrow> bool \<Rightarrow> effect list" where
  "all_effs lfd n idx = (case log_effs lfd n idx 4096 [] 0 of
      (es, End_of_log recs ioff) \<Rightarrow> es @ (if recs = [] then [] else [Eff_index (16 * ioff) (index_bytes recs)])
    | (es, _) \<Rightarrow> es)"

lemma all_effs_inside: "inside n (data_writes (all_effs lfd n idx))"
  using log_effs_inside [of n lfd idx 4096 "[]" 0]
  by (auto simp: all_effs_def split: prod.splits replay_end.splits)

lemma length_file_truncate [simp]: "length (file_truncate f n) = n"
  by (simp add: file_truncate_def)

lemma file_truncate_self [simp]: "length f = n \<Longrightarrow> file_truncate f n = f"
  by (simp add: file_truncate_def)

lemma length_prepared_effs:
  assumes "cut ws (all_effs lfd n idx)"
  shows "length (fst (foldl eff (prepared n f) ws)) = n"
  using length_write_all [of "file_truncate (fst f) n" "data_writes ws"] cut_inside [OF assms all_effs_inside]
  by (cases f) (simp add: prepared_def foldl_eff)

text \<open>A complete replay of files that an interrupted one has left gives the same files.\<close>

lemma replay_again:
  assumes "cut ws (all_effs lfd n idx)"
  shows "foldl eff (prepared n (foldl eff (prepared n f) ws)) (all_effs lfd n idx) = foldl eff (prepared n f) (all_effs lfd n idx)"
proof -
  let ?d = "file_truncate (fst f) n" and ?es = "all_effs lfd n idx"
  have "write_all (write_all ?d (data_writes ws)) (data_writes ?es) = write_all ?d (data_writes ?es)"
    using cut_inside [OF assms all_effs_inside] cut_covers [OF assms] all_effs_inside
    by (intro write_all_again) auto
  moreover have "length (write_all ?d (data_writes ws)) = n"
    using length_prepared_effs [OF assms, of f] by (simp add: prepared_def foldl_eff)
  ultimately show ?thesis by (simp add: prepared_def foldl_eff option.map_comp comp_def)
qed

lemma truncate_data_run:
  assumes "truncate_data n s = (ok, s')"
  shows "snd (files s') = snd (files s)" and "fst (files s') = fst (files s) \<or> fst (files s') = file_truncate (fst (files s)) n"
    and "ok \<Longrightarrow> fst (files s') = file_truncate (fst (files s)) n \<and> n < 2 ^ 63" and "io s = [] \<Longrightarrow> io s' = [] \<and> ok = (n < 2 ^ 63)"
  using assms by (auto simp: truncate_data_def seek_truncate_def files_def Let_def split: prod.splits io_result.splits if_splits)

lemma truncate_index_run:
  assumes "truncate_index s = (ok, s')"
  shows "fst (files s') = fst (files s)" and "snd (files s') = snd (files s) \<or> snd (files s') = map_option (\<lambda>_. []) (snd (files s))"
    and "ok \<Longrightarrow> snd (files s') = map_option (\<lambda>_. []) (snd (files s))" and "io s = [] \<Longrightarrow> io s' = [] \<and> ok"
  using assms by (auto simp: truncate_index_def seek_truncate_def file_truncate_def files_def Let_def
    split: prod.splits io_result.splits if_splits option.splits)

lemma prepared_idem: "fst f' = fst f \<or> fst f' = file_truncate (fst f) n \<Longrightarrow>
    snd f' = snd f \<or> snd f' = map_option (\<lambda>_. []) (snd f) \<Longrightarrow> prepared n f' = prepared n f"
  by (auto simp: prepared_def option.map_comp comp_def)

definition quiet_end :: "bytes \<Rightarrow> nat \<Rightarrow> bool \<Rightarrow> replay_end" where
  "quiet_end lfd n idx =
     (if 2 ^ 63 \<le> n then Returned (-1)
      else case snd (log_effs lfd n idx 4096 [] 0) of
             End_of_log recs ioff \<Rightarrow> Returned (if recs \<noteq> [] \<and> (2 ^ 63 \<le> 16 * ioff \<or> \<not> idx) then -1 else 0)
           | e \<Rightarrow> e)"

text \<open>The last part of a replay, behind the loop.\<close>

lemma replay_tail_run:
  assumes "files s = foldl eff (prepared n f) es" and "log_effs lfd n idx 4096 [] 0 = (es, End_of_log recs ioff)"
    and "idx = (snd f \<noteq> None)" and "n < 2 ^ 63"
    and "(if recs \<noteq> [] then flush_index recs ioff s else (True, s)) = (ok, s1)"
    and "(if ok then case truncate_data n s1 of (ok, s) \<Rightarrow> (Returned (if ok then 0 else -1), s) else (Returned (-1), s1)) = (e', s')"
  shows "(\<exists>ws. cut ws (all_effs lfd n idx) \<and> files s' = foldl eff (prepared n f) ws \<and>
      (e' = Returned 0 \<longrightarrow> ws = all_effs lfd n idx)) \<and> (io s = [] \<longrightarrow> io s' = [] \<and> e' = quiet_end lfd n idx)"
proof -
  let ?tail = "if recs = [] then [] else [Eff_index (16 * ioff) (index_bytes recs)]"
  have all: "all_effs lfd n idx = es @ ?tail" using assms(2) by (simp add: all_effs_def)
  have idx: "(ifile s \<noteq> None) = idx" using assms(1,3) by (simp add: files_ifile prepared_def)
  have "\<exists>ws. cut ws (all_effs lfd n idx) \<and> files s1 = foldl eff (prepared n f) ws \<and> (ok \<longrightarrow> ws = all_effs lfd n idx)
      \<and> (io s = [] \<longrightarrow> io s1 = [] \<and> ok = (recs = [] \<or> 16 * ioff < 2 ^ 63 \<and> idx))"
  proof (cases "recs = [] \<or> \<not> idx")
    case True
    then show ?thesis
      using assms(1,5) all idx
      by (auto simp: flush_index_def write_index_def intro!: exI [of _ es] cut_append cut_refl split: if_splits)
  next
    case False
    then have i: "ifile s \<noteq> None" and f: "flush_index recs ioff s = (ok, s1)" using idx assms(5) by simp_all
    from flush_index_run [OF f i] obtain k where
      k: "files s1 = eff (files s) (Eff_index (16 * ioff) (take k (index_bytes recs)))"
      "ok \<longrightarrow> files s1 = eff (files s) (Eff_index (16 * ioff) (index_bytes recs)) \<and> 16 * ioff < 2 ^ 63"
      "io s = [] \<longrightarrow> io s1 = [] \<and> ok = (16 * ioff < 2 ^ 63)" by blast
    show ?thesis
    proof (cases ok)
      case True
      then show ?thesis using k(2,3) all assms(1) False by (intro exI [of _ "all_effs lfd n idx"]) (auto intro: cut_refl)
    next
      case no: False
      then show ?thesis using k(1,3) all assms(1) False
        by (intro exI [of _ "es @ [Eff_index (16 * ioff) (take k (index_bytes recs))]"]) (auto intro!: cut_prepend cut_index)
    qed
  qed
  then obtain ws where ws: "cut ws (all_effs lfd n idx)" "files s1 = foldl eff (prepared n f) ws" "ok \<longrightarrow> ws = all_effs lfd n idx"
    "io s = [] \<longrightarrow> io s1 = [] \<and> ok = (recs = [] \<or> 16 * ioff < 2 ^ 63 \<and> idx)" by blast
  obtain ok2 s2 where t: "truncate_data n s1 = (ok2, s2)" by fastforce
  have "fst (files s2) = fst (files s1)"
    using truncate_data_run(2) [OF t] length_prepared_effs [OF ws(1), of f] ws(2) by auto
  then have "files s2 = files s1" using truncate_data_run(1) [OF t] by (simp add: prod_eq_iff)
  moreover have "quiet_end lfd n idx = Returned (if recs \<noteq> [] \<and> (2 ^ 63 \<le> 16 * ioff \<or> \<not> idx) then -1 else 0)"
    using assms(2,4) by (simp add: quiet_end_def)
  ultimately show ?thesis using assms(6) t ws truncate_data_run(4) [OF t] assms(4) by (auto split: if_splits)
qed

lemma replay_record_nonzero: "replay_record lfd size0 off hdr recs ioff s = (Inl e, s') \<Longrightarrow> e \<noteq> Returned 0"
  by (auto simp: replay_record_def Let_def split: if_splits prod.splits option.splits)

lemma replay_loop_nonzero: "replay_loop lfd size0 off recs ioff s = (e, s') \<Longrightarrow> e \<noteq> Returned 0"
proof (induction lfd size0 off recs ioff s arbitrary: e s' rule: replay_loop.induct)
  case (1 lfd size0 off recs ioff s)
  obtain y s1 where r: "read_log lfd 16 off s = (y, s1)" by fastforce
  note run = 1(2) [unfolded replay_loop.simps [of lfd size0 off] r]
  show ?case
  proof (cases "y = None \<or> y = Some [] \<or> (\<exists>bs. y = Some bs \<and> length bs \<noteq> 16)")
    case False
    then obtain bs where bs: "y = Some bs" "bs \<noteq> []" "\<not> length bs \<noteq> 16" by (cases y) auto
    obtain x s2 where rec: "replay_record lfd size0 (off + 16) (read_header bs) recs ioff s1 = (x, s2)" by fastforce
    show ?thesis
    proof (cases x)
      case (Inl e1)
      then show ?thesis using replay_record_nonzero rec run bs by (auto split: if_splits)
    next
      case (Inr z)
      obtain off' recs' ioff' where z: "z = (off', recs', ioff')" by (cases z) auto
      have "replay_loop lfd size0 off' recs' ioff' s2 = (e, s')" using run bs rec Inr z by simp
      from 1(1) [OF r [symmetric] bs rec [symmetric] Inr z [symmetric] refl this] show ?thesis .
    qed
  qed (use run in \<open>auto split: if_splits\<close>)
qed

lemma process_log_run:
  assumes "master_size env lfd ch = Inr n" and "psync_fs_crypto_process_log env lfd ch s = (e', s')"
    and "idx = (snd (files s) \<noteq> None)"
  shows "(prepared n (files s') = prepared n (files s) \<and> e' \<noteq> Returned 0 \<or>
      (\<exists>ws. cut ws (all_effs lfd n idx) \<and> files s' = foldl eff (prepared n (files s)) ws \<and> (e' = Returned 0 \<longrightarrow> ws = all_effs lfd n idx)))
    \<and> (snd (files s') \<noteq> None) = idx \<and> (io s = [] \<longrightarrow> io s' = [] \<and> e' = quiet_end lfd n idx)"
proof -
  obtain x s1 where m: "check_master env lfd ch s = (x, s1)" by fastforce
  obtain ok2 s2 where t: "truncate_data n s1 = (ok2, s2)" by fastforce
  obtain ok3 s3 where u: "truncate_index s2 = (ok3, s3)" by fastforce
  obtain e4 s4 where l: "replay_loop lfd n 4096 [] 0 s3 = (e4, s4)" by fastforce
  note mr = check_master_run [OF assms(1) m] and tr = truncate_data_run [OF t] and ur = truncate_index_run [OF u]
  have p: "psync_fs_crypto_process_log env lfd ch s = (case x of Inl e \<Rightarrow> (Returned e, s1) | Inr n' \<Rightarrow>
      if \<not> ok2 then (Returned (-1), s2) else if \<not> ok3 then (Returned (-1), s3)
      else case (e4, s4) of (End_of_log recs ioff, s) \<Rightarrow>
          case (if recs \<noteq> [] then flush_index recs ioff s else (True, s)) of (ok, s) \<Rightarrow>
            if ok then case truncate_data n s of (ok, s) \<Rightarrow> (Returned (if ok then 0 else -1), s) else (Returned (-1), s)
        | (e, s) \<Rightarrow> (e, s))"
    using mr m t u l by (cases x; cases e4) (auto simp: psync_fs_crypto_process_log_def Let_def split: prod.splits)
  show ?thesis
  proof (cases "x = Inr n \<and> ok2 \<and> ok3")
    case False
    then have "e' = Returned (-1)" "s' = (if x \<noteq> Inr n then s1 else if \<not> ok2 then s2 else s3)"
      using p assms(2) mr by (auto split: if_splits)
    moreover have "prepared n (files s1) = prepared n (files s)" "prepared n (files s2) = prepared n (files s)"
      "prepared n (files s3) = prepared n (files s)"
      using mr tr(1,2) ur(1,2) by (auto intro!: prepared_idem)
    moreover have "(snd (files s1) \<noteq> None) = idx" "(snd (files s2) \<noteq> None) = idx" "(snd (files s3) \<noteq> None) = idx"
      using mr tr(1) ur(2) assms(3) by auto
    moreover have "io s = [] \<Longrightarrow> x = Inr n \<and> ok3 \<and> \<not> n < 2 ^ 63 \<and> io s2 = [] \<and> io s3 = [] \<and> \<not> ok2"
      using mr tr(4) ur(4) False by auto
    ultimately show ?thesis by (auto simp: quiet_end_def)
  next
    case True
    then have f3: "files s3 = prepared n (files s)" and n: "n < 2 ^ 63" using mr tr(1,3) ur(1,3) by (auto simp: prepared_def prod_eq_iff)
    have i3: "(ifile s3 \<noteq> None) = idx" using f3 assms(3) by (simp add: files_ifile prepared_def)
    have q3: "io s = [] \<longrightarrow> io s3 = []" using mr tr(4) ur(4) by auto
    have ix: "(snd (foldl eff (prepared n (files s)) ws) \<noteq> None) = idx" for ws using assms(3) by (simp add: prepared_def)
    let ?es = "fst (log_effs lfd n idx 4096 [] 0)" and ?e = "snd (log_effs lfd n idx 4096 [] 0)"
    have lr: "follows (io s3 = []) (finished e4) e4 ?e ?es (prepared n (files s)) (files s4) \<and> (io s3 = [] \<longrightarrow> io s4 = [])"
      using replay_loop_run [OF l] i3 f3 by simp
    show ?thesis
    proof (cases "finished e4")
      case True
      then obtain recs ioff where e4: "e4 = End_of_log recs ioff" by (cases e4) auto
      then have le: "log_effs lfd n idx 4096 [] 0 = (?es, End_of_log recs ioff)" and f4: "files s4 = foldl eff (prepared n (files s)) ?es"
        using lr True by (auto simp: follows_def prod_eq_iff)
      obtain ok s5 where fl: "(if recs \<noteq> [] then flush_index recs ioff s4 else (True, s4)) = (ok, s5)" by fastforce
      have "(if ok then case truncate_data n s5 of (ok, s) \<Rightarrow> (Returned (if ok then 0 else -1), s) else (Returned (-1), s5)) = (e', s')"
        using p assms(2) \<open>x = Inr n \<and> ok2 \<and> ok3\<close> e4 fl by simp
      from replay_tail_run [OF f4 le assms(3) n fl this] obtain ws where
        ws: "cut ws (all_effs lfd n idx)" "files s' = foldl eff (prepared n (files s)) ws" "e' = Returned 0 \<longrightarrow> ws = all_effs lfd n idx"
        "io s4 = [] \<longrightarrow> io s' = [] \<and> e' = quiet_end lfd n idx" by blast
      have "io s = [] \<longrightarrow> io s4 = []" using q3 lr by blast
      with ws ix [of ws] show ?thesis by auto
    next
      case False
      then have r: "e' = e4" "s' = s4" using p assms(2) \<open>x = Inr n \<and> ok2 \<and> ok3\<close> by (cases e4; simp)+
      obtain ws where ws: "cut ws ?es" "files s4 = foldl eff (prepared n (files s)) ws" "io s3 = [] \<longrightarrow> ws = ?es \<and> e4 = ?e"
        using lr by (auto simp: follows_def)
      have "cut ws (all_effs lfd n idx)"
        using ws(1) by (auto simp: all_effs_def split: prod.splits replay_end.splits intro: cut_append)
      moreover have "e4 \<noteq> Returned 0" using replay_loop_nonzero [OF l] .
      moreover have "quiet_end lfd n idx = e4" if "io s = []" using that ws(3) q3 n False by (cases ?e) (auto simp: quiet_end_def)
      moreover have "io s = [] \<longrightarrow> io s4 = []" using q3 lr by blast
      ultimately show ?thesis using r ws(2) ix [of ws] by auto
    qed
  qed
qed

lemma check_master_quiet:
  assumes "io s = []"
  shows "fst (check_master env lfd ch s) = master_size env lfd ch"
proof -
  obtain bs where bs: "bs = take 64 (drop 0 lfd)" by simp
  let ?h = "\<lambda>hashw t. psync_fs_crypto_check_log_hash env hashw lfd (read_master bs) t"
  obtain crc hashw where c: "psync_crc32c (hw8 env) (hw64 env) (has_hw env) (crc_hashw env) (crc_addr env) 0 (take 56 bs) = (crc, hashw)"
    by fastforce
  have "fst (check_master env lfd ch t) = (if length bs \<noteq> 64 \<or> mr_status (read_master bs) \<noteq> 1 \<or> mr_logsize (read_master bs) \<noteq> length lfd
      \<or> mr_crc (read_master bs) \<noteq> crc \<or> ch \<and> fst (?h hashw quiet_state) \<noteq> 0 then Inl (-1) else Inr (mr_filesize (read_master bs)))"
    if t: "io t = []" for t
  proof -
    obtain bad t' where h: "?h hashw t = (bad, t')" by fastforce
    then have "bad = fst (?h hashw quiet_state)" using check_log_hash_run [OF h] t by simp
    moreover have "read_log lfd 64 0 t = (Some bs, t)" "log_size lfd t = (length lfd, t)"
      using t by (simp_all add: bs read_log_quiet log_size_def)
    ultimately show ?thesis using c h by (simp add: check_master_def Let_def)
  qed
  from this [OF assms] this [of quiet_state] show ?thesis by (simp add: master_size_def quiet_state_def)
qed

lemma check_master_Inl: "fst (check_master env lfd ch s) = Inl e \<Longrightarrow> e = -1"
  by (auto simp: check_master_def Let_def split: if_splits prod.splits option.splits)

lemma process_log_zero_master:
  assumes "psync_fs_crypto_process_log env lfd ch s = (Returned 0, s')" and "io s = []"
  shows "\<exists>n. master_size env lfd ch = Inr n"
proof (cases "master_size env lfd ch")
  case (Inl e)
  then have "fst (check_master env lfd ch s) = Inl e" using check_master_quiet [OF assms(2)] by simp
  then have "fst (psync_fs_crypto_process_log env lfd ch s) = Returned (-1)"
    using check_master_Inl [of env lfd ch s e] by (cases "check_master env lfd ch s") (simp add: psync_fs_crypto_process_log_def)
  with assms(1) show ?thesis by simp
qed auto

end
