(* ===== verification/Pfscryptofile.thy ===== *)
theory Pfscryptofile
  imports Pfscryptolog Pcrypto Pintervaltree
begin

section \<open>Reading and writing an encrypted file through its log\<close>

text \<open>
  The functions of \<^verbatim>\<open>src/src/psync/pfscrypto.c\<close> that append to the log of an open file, finalize it and read
  sectors back from it.  The state is the part of \<^verbatim>\<open>psync_openfile_t\<close> that they use: the log with its
  offset and its running hash, the data file, the tree of the sectors that are in the log, and the
  intervals that have been written.  A file that is not open (\<^verbatim>\<open>INVALID_HANDLE_VALUE\<close>) is \<open>None\<close>.
  \<open>None\<close> as a result is a failed assertion or a fault.  Functions that allocate take the address that the
  allocation returns, those that do input and output the results of their calls.
\<close>

subsection \<open>State\<close>

record crypto_key =
  key_enc :: "bytes \<Rightarrow> bytes"
  key_dec :: "bytes \<Rightarrow> bytes"
  key_sha :: "bytes \<Rightarrow> bytes"
  key_iv :: bytes

record psync_openfile_t =
  logfile :: "bytes option"
  datafile :: bytes
  logoffset :: nat
  loghashctx :: psync_fast_hash256_ctx
  currentsize :: nat
  newfile :: bool
  writeintervals :: itree
  sectorsinlog :: "addr ptree"
  sectorid :: "addr \<Rightarrow> nat"
  sectoroff :: "addr \<Rightarrow> nat"
  sectorauth :: "addr \<Rightarrow> bytes"

definition EIO :: int where "EIO = 5"

definition log_pwrite :: "bytes option \<Rightarrow> bytes \<Rightarrow> nat \<Rightarrow> io_result \<Rightarrow> int \<times> bytes option" where
  "log_pwrite f data off r =
     (case f of None \<Rightarrow> (-1, None) | Some b \<Rightarrow> (case psync_file_pwrite b data off r of (wrt, b') \<Rightarrow> (wrt, Some b')))"

definition log_pread :: "bytes option \<Rightarrow> nat \<Rightarrow> nat \<Rightarrow> io_result \<Rightarrow> bytes option" where
  "log_pread f cnt off r = Option.bind f (\<lambda>b. psync_file_pread b cnt off r)"

subsection \<open>Starting and resetting the log\<close>

text \<open>The second result is the value of the cached choice of the CRC implementation afterwards.\<close>

definition psync_fs_crypto_init_log :: "crc_env \<Rightarrow> io_result \<Rightarrow> psync_openfile_t \<Rightarrow> int \<times> psync_openfile_t \<times> int" where
  "psync_fs_crypto_init_log env r fl =
     (let (wrt, f) = log_pwrite (logfile fl) (replicate PSYNC_CRYPTO_SECTOR_SIZE 0xff) 0 r in
      if wrt \<noteq> int PSYNC_CRYPTO_SECTOR_SIZE then (- EIO, fl\<lparr>logfile := f\<rparr>, crc_hashw env)
      else let (ctx, hashw) = psync_fast_hash256_init (has_hw env) (crc_hashw env) (loghashctx fl)
           in (0, fl\<lparr>logfile := f, logoffset := PSYNC_CRYPTO_SECTOR_SIZE, loghashctx := ctx\<rparr>, hashw))"

text \<open>
  The results of the calls of \<open>psync_fs_crypto_reset_log_to_off\<close>: the sizes of the log and of the data file,
  cutting the log, creating a new log and writing its first sector.
\<close>

record reset_io =
  log_stat :: bool
  log_cut :: io_result
  data_stat :: bool
  log_open :: bool
  log_init :: io_result

definition psync_fs_crypto_reset_log_to_off :: "crc_env \<Rightarrow> reset_io \<Rightarrow> nat \<Rightarrow> psync_openfile_t \<Rightarrow> psync_openfile_t option" where
  "psync_fs_crypto_reset_log_to_off env rio off fl =
     (let sz = (case logfile fl of None \<Rightarrow> -1 | Some f \<Rightarrow> if log_stat rio then int (length f) else -1);
          (cut_ok, f) = (case logfile fl of None \<Rightarrow> (False, None)
             | Some f \<Rightarrow> if sz > int off then map_prod id Some (seek_truncate f off (log_cut rio)) else (True, Some f));
          fl = fl\<lparr>logfile := f\<rparr>
      in if sz = -1 \<or> sz < int off \<or> sz > int off \<and> \<not> cut_ok
         then if \<not> data_stat rio then Some fl
              else case psync_fs_crypto_plain_size (length (datafile fl)) of
                     Inl e \<Rightarrow> None
                   | Inr n \<Rightarrow>
                       let fl = fl\<lparr>currentsize := n\<rparr> in
                       if \<not> log_open rio then Some (fl\<lparr>logfile := None\<rparr>)
                       else Some (fst (snd (psync_fs_crypto_init_log env (log_init rio) (fl\<lparr>logfile := Some []\<rparr>))))
         else Some fl)"

subsection \<open>The sectors in the log\<close>

text \<open>The walk compares the difference of two 32-bit numbers, read as a signed number, with 0.\<close>

fun sector_search :: "(addr \<Rightarrow> nat) \<Rightarrow> nat \<Rightarrow> addr crumb list \<Rightarrow> addr ptree \<Rightarrow> addr + addr crumb list" where
  "sector_search ids sid cs PNull = Inr cs"
| "sector_search ids sid cs (PNode l x h r) =
     (let d = sub32 sid (ids x) in
      if 2 ^ 31 \<le> d then sector_search ids sid (InLeft x h r # cs) l
      else if 0 < d then sector_search ids sid (InRight l x h # cs) r
      else Inl x)"

definition psync_fs_crypto_set_sector_log_offset :: "addr \<Rightarrow> nat \<Rightarrow> nat \<Rightarrow> bytes \<Rightarrow> psync_openfile_t \<Rightarrow> psync_openfile_t option" where
  "psync_fs_crypto_set_sector_log_offset new sid offset auth fl =
     (case sector_search (sectorid fl) sid [] (sectorsinlog fl) of
        Inl x \<Rightarrow> Some (fl\<lparr>sectoroff := (sectoroff fl)(x := offset), sectorauth := (sectorauth fl)(x := auth)\<rparr>)
      | Inr cs \<Rightarrow> map_option (\<lambda>t. fl\<lparr>sectorsinlog := t, sectorid := (sectorid fl)(new := sid),
                     sectoroff := (sectoroff fl)(new := offset), sectorauth := (sectorauth fl)(new := auth)\<rparr>)
                   (psync_tree_get_added_at cs new))"

subsection \<open>Appending to the log\<close>

definition data_header :: "nat \<Rightarrow> nat \<Rightarrow> psync_crypto_log_header" where
  "data_header len off = \<lparr>rectype = PSYNC_CRYPTO_LOG_DATA, finalized = 0, reclength = uint16 len, longlengthlo = 0, recoffset = off\<rparr>"

definition log_appended :: "crc_env \<Rightarrow> bytes option \<Rightarrow> bytes \<Rightarrow> psync_openfile_t \<Rightarrow> psync_openfile_t" where
  "log_appended env f data fl =
     fl\<lparr>logfile := f, logoffset := uint32 (logoffset fl + length data),
        loghashctx := psync_fast_hash256_update (hw64 env) (crc_hashw env) (loghashctx fl) data\<rparr>"

definition psync_fs_crypt_add_sector_to_interval_tree :: "addr \<Rightarrow> nat \<Rightarrow> nat \<Rightarrow> psync_openfile_t \<Rightarrow> psync_openfile_t option" where
  "psync_fs_crypt_add_sector_to_interval_tree new sid size0 fl =
     (let offset = uint64 (psync_fs_crypto_data_sectorid_by_sectorid sid * PSYNC_CRYPTO_SECTOR_SIZE) in
      map_option (\<lambda>it. fl\<lparr>writeintervals := it\<rparr>)
        (psync_interval_tree_add (writeintervals fl) new (word_of_nat offset) (word_of_nat (offset + size0))))"

text \<open>The random bytes and the alignment of the buffers are those of the call of the encoder; \<open>new\<close> and \<open>new'\<close>
  are the addresses for the nodes of the two trees.\<close>

definition psync_fs_crypto_write_newfile_full_sector :: "crc_env \<Rightarrow> crypto_key \<Rightarrow> bytes \<Rightarrow> bool \<Rightarrow> addr \<Rightarrow> addr \<Rightarrow> io_result \<Rightarrow> reset_io
    \<Rightarrow> bytes \<Rightarrow> nat \<Rightarrow> psync_openfile_t \<Rightarrow> (int \<times> psync_openfile_t) option" where
  "psync_fs_crypto_write_newfile_full_sector env key rnd al new new' r rio buf sid fl =
     (if \<not> length buf \<le> PSYNC_CRYPTO_SECTOR_SIZE then None
      else Option.bind (psync_crypto_aes256_encode_sector (key_enc key) (key_sha key) (key_iv key) rnd al buf (word_of_nat sid))
        (\<lambda>(out, auth).
          let rec = header_bytes (data_header (length buf) (psync_fs_crypto_data_offset_by_sectorid sid)) @ out;
              (wrt, f) = log_pwrite (logfile fl) rec (logoffset fl) r in
          if wrt \<noteq> int (length rec)
          then map_option (\<lambda>fl. (- EIO, fl)) (psync_fs_crypto_reset_log_to_off env rio (logoffset fl) (fl\<lparr>logfile := f\<rparr>))
          else Option.bind (psync_fs_crypto_set_sector_log_offset new sid (logoffset fl) auth fl) (\<lambda>fl.
                 let fl = log_appended env f rec fl in
                 if newfile fl then Some (0, fl)
                 else map_option (\<lambda>fl. (0, fl)) (psync_fs_crypt_add_sector_to_interval_tree new' sid (length buf) fl))))"

definition psync_fs_crypto_write_master_auth :: "crc_env \<Rightarrow> crypto_key \<Rightarrow> addr \<Rightarrow> io_result \<Rightarrow> bytes list \<Rightarrow> psync_crypto_offsets_t
    \<Rightarrow> psync_openfile_t \<Rightarrow> (int \<times> psync_openfile_t) option" where
  "psync_fs_crypto_write_master_auth env key new r autharr offsets fl =
     (let level = treelevels offsets - 1; len = lastauthsectorlen offsets ! level in
      if \<not> (0 < treelevels offsets \<and> level < length autharr \<and> 0 < len \<and> len \<le> PSYNC_CRYPTO_SECTOR_SIZE) then None
      else let auth = psync_crypto_sign_auth_sector (key_enc key) (key_sha key) (key_iv key) (take len (autharr ! level));
               data = header_bytes (data_header PSYNC_CRYPTO_AUTH_SIZE (masterauthoff offsets)) @ auth;
               (wrt, f) = log_pwrite (logfile fl) data (logoffset fl) r in
        if wrt \<noteq> int (length data) then Some (- EIO, fl\<lparr>logfile := f\<rparr>)
        else let fl = log_appended env f data fl in
             if newfile fl then Some (0, fl)
             else map_option (\<lambda>it. (0, fl\<lparr>writeintervals := it\<rparr>))
                    (psync_interval_tree_add (writeintervals fl) new (word_of_nat (masterauthoff offsets))
                       (word_of_nat (masterauthoff offsets + PSYNC_CRYPTO_AUTH_SIZE))))"

text \<open>The signatures of one level of the tree, as \<open>psync_fs_crypto_switch_sectors\<close> writes them: the header and the data
  with a write and an update of the hash each.\<close>

definition write_tree_sector :: "crc_env \<Rightarrow> addr \<Rightarrow> io_result \<Rightarrow> io_result \<Rightarrow> nat \<Rightarrow> bytes \<Rightarrow> psync_openfile_t \<Rightarrow> (int \<times> psync_openfile_t) option" where
  "write_tree_sector env new r1 r2 off data fl =
     (let hdr = header_bytes (data_header (length data) off);
          (wrt, f) = log_pwrite (logfile fl) hdr (logoffset fl) r1 in
      if wrt \<noteq> int (length hdr) then Some (- EIO, fl\<lparr>logfile := f\<rparr>)
      else let ctx = psync_fast_hash256_update (hw64 env) (crc_hashw env) (loghashctx fl) hdr;
               (wrt, f) = log_pwrite f data (logoffset fl + length hdr) r2 in
        if wrt \<noteq> int (length data) then Some (- EIO, fl\<lparr>logfile := f, loghashctx := ctx\<rparr>)
        else let ctx = psync_fast_hash256_update (hw64 env) (crc_hashw env) ctx data in
             map_option (\<lambda>it. (0, fl\<lparr>logfile := f, loghashctx := ctx, writeintervals := it,
                                     logoffset := uint32 (logoffset fl + (length data + length hdr))\<rparr>))
               (if newfile fl then Some (writeintervals fl)
                else psync_interval_tree_add (writeintervals fl) new (word_of_nat off) (word_of_nat (off + length data))))"

text \<open>The intervals go through an array of 256 headers; the byte of a header that the code does not set is \<open>junk\<close>.\<close>

definition int_header :: "nat \<Rightarrow> nat \<Rightarrow> nat \<Rightarrow> psync_crypto_log_header" where
  "int_header junk from len =
     \<lparr>rectype = PSYNC_CRYPTO_LOG_INT, finalized = junk, reclength = uint16 (len div 2 ^ 32), longlengthlo = len mod 2 ^ 32, recoffset = from\<rparr>"

definition flush_headers :: "crc_env \<Rightarrow> io_result \<Rightarrow> psync_crypto_log_header list \<Rightarrow> psync_openfile_t \<Rightarrow> bool \<times> psync_openfile_t" where
  "flush_headers env r logs fl =
     (let data = concat (map header_bytes logs); (wrt, f) = log_pwrite (logfile fl) data (logoffset fl) r in
      if wrt \<noteq> int (length data) then (False, fl\<lparr>logfile := f\<rparr>) else (True, log_appended env f data fl))"

fun interval_loop :: "crc_env \<Rightarrow> (nat \<Rightarrow> nat) \<Rightarrow> io_result list \<Rightarrow> (nat \<times> nat) list \<Rightarrow> psync_crypto_log_header list
    \<Rightarrow> psync_openfile_t \<Rightarrow> (int \<times> psync_openfile_t) option" where
  "interval_loop env junk rs [] logs fl =
     (if logs = [] then Some (0, fl)
      else let (ok, fl) = flush_headers env (fst (next_io rs)) logs fl in Some (if ok then 0 else - EIO, fl))"
| "interval_loop env junk rs ((from, to) # itvs) logs fl =
     (let (ok, rs, logs, fl) =
        (if length logs = 256
         then let (ok, fl) = flush_headers env (fst (next_io rs)) logs fl in (ok, snd (next_io rs), [], fl)
         else (True, rs, logs, fl));
          len = sub64 to from
      in if \<not> ok then Some (- EIO, fl)
         else if len div 2 ^ 48 \<noteq> 0 then None
         else interval_loop env junk rs itvs (logs @ [int_header (junk (length logs)) from len]) fl)"

definition interval_list :: "itree \<Rightarrow> (nat \<times> nat) list" where
  "interval_list it = map (\<lambda>e. (unat (ifrom it e), unat (ito it e))) (inorder (root it))"

definition psync_fs_write_interval_tree_to_log :: "crc_env \<Rightarrow> (nat \<Rightarrow> nat) \<Rightarrow> io_result list \<Rightarrow> psync_openfile_t \<Rightarrow> (int \<times> psync_openfile_t) option" where
  "psync_fs_write_interval_tree_to_log env junk rs fl = interval_loop env junk rs (interval_list (writeintervals fl)) [] fl"

definition psync_fs_crypto_mark_log_finalized :: "crc_env \<Rightarrow> bytes \<Rightarrow> bool \<Rightarrow> io_result \<Rightarrow> nat \<Rightarrow> psync_openfile_t \<Rightarrow> (int \<times> psync_openfile_t) option" where
  "psync_fs_crypto_mark_log_finalized env pad stat_ok r filesize fl =
     (case logfile fl of
        None \<Rightarrow> Some (- EIO, fl)
      | Some f \<Rightarrow>
          if \<not> stat_ok then Some (- EIO, fl)
          else if word_of_nat (length f) \<noteq> length_ctx (loghashctx fl) + word_of_nat PSYNC_CRYPTO_SECTOR_SIZE then None
          else let (hash, ctx) = psync_fast_hash256_final (hw64 env) (crc_hashw env) (loghashctx fl);
                   mr = \<lparr>mr_status = PSYNC_LOG_STATUS_FINALIZED, mr_hashid = PSYNC_LOG_HASHID_FH256, mr_logsize = length f,
                         mr_filesize = filesize, mr_hash = hash, mr_crc = 0\<rparr>;
                   crc = fst (psync_crc32c (hw8 env) (hw64 env) (has_hw env) (crc_hashw env) (crc_addr env) 0 (master_prefix mr));
                   (wrt, f) = log_pwrite (Some f) (master_prefix mr @ le_bytes 4 (unat crc) @ pad) 0 r;
                   fl = fl\<lparr>logfile := f, loghashctx := ctx\<rparr>
               in Some (if wrt \<noteq> 64 then - EIO else 0, fl))"

subsection \<open>Contents of the log\<close>

definition fh_start :: fh_state where
  "fh_start = (let w = words64 6 (table_row_bytes 0) in (w ! 0, w ! 1, w ! 2, w ! 3, w ! 4, w ! 5))"

text \<open>The log holds the records \<open>c\<close> behind its first sector, and the hash has been fed with them.\<close>

definition log_holds :: "psync_openfile_t \<Rightarrow> bytes \<Rightarrow> bool" where
  "log_holds fl c \<longleftrightarrow> logfile fl = Some (replicate 4096 0xff @ c) \<and> logoffset fl = 4096 + length c \<and> represents fh_start c (loghashctx fl)"

lemma init_represents:
  assumes "length (buff ctx) = 64"
  shows "represents fh_start [] (fst (psync_fast_hash256_init hw h ctx))"
  using assms round_cdata_short [of "[]"]
  by (simp add: represents_def psync_fast_hash256_init_def fh_start_def FH_LOAD_STATE_def words64_def PSYNC_FAST_HASH256_BLOCK_LEN_def Let_def)

lemma file_write_end: "file_write f (length f) data = f @ data"
  by (simp add: file_write_def)

lemma log_pwrite_done:
  assumes "log_pwrite f data off r = (wrt, f')" and "wrt = int (length data)"
  shows "\<exists>b. f = Some b \<and> f' = Some (file_write b off data)"
  using assms by (cases f; cases r) (auto simp: log_pwrite_def psync_file_pwrite_def split: if_splits)

lemma log_append_holds:
  assumes "log_holds fl c" and "log_pwrite (logfile fl) data (logoffset fl) r = (int (length data), f)"
    and "4096 + length c + length data < 2 ^ 32" and "crc_hashw env = 2 \<Longrightarrow> sse42 (hw8 env) (hw64 env)"
  shows "log_holds (log_appended env f data fl) (c @ data)"
proof -
  have f: "f = Some (replicate 4096 0xff @ c @ data)"
    using log_pwrite_done [OF assms(2) refl] assms(1) file_write_end [of "replicate 4096 0xff @ c" data] by (auto simp: log_holds_def)
  have "represents fh_start (c @ data) (psync_fast_hash256_update (hw64 env) (crc_hashw env) (loghashctx fl) data)"
    using assms(1) by (intro update_represents [OF _ assms(4)]) (simp add: log_holds_def)
  then show ?thesis using f assms(1,3) by (simp add: log_holds_def log_appended_def fits)
qed

lemma init_log_holds:
  assumes "logfile fl = Some []" and "length (buff (loghashctx fl)) = 64" and "psync_fs_crypto_init_log env r fl = (0, fl', h)"
  shows "log_holds fl' []" "h = (if crc_hashw env = 0 then of_bool (has_hw env) + 1 else crc_hashw env)"
proof -
  obtain wrt f where w: "log_pwrite (logfile fl) (replicate 4096 0xff) 0 r = (wrt, f)" by fastforce
  with assms(3) have "wrt = int (length (replicate 4096 (0xff :: u8)))"
    by (auto simp: psync_fs_crypto_init_log_def EIO_def split: if_splits)
  from log_pwrite_done [OF w this] assms(1) have "f = Some (replicate 4096 0xff)"
    using file_write_end [of "[]"] by auto
  obtain ctx k where c: "psync_fast_hash256_init (has_hw env) (crc_hashw env) (loghashctx fl) = (ctx, k)" by fastforce
  then have "represents fh_start [] ctx" "k = (if crc_hashw env = 0 then of_bool (has_hw env) + 1 else crc_hashw env)"
    using init_represents [OF assms(2), of "has_hw env" "crc_hashw env"] by (auto simp: psync_fast_hash256_init_def)
  moreover have "fl' = fl\<lparr>logfile := f, logoffset := 4096, loghashctx := ctx\<rparr>" "h = k"
    using assms(3) w c by (auto simp: psync_fs_crypto_init_log_def EIO_def split: if_splits)
  ultimately show "log_holds fl' []" "h = (if crc_hashw env = 0 then of_bool (has_hw env) + 1 else crc_hashw env)"
    using \<open>f = Some (replicate 4096 0xff)\<close> by (simp_all add: log_holds_def)
qed

text \<open>A data record, and the records of a list of intervals.\<close>

definition data_rec :: "nat \<times> bytes \<Rightarrow> bytes" where
  "data_rec w = header_bytes (data_header (length (snd w)) (fst w)) @ snd w"

definition data_recs :: "(nat \<times> bytes) list \<Rightarrow> bytes" where
  "data_recs ws = concat (map data_rec ws)"

lemma length_header [simp]: "length (header_bytes h) = 16"
  by (simp add: header_bytes_def)

lemma length_data_rec [simp]: "length (data_rec w) = 16 + length (snd w)"
  by (simp add: data_rec_def)

lemma data_recs_simps [simp]: "data_recs [] = []" "data_recs (w # ws) = data_rec w @ data_recs ws"
  "data_recs (ws @ ws') = data_recs ws @ data_recs ws'"
  by (simp_all add: data_recs_def)

lemma length_headers [simp]: "length (concat (map header_bytes hs)) = 16 * length hs"
  by (induction hs) auto

text \<open>The keys of a file and the lengths of what they produce.\<close>

definition key_ok :: "crypto_key \<Rightarrow> bool" where
  "key_ok key \<longleftrightarrow> aes_ok (key_enc key) (key_dec key) \<and> (\<forall>x. length (key_sha key x) = 64)"

lemma length_encode_2blocks: "aes_ok enc dec \<Longrightarrow> 32 \<le> length x \<Longrightarrow> length (encode_2blocks_consec enc x) = 32"
  by (simp add: encode_2blocks_consec_def)

lemma encode_sector_length:
  assumes "aes_ok enc dec" and "\<forall>x. length (sha x) = 64" and "length rnd = BS"
    and "psync_crypto_aes256_encode_sector enc sha iv rnd al data sid = Some (out, auth)"
  shows "length out = length data"
proof (cases "length data < BS")
  case True
  with assms(3,4) show ?thesis by (auto simp: psync_crypto_aes256_encode_sector_def Let_def)
next
  case False
  let ?hm = "take BS (sector_hmac sha iv data sid rnd)" and ?s = "length data mod 16"
  define dl where dl: "dl = (if ?s \<noteq> 0 then length data - (?s + BS) else length data)"
  obtain o1 l where o: "cbc_sector enc al (dl div BS) ?hm data = (o1, l)" by fastforce
  have ge: "BS \<le> length data" using False by simp
  note sp = steal_split [OF ge dl]
  have hm: "length ?hm = BS" using assms(2) by (simp add: sector_hmac_eq psync_hmac_sha512_def)
  have o1: "length o1 = dl" "length l = BS" using cbc_sector_decode [OF assms(1) hm _ o] sp(1,2) by simp_all
  show ?thesis
  proof (cases "?s = 0")
    case True
    with assms(4) False o o1(1) show ?thesis by (simp add: psync_crypto_aes256_encode_sector_def Let_def dl)
  next
    case ns: False
    let ?p = "take BS (drop dl data)" and ?c = "enc (xor16_unaligned_inplace l (drop dl data))"
    have len: "length data = dl + BS + ?s" by (rule sp(3) [OF ns])
    then have "length (drop dl data) = BS + ?s" by simp
    then have "length (xor16_unaligned_inplace l (drop dl data)) = BS" using o1(2) by (simp add: xor16_unaligned_inplace_def)
    then have c: "length ?c = BS" using assms(1) by simp
    have "map_option (\<lambda>aesdst. (o1 @ copy_unaligned (enc aesdst) @ take ?s ?c,
        encode_2blocks_consec enc (take 8 rnd @ ?hm @ take 8 (drop 8 rnd)))) (xor_cnt_inplace ?c (drop BS (drop dl data)) ?s) = Some (out, auth)"
      using assms(4) False ns o by (simp add: psync_crypto_aes256_encode_sector_def Let_def dl)
    then obtain x where x: "xor_cnt_inplace ?c (drop BS (drop dl data)) ?s = Some x" "out = o1 @ copy_unaligned (enc x) @ take ?s ?c"
      by auto
    have "length x = BS" using x(1) c len by (auto simp: xor_cnt_inplace_def split: if_splits)
    then have "length (enc x) = BS" using assms(1) by simp
    with x(2) o1 c len show ?thesis by (simp add: copy_unaligned_def)
  qed
qed

lemma length_sign_auth: "key_ok key \<Longrightarrow> length (psync_crypto_sign_auth_sector (key_enc key) (key_sha key) (key_iv key) x) = 32"
  unfolding psync_crypto_sign_auth_sector_def key_ok_def
  by (intro length_encode_2blocks [of _ "key_dec key"]) (auto simp: psync_hmac_sha512_def)

text \<open>The operations that append records, with the bytes that they put into the log.\<close>

inductive log_run :: "crc_env \<Rightarrow> crypto_key \<Rightarrow> psync_openfile_t \<Rightarrow> (nat \<times> bytes) list \<Rightarrow> psync_openfile_t \<Rightarrow> bool"
  for env :: crc_env and key :: crypto_key and fl :: psync_openfile_t where
  run_start: "log_run env key fl [] fl"
| run_sector: "\<lbrakk>log_run env key fl ws fl1; length rnd = BS; sid < 2 ^ 32;
     psync_crypto_aes256_encode_sector (key_enc key) (key_sha key) (key_iv key) rnd al buf (word_of_nat sid) = Some (out, auth);
     psync_fs_crypto_write_newfile_full_sector env key rnd al new new' r rio buf sid fl1 = Some (0, fl2)\<rbrakk>
   \<Longrightarrow> log_run env key fl (ws @ [(psync_fs_crypto_data_offset_by_sectorid sid, out)]) fl2"
| run_tree: "\<lbrakk>log_run env key fl ws fl1; length data \<le> 4096; off + length data < 2 ^ 64;
     write_tree_sector env new r1 r2 off data fl1 = Some (0, fl2)\<rbrakk>
   \<Longrightarrow> log_run env key fl (ws @ [(off, data)]) fl2"
| run_master: "\<lbrakk>log_run env key fl ws fl1; masterauthoff offsets + 32 < 2 ^ 64;
     psync_fs_crypto_write_master_auth env key new r autharr offsets fl1 = Some (0, fl2)\<rbrakk>
   \<Longrightarrow> log_run env key fl (ws @ [(masterauthoff offsets,
         psync_crypto_sign_auth_sector (key_enc key) (key_sha key) (key_iv key)
           (take (lastauthsectorlen offsets ! (treelevels offsets - 1)) (autharr ! (treelevels offsets - 1))))]) fl2"

lemma log_holds_cong:
  "logfile fl' = logfile fl \<Longrightarrow> logoffset fl' = logoffset fl \<Longrightarrow> loghashctx fl' = loghashctx fl \<Longrightarrow> log_holds fl' c = log_holds fl c"
  by (simp add: log_holds_def)

lemma set_sector_log:
  assumes "psync_fs_crypto_set_sector_log_offset new sid offset auth fl = Some fl'"
  shows "logfile fl' = logfile fl" "logoffset fl' = logoffset fl" "loghashctx fl' = loghashctx fl" "newfile fl' = newfile fl"
    "writeintervals fl' = writeintervals fl"
  using assms by (auto simp: psync_fs_crypto_set_sector_log_offset_def split: sum.splits)

lemma add_sector_interval:
  assumes "psync_fs_crypt_add_sector_to_interval_tree new sid n fl = Some fl'"
  shows "logfile fl' = logfile fl" "logoffset fl' = logoffset fl" "loghashctx fl' = loghashctx fl"
  using assms by (auto simp: psync_fs_crypt_add_sector_to_interval_tree_def Let_def)

definition env_ok :: "crc_env \<Rightarrow> bool" where
  "env_ok env \<longleftrightarrow> (crc_hashw env = 2 \<or> has_hw env \<longrightarrow> sse42 (hw8 env) (hw64 env)) \<and> length (buff (ctx_mem env)) = 64"

lemma env_ok_hw: "env_ok env \<Longrightarrow> crc_hashw env = 2 \<Longrightarrow> sse42 (hw8 env) (hw64 env)"
  by (simp add: env_ok_def)

lemma full_sector_holds:
  assumes "log_holds fl c" and "env_ok env" and "length out = length buf" and "4096 + length c + 16 + length out < 2 ^ 32"
    and "psync_crypto_aes256_encode_sector (key_enc key) (key_sha key) (key_iv key) rnd al buf (word_of_nat sid) = Some (out, auth)"
    and "psync_fs_crypto_write_newfile_full_sector env key rnd al new new' r rio buf sid fl = Some (0, fl')"
  shows "log_holds fl' (c @ data_rec (psync_fs_crypto_data_offset_by_sectorid sid, out))" and "length out \<le> 4096"
proof -
  let ?rec = "data_rec (psync_fs_crypto_data_offset_by_sectorid sid, out)"
  have rec: "header_bytes (data_header (length buf) (psync_fs_crypto_data_offset_by_sectorid sid)) @ out = ?rec"
    using assms(3) by (simp add: data_rec_def)
  obtain wrt f where w: "log_pwrite (logfile fl) ?rec (logoffset fl) r = (wrt, f)" by fastforce
  have ok: "wrt = int (length ?rec)" "length out \<le> 4096"
    using assms(3,5,6) w by (auto simp: psync_fs_crypto_write_newfile_full_sector_def Let_def rec EIO_def split: if_splits)
  have "psync_fs_crypto_write_newfile_full_sector env key rnd al new new' r rio buf sid fl =
      Option.bind (psync_fs_crypto_set_sector_log_offset new sid (logoffset fl) auth fl) (\<lambda>fl1.
        if newfile (log_appended env f ?rec fl1) then Some (0, log_appended env f ?rec fl1)
        else map_option (\<lambda>fl. (0, fl)) (psync_fs_crypt_add_sector_to_interval_tree new' sid (length buf) (log_appended env f ?rec fl1)))"
    using assms(3,5) w ok by (simp add: psync_fs_crypto_write_newfile_full_sector_def Let_def rec)
  with assms(6) obtain fl1 where fl1: "psync_fs_crypto_set_sector_log_offset new sid (logoffset fl) auth fl = Some fl1"
    "(if newfile (log_appended env f ?rec fl1) then Some (0 :: int, log_appended env f ?rec fl1)
      else map_option (\<lambda>fl. (0, fl)) (psync_fs_crypt_add_sector_to_interval_tree new' sid (length buf) (log_appended env f ?rec fl1))) = Some (0, fl')"
    by (auto simp: bind_Some_iff)
  have "log_holds (log_appended env f ?rec fl1) (c @ ?rec)"
  proof (rule log_append_holds [where r = r])
    show "log_holds fl1 c" using assms(1) log_holds_cong [of fl1 fl c] set_sector_log [OF fl1(1)] by simp
    show "log_pwrite (logfile fl1) ?rec (logoffset fl1) r = (int (length ?rec), f)" using w ok set_sector_log [OF fl1(1)] by simp
  qed (use assms(2,4) env_ok_hw in \<open>simp_all add: ac_simps\<close>)
  then show "log_holds fl' (c @ ?rec)" using fl1(2) log_holds_cong [of fl' "log_appended env f ?rec fl1" "c @ ?rec"]
      add_sector_interval [of new' sid "length buf" "log_appended env f ?rec fl1" fl']
    by (auto split: if_splits)
  show "length out \<le> 4096" by (rule ok(2))
qed

lemma tree_sector_holds:
  assumes "log_holds fl c" and "env_ok env" and "4096 + length c + 16 + length data < 2 ^ 32"
    and "write_tree_sector env new r1 r2 off data fl = Some (0, fl')"
  shows "log_holds fl' (c @ data_rec (off, data))"
proof -
  let ?hdr = "header_bytes (data_header (length data) off)"
  obtain w1 f1 where w1: "log_pwrite (logfile fl) ?hdr (logoffset fl) r1 = (w1, f1)" by fastforce
  have ok1: "w1 = 16" using assms(4) w1 by (auto simp: write_tree_sector_def EIO_def Let_def split: if_splits prod.splits)
  obtain w2 f2 where w2: "log_pwrite f1 data (logoffset fl + 16) r2 = (w2, f2)" by fastforce
  have ok2: "w2 = int (length data)" using assms(4) w1 w2 ok1 by (auto simp: write_tree_sector_def EIO_def Let_def split: if_splits)
  have h1: "log_holds (log_appended env f1 ?hdr fl) (c @ ?hdr)"
    using w1 ok1 assms(3) env_ok_hw [OF assms(2)] by (intro log_append_holds [OF assms(1), where r = r1]) simp_all
  have lo: "logoffset (log_appended env f1 ?hdr fl) = logoffset fl + 16"
    using h1 assms(1) by (simp add: log_holds_def)
  have "log_holds (log_appended env f2 data (log_appended env f1 ?hdr fl)) ((c @ ?hdr) @ data)"
    using w2 ok2 assms(3) env_ok_hw [OF assms(2)] lo
    by (intro log_append_holds [OF h1, where r = r2]) (simp_all add: log_appended_def)
  moreover have "logfile fl' = f2" "logoffset fl' = uint32 (logoffset fl + (length data + 16))"
    "loghashctx fl' = loghashctx (log_appended env f2 data (log_appended env f1 ?hdr fl))"
    using assms(4) w1 w2 ok1 ok2 by (auto simp: write_tree_sector_def log_appended_def EIO_def Let_def split: if_splits)
  ultimately show ?thesis using lo assms(1,3)
    by (subst log_holds_cong [of fl' "log_appended env f2 data (log_appended env f1 ?hdr fl)"])
       (simp_all add: data_rec_def log_holds_def log_appended_def fits)
qed

lemma master_auth_holds:
  assumes "log_holds fl c" and "env_ok env" and "key_ok key" and "4096 + length c + 48 < 2 ^ 32"
    and "psync_fs_crypto_write_master_auth env key new r autharr offsets fl = Some (0, fl')"
  shows "log_holds fl' (c @ data_rec (masterauthoff offsets, psync_crypto_sign_auth_sector (key_enc key) (key_sha key) (key_iv key)
           (take (lastauthsectorlen offsets ! (treelevels offsets - 1)) (autharr ! (treelevels offsets - 1)))))"
proof -
  let ?auth = "psync_crypto_sign_auth_sector (key_enc key) (key_sha key) (key_iv key)
           (take (lastauthsectorlen offsets ! (treelevels offsets - 1)) (autharr ! (treelevels offsets - 1)))"
  let ?rec = "data_rec (masterauthoff offsets, ?auth)"
  have la: "length ?auth = 32" by (rule length_sign_auth [OF assms(3)])
  then have rec: "header_bytes (data_header 32 (masterauthoff offsets)) @ ?auth = ?rec" by (simp add: data_rec_def)
  obtain wrt f where w: "log_pwrite (logfile fl) ?rec (logoffset fl) r = (wrt, f)" by fastforce
  have ok: "wrt = int (length ?rec)"
    using assms(5) w by (auto simp: psync_fs_crypto_write_master_auth_def Let_def rec EIO_def simp del: One_nat_def split: if_splits)
  have "log_holds (log_appended env f ?rec fl) (c @ ?rec)"
    using w ok la assms(4) env_ok_hw [OF assms(2)] by (intro log_append_holds [OF assms(1), where r = r]) simp_all
  moreover have "logfile fl' = logfile (log_appended env f ?rec fl)" "logoffset fl' = logoffset (log_appended env f ?rec fl)"
    "loghashctx fl' = loghashctx (log_appended env f ?rec fl)"
    using assms(5) w ok by (auto simp: psync_fs_crypto_write_master_auth_def Let_def rec simp del: One_nat_def split: if_splits)
  ultimately show ?thesis by (simp add: log_holds_cong [of fl' "log_appended env f ?rec fl"])
qed

text \<open>A run of these operations appends exactly the records of its writes.\<close>

definition write_fits :: "nat \<times> bytes \<Rightarrow> bool" where
  "write_fits w \<longleftrightarrow> length (snd w) \<le> 4096 \<and> fst w + length (snd w) < 2 ^ 64"

lemma log_run_holds:
  assumes "log_run env key fl ws fl'" and "log_holds fl []" and "env_ok env" and "key_ok key"
    and "4096 + length (data_recs ws) < 2 ^ 32"
  shows "log_holds fl' (data_recs ws) \<and> (\<forall>w \<in> set ws. write_fits w)"
  using assms(1,5)
proof (induction rule: log_run.induct)
  case run_start
  then show ?case using assms(2) by simp
next
  case (run_sector ws fl1 rnd sid al buf out auth new new' r rio fl2)
  have len: "length out = length buf"
    using encode_sector_length [OF _ _ run_sector.hyps(2,4)] assms(4) by (auto simp: key_ok_def)
  have h: "log_holds fl1 (data_recs ws)" "\<forall>w \<in> set ws. write_fits w" using run_sector.IH run_sector.prems by simp_all
  have bound: "4096 + length (data_recs ws) + 16 + length out < 2 ^ 32" using run_sector.prems by simp
  note fs = full_sector_holds [OF h(1) assms(3) len bound run_sector.hyps(4,5)]
  have "tree_sum sid < 2 ^ 33" using tree_sum_le [of sid] run_sector.hyps(3) by simp
  then have "psync_fs_crypto_data_offset_by_sectorid sid + length out < 2 ^ 64"
    using data_offset_by_sectorid [OF run_sector.hyps(3)] fs(2) by simp
  then show ?case using fs h(2) by (simp add: write_fits_def)
next
  case (run_tree ws fl1 data off new r1 r2 fl2)
  then have h: "log_holds fl1 (data_recs ws)" "\<forall>w \<in> set ws. write_fits w" by simp_all
  then show ?case using tree_sector_holds [OF h(1) assms(3) _ run_tree.hyps(4)] run_tree.prems run_tree.hyps(2,3)
    by (simp add: write_fits_def)
next
  case (run_master ws fl1 offsets new r autharr fl2)
  then have h: "log_holds fl1 (data_recs ws)" "\<forall>w \<in> set ws. write_fits w" by simp_all
  then show ?case using master_auth_holds [OF h(1) assms(3,4) _ run_master.hyps(3)] run_master.prems run_master.hyps(2)
      length_sign_auth [OF assms(4)]
    by (simp add: write_fits_def)
qed

subsection \<open>The records as the replay reads them\<close>

lemma read_header_bytes:
  assumes "rectype h < 256" and "reclength h < 65536" and "longlengthlo h < 2 ^ 32" and "recoffset h < 2 ^ 64"
  shows "rectype (read_header (header_bytes h)) = rectype h" "reclength (read_header (header_bytes h)) = reclength h"
    "longlengthlo (read_header (header_bytes h)) = longlengthlo h" "recoffset (read_header (header_bytes h)) = recoffset h"
  using assms by (simp_all add: read_header_def header_bytes_def del: le_bytes.simps)

lemma log_effs_header:
  assumes "drop off lfd = header_bytes h @ rest"
  shows "log_effs lfd size0 idx off recs ioff =
    (case record_effs lfd size0 idx (off + 16) (read_header (header_bytes h)) recs ioff of
       (es, Inl e) \<Rightarrow> (es, e)
     | (es, Inr (off', recs', ioff')) \<Rightarrow> let (es', e) = log_effs lfd size0 idx off' recs' ioff' in (es @ es', e))"
proof -
  have "take 16 (drop off lfd) = header_bytes h" using assms by simp
  moreover have "header_bytes h \<noteq> []" using length_header [of h] by (metis list.size(3) zero_neq_numeral)
  ultimately show ?thesis by (subst log_effs.simps) (simp add: Let_def)
qed

lemma drop_append_eq: "drop off xs = ys @ zs \<Longrightarrow> drop (off + length ys) xs = zs"
  by (metis add.commute append_eq_conv_conj drop_drop)

lemma log_effs_data_rec:
  assumes "drop off lfd = data_rec w @ rest" and "write_fits w" and "size0 < 2 ^ 63"
  shows "log_effs lfd size0 idx off [] ioff =
    (let (es, e) = log_effs lfd size0 idx (off + length (data_rec w)) [] ioff
     in (if fst w + length (snd w) \<le> size0 then Eff_data (fst w) (snd w) # es else es, e))"
proof -
  let ?h = "data_header (length (snd w)) (fst w)" and ?n = "length (snd w)"
  have d: "drop off lfd = header_bytes ?h @ snd w @ rest" using assms(1) by (simp add: data_rec_def)
  have n: "?n \<le> 4096" "fst w + ?n < 2 ^ 64" using assms(2) by (simp_all add: write_fits_def)
  then have h: "rectype (read_header (header_bytes ?h)) = 1" "reclength (read_header (header_bytes ?h)) = ?n"
    "recoffset (read_header (header_bytes ?h)) = fst w"
    using read_header_bytes [of ?h] by (simp_all add: data_header_def fits)
  have "take ?n (drop (off + 16) lfd) = snd w"
    using drop_append_eq [OF d] by simp
  then have "record_effs lfd size0 idx (off + 16) (read_header (header_bytes ?h)) [] ioff =
    (if fst w + ?n \<le> size0 then [Eff_data (fst w) (snd w)] else [], Inr (off + 16 + ?n, [], ioff))"
    using n h assms(3) by (simp add: record_effs_def Let_def fits)
  with log_effs_header [OF d] show ?thesis by (simp add: Let_def split_beta add.assoc)
qed

lemma log_effs_data_recs:
  assumes "drop off lfd = data_recs ws @ rest" and "\<forall>w \<in> set ws. write_fits w" and "size0 < 2 ^ 63"
  shows "log_effs lfd size0 idx off [] ioff =
    (let (es, e) = log_effs lfd size0 idx (off + length (data_recs ws)) [] ioff
     in (map (\<lambda>(o', d). Eff_data o' d) (filter (\<lambda>(o', d). o' + length d \<le> size0) ws) @ es, e))"
  using assms(1,2)
proof (induction ws arbitrary: off)
  case (Cons w ws)
  have d: "drop off lfd = data_rec w @ data_recs ws @ rest" using Cons.prems(1) by simp
  have step: "log_effs lfd size0 idx off [] ioff =
      (let (es, e) = log_effs lfd size0 idx (off + length (data_rec w)) [] ioff
       in (if fst w + length (snd w) \<le> size0 then Eff_data (fst w) (snd w) # es else es, e))"
    using log_effs_data_rec [OF d _ assms(3)] Cons.prems(2) by simp
  from Cons.IH [OF drop_append_eq [OF d]] Cons.prems(2) show ?case
    unfolding step by (cases w) (simp add: Let_def split_beta add.assoc)
qed (simp add: Let_def split_beta)

definition int_rec :: "nat \<times> nat \<Rightarrow> psync_crypto_log_header \<Rightarrow> bool" where
  "int_rec r h \<longleftrightarrow> (\<exists>j. h = int_header j (fst r) (snd r)) \<and> fst r < 2 ^ 64 \<and> snd r < 2 ^ 48"

text \<open>The interval records: the index file gets the pairs in blocks of 256 and a rest.\<close>

lemma record_effs_int:
  assumes "int_rec r h"
  shows "record_effs lfd size0 True off (read_header (header_bytes h)) recs ioff =
    (if length recs + 1 \<ge> 256
     then if 2 ^ 63 \<le> 16 * ioff then ([], Inl (Returned (-1)))
          else ([Eff_index (16 * ioff) (index_bytes (recs @ [r]))], Inr (off, [], ioff + (length recs + 1)))
     else ([], Inr (off, recs @ [r], ioff)))"
proof -
  obtain j where h: "h = int_header j (fst r) (snd r)" "fst r < 2 ^ 64" "snd r < 2 ^ 48" using assms by (auto simp: int_rec_def)
  have hi: "snd r div 2 ^ 32 < 2 ^ 16" using h(3) by (simp add: less_mult_imp_div_less)
  have "snd r mod 2 ^ 32 + snd r div 2 ^ 32 * 2 ^ 32 = snd r" by simp
  then have pair: "(fst r, snd r mod 2 ^ 32 + snd r div 2 ^ 32 * 2 ^ 32) = r" by simp
  have "rectype (read_header (header_bytes h)) = 2" "reclength (read_header (header_bytes h)) = snd r div 2 ^ 32"
    "longlengthlo (read_header (header_bytes h)) = snd r mod 2 ^ 32" "recoffset (read_header (header_bytes h)) = fst r"
    using read_header_bytes [of h] h(1,2) hi by (simp_all add: int_header_def uint16_def)
  then show ?thesis unfolding record_effs_def Let_def using pair by simp
qed

lemma log_effs_int_recs:
  assumes "drop off lfd = concat (map header_bytes hs)" and "list_all2 int_rec rs hs" and "length recs < 256"
    and "16 * (ioff + length recs + length rs) < 2 ^ 63" and "length f = 16 * ioff"
  shows "\<exists>es recs' ioff'. log_effs lfd size0 True off recs ioff = (es, End_of_log recs' ioff') \<and> data_writes es = [] \<and>
    16 * ioff' < 2 ^ 63 \<and>
    write_all f (index_writes (es @ (if recs' = [] then [] else [Eff_index (16 * ioff') (index_bytes recs')]))) = f @ index_bytes (recs @ rs)"
  using assms
proof (induction hs arbitrary: off recs ioff rs f)
  case Nil
  then have "log_effs lfd size0 True off recs ioff = ([], End_of_log recs ioff)" by (subst log_effs.simps) (simp add: Let_def)
  moreover have "file_write f (16 * ioff) x = f @ x" for x using file_write_end [of f x] Nil.prems(5) by simp
  moreover have "index_bytes [] = []" by (simp add: index_bytes_def)
  ultimately show ?case using Nil.prems by auto
next
  case (Cons h hs)
  obtain r rs' where rs: "rs = r # rs'" "int_rec r h" "list_all2 int_rec rs' hs" using Cons.prems(2) by (auto simp: list_all2_Cons2)
  have d: "drop off lfd = header_bytes h @ concat (map header_bytes hs)" using Cons.prems(1) by simp
  have d': "drop (off + 16) lfd = concat (map header_bytes hs)" using drop_append_eq [OF d] by simp
  note step = log_effs_header [OF d, of size0 True recs ioff, unfolded record_effs_int [OF rs(2)]]
  show ?case
  proof (cases "length recs + 1 \<ge> 256")
    case True
    let ?f = "f @ index_bytes (recs @ [r])"
    from Cons.IH [OF d' rs(3), of "[]" "ioff + (length recs + 1)" ?f] Cons.prems(4,5) rs(1)
    obtain es recs' ioff' where ih: "log_effs lfd size0 True (off + 16) [] (ioff + (length recs + 1)) = (es, End_of_log recs' ioff')"
      "data_writes es = []" "16 * ioff' < 2 ^ 63"
      "write_all ?f (index_writes (es @ (if recs' = [] then [] else [Eff_index (16 * ioff') (index_bytes recs')]))) = ?f @ index_bytes rs'"
      by (auto simp: algebra_simps)
    have lt: "\<not> 2 ^ 63 \<le> 16 * ioff" using Cons.prems(4) by simp
    have "file_write f (16 * ioff) (index_bytes (recs @ [r])) = ?f" using file_write_end [of f] Cons.prems(5) by simp
    moreover have "?f @ index_bytes rs' = f @ index_bytes (recs @ rs)" using rs(1) by (simp add: index_bytes_def)
    moreover have "log_effs lfd size0 True off recs ioff =
        (Eff_index (16 * ioff) (index_bytes (recs @ [r])) # es, End_of_log recs' ioff')"
      using step True lt ih(1) by simp
    ultimately show ?thesis using ih(2-4) by auto
  next
    case False
    from Cons.IH [OF d' rs(3), of "recs @ [r]" ioff f] Cons.prems(4,5) rs(1) False
    have "\<exists>es recs' ioff'. log_effs lfd size0 True (off + 16) (recs @ [r]) ioff = (es, End_of_log recs' ioff') \<and> data_writes es = [] \<and>
      16 * ioff' < 2 ^ 63 \<and>
      write_all f (index_writes (es @ (if recs' = [] then [] else [Eff_index (16 * ioff') (index_bytes recs')]))) = f @ index_bytes ((recs @ [r]) @ rs')"
      by (simp add: algebra_simps)
    moreover have "log_effs lfd size0 True off recs ioff = log_effs lfd size0 True (off + 16) (recs @ [r]) ioff"
      using step False by (simp add: Let_def split_beta)
    ultimately show ?thesis using rs(1) by simp
  qed
qed

subsection \<open>A finalized log\<close>

lemma flush_headers_holds:
  assumes "log_holds fl c" and "env_ok env" and "flush_headers env r logs fl = (True, fl')" and "4096 + length c + 16 * length logs < 2 ^ 32"
  shows "log_holds fl' (c @ concat (map header_bytes logs))"
proof -
  obtain wrt f where w: "log_pwrite (logfile fl) (concat (map header_bytes logs)) (logoffset fl) r = (wrt, f)" by fastforce
  with assms(3) have "wrt = int (length (concat (map header_bytes logs)))" "fl' = log_appended env f (concat (map header_bytes logs)) fl"
    by (auto simp: flush_headers_def split: if_splits)
  with w assms env_ok_hw show ?thesis by (auto intro!: log_append_holds [where r = r])
qed

lemma sub64_less: "sub64 x y < 2 ^ 64"
  by (simp add: sub64_def)

lemma interval_loop_holds:
  assumes "env_ok env" and "log_holds fl c" and "interval_loop env junk rs itvs logs fl = Some (0, fl')" and "length logs \<le> 256"
    and "4096 + length c + 16 * (length logs + length itvs) < 2 ^ 32" and "\<forall>(a, b) \<in> set itvs. a < 2 ^ 64"
  shows "\<exists>hs. log_holds fl' (c @ concat (map header_bytes (logs @ hs))) \<and> list_all2 int_rec (map (\<lambda>(a, b). (a, sub64 b a)) itvs) hs"
  using assms(2-)
proof (induction itvs arbitrary: rs logs fl c)
  case Nil
  show ?case
  proof (cases "logs = []")
    case False
    with Nil.prems(2) obtain ok fl1 where f: "flush_headers env (fst (next_io rs)) logs fl = (ok, fl1)" and "ok" "fl' = fl1"
      by (auto simp: EIO_def split: if_splits prod.splits)
    then show ?thesis using flush_headers_holds [OF Nil.prems(1) assms(1), of "fst (next_io rs)" logs fl1] Nil.prems(4) by auto
  qed (use Nil.prems in auto)
next
  case (Cons itv itvs)
  obtain a b where itv: "itv = (a, b)" by (cases itv)
  let ?len = "sub64 b a"
  have rec: "?len < 2 ^ 48 \<Longrightarrow> int_rec (a, ?len) (int_header j a ?len)" for j
    using Cons.prems(5) itv by (auto simp: int_rec_def)
  show ?case
  proof (cases "length logs = 256")
    case True
    obtain ok fl1 where f: "flush_headers env (fst (next_io rs)) logs fl = (ok, fl1)" by fastforce
    have run: "ok" "\<not> ?len div 2 ^ 48 \<noteq> 0"
      "interval_loop env junk (snd (next_io rs)) itvs [int_header (junk 0) a ?len] fl1 = Some (0, fl')"
      using Cons.prems(2) f True itv by (auto simp: EIO_def Let_def split: if_splits)
    have h: "log_holds fl1 (c @ concat (map header_bytes logs))"
      using flush_headers_holds [OF Cons.prems(1) assms(1), of "fst (next_io rs)" logs fl1] f run(1) Cons.prems(4) by simp
    have "?len < 2 ^ 48" using run(2) by (simp add: div_eq_0_iff)
    then have j: "int_rec (a, ?len) (int_header (junk 0) a ?len)" by (rule rec)
    have "\<exists>hs. log_holds fl' ((c @ concat (map header_bytes logs)) @ concat (map header_bytes ([int_header (junk 0) a ?len] @ hs)))
        \<and> list_all2 int_rec (map (\<lambda>(a, b). (a, sub64 b a)) itvs) hs"
      using Cons.prems(4,5) True by (intro Cons.IH [OF h run(3)]) simp_all
    then obtain hs where "log_holds fl' (c @ concat (map header_bytes (logs @ int_header (junk 0) a ?len # hs)))"
      "list_all2 int_rec (map (\<lambda>(a, b). (a, sub64 b a)) itvs) hs" by auto
    with j show ?thesis by (intro exI [of _ "int_header (junk 0) a ?len # hs"]) (simp add: itv)
  next
    case False
    let ?h = "int_header (junk (length logs)) a ?len"
    have run: "\<not> ?len div 2 ^ 48 \<noteq> 0" "interval_loop env junk rs itvs (logs @ [int_header (junk (length logs)) a ?len]) fl = Some (0, fl')"
      using Cons.prems(2) False itv by (auto simp: Let_def split: if_splits)
    have "?len < 2 ^ 48" using run(1) by (simp add: div_eq_0_iff)
    moreover have "length (logs @ [int_header (junk (length logs)) a ?len]) \<le> 256" using Cons.prems(3) False by simp
    ultimately have j: "int_rec (a, ?len) ?h" and
      "\<exists>hs. log_holds fl' (c @ concat (map header_bytes ((logs @ [?h]) @ hs))) \<and> list_all2 int_rec (map (\<lambda>(a, b). (a, sub64 b a)) itvs) hs"
      using Cons.prems(4,5) rec by (simp, intro Cons.IH [OF Cons.prems(1) run(2)]) simp_all
    then obtain hs where "log_holds fl' (c @ concat (map header_bytes (logs @ ?h # hs)))"
      "list_all2 int_rec (map (\<lambda>(a, b). (a, sub64 b a)) itvs) hs" by auto
    with j show ?thesis by (intro exI [of _ "?h # hs"]) (simp add: itv)
  qed
qed

lemma crc_env_ref:
  assumes "env_ok env"
  shows "psync_crc32c (hw8 env) (hw64 env) (has_hw env) (crc_hashw env) addr crc data =
    (crc32c_ref crc data, if crc_hashw env = 1 \<or> crc_hashw env = 2 then crc_hashw env else if has_hw env then 2 else 1)"
proof -
  have "psync_crc32c_hw (hw8 env) (hw64 env) addr (ucast crc) data = crc32c_ref crc data" if "crc_hashw env = 2 \<or> has_hw env"
    using sse42.psync_crc32c_hw_ref [of "hw8 env" "hw64 env"] assms that by (simp add: env_ok_def)
  then show ?thesis by (auto simp: psync_crc32c_def psync_crc32c_init_def psync_crc32c_sw_ref)
qed

definition master_of :: "nat \<Rightarrow> bytes \<Rightarrow> psync_crypto_master_record" where
  "master_of filesize c = \<lparr>mr_status = 1, mr_hashid = 0, mr_logsize = 4096 + length c, mr_filesize = filesize,
     mr_hash = fast_hash256 fh_start c, mr_crc = 0\<rparr>"

definition final_log :: "nat \<Rightarrow> bytes \<Rightarrow> bytes \<Rightarrow> bytes" where
  "final_log filesize pad c = master_prefix (master_of filesize c) @ le_bytes 4 (unat (crc32c_ref 0 (master_prefix (master_of filesize c))))
     @ pad @ replicate 4032 0xff @ c"

lemma length_fast_hash [simp]: "length (fast_hash256 st data) = 32"
  by (simp add: fast_hash256_def final_mix_def bytes64_def Let_def split_beta)

lemma length_master_prefix [simp]: "length (master_prefix (master_of n c)) = 56"
  by (simp add: master_prefix_def master_of_def)

lemma mark_log_finalized_log:
  assumes "log_holds fl c" and "env_ok env" and "length pad = 4"
    and "psync_fs_crypto_mark_log_finalized env pad st r filesize fl = Some (0, fl')"
  shows "logfile fl' = Some (final_log filesize pad c)"
proof -
  let ?f = "replicate 4096 0xff @ c"
  obtain hash ctx where fin: "psync_fast_hash256_final (hw64 env) (crc_hashw env) (loghashctx fl) = (hash, ctx)" by fastforce
  have f: "logfile fl = Some ?f" and rep: "represents fh_start c (loghashctx fl)" using assms(1) by (simp_all add: log_holds_def)
  have "hash = fast_hash256 fh_start c" using final_digest [OF rep, of "crc_hashw env" "hw8 env" "hw64 env"] env_ok_hw [OF assms(2)] fin by simp
  then have mr: "\<lparr>mr_status = 1, mr_hashid = 0, mr_logsize = length ?f, mr_filesize = filesize, mr_hash = hash, mr_crc = 0\<rparr> = master_of filesize c"
    by (simp add: master_of_def)
  let ?m = "master_prefix (master_of filesize c) @ le_bytes 4 (unat (crc32c_ref 0 (master_prefix (master_of filesize c)))) @ pad"
  have crc: "fst (psync_crc32c (hw8 env) (hw64 env) (has_hw env) (crc_hashw env) (crc_addr env) 0 (master_prefix (master_of filesize c))) =
      crc32c_ref 0 (master_prefix (master_of filesize c))" using crc_env_ref [OF assms(2)] by simp
  obtain wrt f' where w: "log_pwrite (Some ?f) ?m 0 r = (wrt, f')" by fastforce
  have "wrt = 64" "logfile fl' = f'"
    using assms(4) f w fin mr crc unfolding psync_fs_crypto_mark_log_finalized_def Let_def
    by (auto simp: EIO_def split: if_splits)
  moreover have "int (length ?m) = 64" using assms(3) by simp
  ultimately have "logfile fl' = Some (file_write ?f 0 ?m)" using log_pwrite_done [OF w] by auto
  moreover have "file_write ?f 0 ?m = ?m @ drop 64 ?f" using assms(3) by (auto simp: file_write_def)
  ultimately show ?thesis by (simp add: final_log_def)
qed

lemma length_final_log: "length pad = 4 \<Longrightarrow> length (final_log n pad c) = 4096 + length c"
  by (simp add: final_log_def)

lemma drop_final_log: "length pad = 4 \<Longrightarrow> drop 4096 (final_log n pad c) = c"
  by (simp add: final_log_def)

lemma hash_loop_represents:
  "represents st data ctx \<Longrightarrow> (hashw = 2 \<Longrightarrow> sse42 (hw8 env) (hw64 env)) \<Longrightarrow> io s = [] \<Longrightarrow>
   \<exists>ctx'. fst (hash_loop env hashw lfd off ctx s) = Some ctx' \<and> represents st (data @ drop off lfd) ctx'"
proof (induction env hashw lfd off ctx s arbitrary: data rule: hash_loop.induct)
  case (1 env hashw lfd off ctx s)
  let ?d = "take 4096 (drop off lfd)"
  have rd: "read_log lfd PSYNC_CRYPTO_SECTOR_SIZE off s = (Some ?d, s)" using 1(4) by (simp add: read_log_quiet)
  show ?case
  proof (cases "?d = []")
    case True
    then have "drop off lfd = []" by simp
    with 1(2) rd True show ?thesis by (subst hash_loop.simps) simp
  next
    case False
    have up: "represents st (data @ ?d) (psync_fast_hash256_update (hw64 env) hashw ctx ?d)"
      by (rule update_represents [OF 1(2,3)])
    have "drop (off + length ?d) lfd = drop 4096 (drop off lfd)" by (simp add: min_def add.commute)
    then have "(data @ ?d) @ drop (off + length ?d) lfd = data @ drop off lfd" by (metis append_assoc append_take_drop_id)
    with 1(1) [OF rd [symmetric] refl False up 1(3,4)] rd False show ?thesis by (subst hash_loop.simps) simp
  qed
qed

lemma final_log_hash:
  assumes "env_ok env" and "length pad = 4" and "hashw = 2 \<Longrightarrow> sse42 (hw8 env) (hw64 env)" and "hashw \<noteq> 0"
    and "mr_hashid mr = 0" and "mr_hash mr = fast_hash256 fh_start c"
  shows "fst (psync_fs_crypto_check_log_hash env hashw (final_log n pad c) mr quiet_state) = 0"
proof -
  obtain ctx h where i: "psync_fast_hash256_init (has_hw env) hashw (ctx_mem env) = (ctx, h)" by fastforce
  then have h: "h = hashw" using assms(4) by (auto simp: psync_fast_hash256_init_def)
  have "represents fh_start [] ctx"
    using init_represents [of "ctx_mem env" "has_hw env" hashw] assms(1) i by (simp add: env_ok_def)
  from hash_loop_represents [OF this, of hashw env quiet_state "final_log n pad c" 4096] assms(3)
  obtain ctx' where l: "fst (hash_loop env hashw (final_log n pad c) 4096 ctx quiet_state) = Some ctx'" "represents fh_start c ctx'"
    by (auto simp: quiet_state_def drop_final_log [OF assms(2)])
  have "fst (psync_fast_hash256_final (hw64 env) hashw ctx') = mr_hash mr"
    using final_digest [OF l(2), of hashw "hw8 env" "hw64 env"] assms(3,6) by simp
  then show ?thesis using i h l(1) assms(5)
    by (cases "hash_loop env hashw (final_log n pad c) 4096 ctx quiet_state") (simp add: psync_fs_crypto_check_log_hash_def)
qed

lemma read_final_master:
  assumes "length pad = 4" and "n < 2 ^ 64" and "4096 + length c < 2 ^ 64"
  shows "take 64 (final_log n pad c) = master_prefix (master_of n c) @ le_bytes 4 (unat (crc32c_ref 0 (master_prefix (master_of n c)))) @ pad"
    and "mr_status (read_master (take 64 (final_log n pad c))) = 1" and "mr_hashid (read_master (take 64 (final_log n pad c))) = 0"
    and "mr_logsize (read_master (take 64 (final_log n pad c))) = 4096 + length c"
    and "mr_filesize (read_master (take 64 (final_log n pad c))) = n"
    and "mr_hash (read_master (take 64 (final_log n pad c))) = fast_hash256 fh_start c"
    and "mr_crc (read_master (take 64 (final_log n pad c))) = crc32c_ref 0 (master_prefix (master_of n c))"
proof -
  let ?p = "master_prefix (master_of n c)" and ?crc = "crc32c_ref 0 (master_prefix (master_of n c))"
  show t: "take 64 (final_log n pad c) = ?p @ le_bytes 4 (unat ?crc) @ pad" using assms(1) by (simp add: final_log_def)
  have p: "?p = le_bytes 4 1 @ le_bytes 4 0 @ le_bytes 8 (4096 + length c) @ le_bytes 8 n @ fast_hash256 fh_start c"
    by (simp add: master_prefix_def master_of_def)
  have "unat ?crc < 256 ^ 4" using unsigned_less [of ?crc, where ?'a = nat] by simp
  then show "mr_crc (read_master (take 64 (final_log n pad c))) = ?crc" unfolding t by (simp add: read_master_def del: le_bytes.simps)
  have parts: "take 4 ?p = le_bytes 4 1" "take 4 (drop 4 ?p) = le_bytes 4 0" "take 8 (drop 8 ?p) = le_bytes 8 (4096 + length c)"
    "take 8 (drop 16 ?p) = le_bytes 8 n" "take 32 (drop 24 ?p) = fast_hash256 fh_start c"
    unfolding p by (simp_all del: le_bytes.simps)
  have "take k (drop m (?p @ xs)) = take k (drop m ?p)" if "m + k \<le> 56" for k m xs using that by simp
  note parts = parts this [of 0 4, simplified] this [of 4 4] this [of 8 8] this [of 16 8] this [of 24 32]
  show "mr_status (read_master (take 64 (final_log n pad c))) = 1" "mr_hashid (read_master (take 64 (final_log n pad c))) = 0"
    "mr_logsize (read_master (take 64 (final_log n pad c))) = 4096 + length c"
    "mr_filesize (read_master (take 64 (final_log n pad c))) = n"
    "mr_hash (read_master (take 64 (final_log n pad c))) = fast_hash256 fh_start c"
    unfolding t read_master_def using assms(2,3) parts by (simp_all del: le_bytes.simps)
qed

lemma final_log_accepted:
  assumes "env_ok env" and "length pad = 4" and "n < 2 ^ 64" and "4096 + length c < 2 ^ 64"
  shows "master_size env (final_log n pad c) checkhash = Inr n"
proof -
  let ?lfd = "final_log n pad c" and ?hw = "if crc_hashw env = 1 \<or> crc_hashw env = 2 then crc_hashw env else if has_hw env then 2 else 1"
  have hw: "?hw = 2 \<Longrightarrow> sse42 (hw8 env) (hw64 env)" "?hw \<noteq> 0" using assms(1) by (auto simp: env_ok_def split: if_splits)
  note rm = read_final_master [OF assms(2-4)]
  obtain bs where bs: "bs = take 64 ?lfd" by simp
  have crc: "psync_crc32c (hw8 env) (hw64 env) (has_hw env) (crc_hashw env) (crc_addr env) 0 (take 56 bs) =
      (crc32c_ref 0 (master_prefix (master_of n c)), ?hw)"
    using crc_env_ref [OF assms(1)] rm(1) by (simp add: bs)
  have hash: "fst (psync_fs_crypto_check_log_hash env ?hw ?lfd (read_master bs) quiet_state) = 0"
    using final_log_hash [OF assms(1,2) hw, of "read_master bs" c n] rm(3,6) by (simp add: bs)
  have lb: "length bs = 64" using length_final_log [OF assms(2)] by (simp add: bs)
  have q: "read_log ?lfd 64 0 quiet_state = (Some bs, quiet_state)" "log_size ?lfd quiet_state = (4096 + length c, quiet_state)"
    using length_final_log [OF assms(2)] by (simp_all add: bs read_log_quiet quiet_state_def log_size_def)
  obtain bad s' where h: "psync_fs_crypto_check_log_hash env ?hw ?lfd (read_master bs) quiet_state = (bad, s')" by fastforce
  have "fst (check_master env ?lfd checkhash quiet_state) = Inr n"
    using q crc hash lb h rm(2,4,5,7) [folded bs] by (simp add: check_master_def Let_def)
  then show ?thesis by (simp add: master_size_def)
qed

definition applied :: "nat \<Rightarrow> (nat \<times> bytes) list \<Rightarrow> (nat \<times> bytes) list" where
  "applied n ws = filter (\<lambda>(off, data). off + length data \<le> n) ws"

lemma data_effs [simp]: "data_writes (map (\<lambda>(off, d). Eff_data off d) xs) = xs" "index_writes (map (\<lambda>(off, d). Eff_data off d) xs) = []"
  by (induction xs) auto

lemma replay_final_log:
  assumes "env_ok env" and "length pad = 4" and "n < 2 ^ 63" and "4096 + length (data_recs ws) + 16 * length itvs < 2 ^ 32"
    and "\<forall>w \<in> set ws. write_fits w" and "list_all2 int_rec itvs hs" and "itvs = [] \<or> i \<noteq> None"
  shows "psync_fs_crypto_process_log env (final_log n pad (data_recs ws @ concat (map header_bytes hs))) checkhash \<lparr>io = [], dfile = d, ifile = i\<rparr> =
    (Returned 0, \<lparr>io = [], dfile = write_all (file_truncate d n) (applied n ws), ifile = map_option (\<lambda>_. index_bytes itvs) i\<rparr>)"
proof -
  let ?c = "data_recs ws @ concat (map header_bytes hs)" and ?s = "\<lparr>io = [], dfile = d, ifile = i\<rparr>"
  let ?lfd = "final_log n pad ?c" and ?idx = "i \<noteq> None" and ?off = "4096 + length (data_recs ws)"
  have lh: "length hs = length itvs" using assms(6) by (simp add: list_all2_lengthD)
  have m: "master_size env ?lfd checkhash = Inr n" using assms(3,4) lh by (intro final_log_accepted [OF assms(1,2)]) simp_all
  have d: "drop 4096 ?lfd = data_recs ws @ concat (map header_bytes hs)" by (rule drop_final_log [OF assms(2)])
  have d': "drop ?off ?lfd = concat (map header_bytes hs)" by (rule drop_append_eq [OF d])
  have "\<exists>es recs ioff. log_effs ?lfd n ?idx ?off [] 0 = (es, End_of_log recs ioff) \<and> data_writes es = [] \<and> 16 * ioff < 2 ^ 63 \<and>
      (recs \<noteq> [] \<longrightarrow> ?idx) \<and>
      (?idx \<longrightarrow> write_all [] (index_writes (es @ (if recs = [] then [] else [Eff_index (16 * ioff) (index_bytes recs)]))) = index_bytes itvs)"
  proof (cases ?idx)
    case True
    have "16 * (0 + length ([] :: (nat \<times> nat) list) + length itvs) < 2 ^ 63" using assms(4) by simp
    from log_effs_int_recs [OF d' assms(6) _ this, of "[]" n] True show ?thesis by auto
  next
    case False
    with assms(6,7) have "hs = []" by auto
    with d' have "log_effs ?lfd n ?idx ?off [] 0 = ([], End_of_log [] 0)" by (subst log_effs.simps) (simp add: Let_def)
    with False show ?thesis by auto
  qed
  then obtain es recs ioff where e: "log_effs ?lfd n ?idx ?off [] 0 = (es, End_of_log recs ioff)" "data_writes es = []" "16 * ioff < 2 ^ 63"
    "recs \<noteq> [] \<longrightarrow> ?idx"
    "?idx \<longrightarrow> write_all [] (index_writes (es @ (if recs = [] then [] else [Eff_index (16 * ioff) (index_bytes recs)]))) = index_bytes itvs"
    by blast
  have le: "log_effs ?lfd n ?idx 4096 [] 0 = (map (\<lambda>(off, d). Eff_data off d) (applied n ws) @ es, End_of_log recs ioff)"
    using log_effs_data_recs [OF d assms(5,3)] e(1) by (simp add: applied_def)
  obtain e' s' where run: "psync_fs_crypto_process_log env ?lfd checkhash ?s = (e', s')" by fastforce
  have "quiet_end ?lfd n ?idx = Returned 0" using le e(3,4) assms(3) by (auto simp: quiet_end_def)
  then have r: "e' = Returned 0" "io s' = []" "files s' = foldl eff (prepared n (d, i)) (all_effs ?lfd n ?idx)"
    using process_log_run [OF m run refl] by (auto simp: files_def)
  have "all_effs ?lfd n ?idx = map (\<lambda>(off, d). Eff_data off d) (applied n ws) @ es @
      (if recs = [] then [] else [Eff_index (16 * ioff) (index_bytes recs)])"
    using le by (simp add: all_effs_def)
  then have "files s' = (write_all (file_truncate d n) (applied n ws), map_option (\<lambda>_. index_bytes itvs) i)"
    using r(3) e(2,5) by (cases i) (auto simp: prepared_def foldl_eff write_all_append)
  with r run show ?thesis by (simp add: files_def)
qed

subsection \<open>Nothing but input and output can fail\<close>

lemma log_pwrite_ok: "off < 2 ^ 63 \<Longrightarrow> log_pwrite (Some b) data off Io_ok = (int (length data), Some (file_write b off data))"
  by (simp add: log_pwrite_def psync_file_pwrite_def)

lemma init_log_ok:
  assumes "logfile fl = Some []"
  shows "\<exists>fl' h. psync_fs_crypto_init_log env Io_ok fl = (0, fl', h) \<and> newfile fl' = newfile fl \<and> writeintervals fl' = writeintervals fl"
  using assms log_pwrite_ok [of 0 "[]" "replicate 4096 0xff"]
  by (simp add: psync_fs_crypto_init_log_def Let_def split_beta)

lemma tree_sector_ok:
  assumes "log_holds fl c" and "4096 + length c + 16 < 2 ^ 63" and "newfile fl"
  shows "\<exists>fl'. write_tree_sector env new Io_ok Io_ok off data fl = Some (0, fl') \<and> newfile fl' \<and> writeintervals fl' = writeintervals fl"
  using assms log_pwrite_ok by (simp add: log_holds_def write_tree_sector_def Let_def)

lemma mark_log_finalized_ok:
  assumes "log_holds fl c" and "length pad = 4" and "env_ok env"
  shows "\<exists>fl'. psync_fs_crypto_mark_log_finalized env pad True Io_ok filesize fl = Some (0, fl')"
proof -
  obtain hash ctx where fin: "psync_fast_hash256_final (hw64 env) (crc_hashw env) (loghashctx fl) = (hash, ctx)" by fastforce
  have f: "logfile fl = Some (replicate 4096 0xff @ c)" and rep: "represents fh_start c (loghashctx fl)" using assms(1) by (simp_all add: log_holds_def)
  have "hash = fast_hash256 fh_start c"
    using final_digest [OF rep, of "crc_hashw env" "hw8 env" "hw64 env"] env_ok_hw [OF assms(3)] fin by simp
  moreover have "length_ctx (loghashctx fl) = word_of_nat (length c)" using rep by (simp add: represents_def)
  ultimately show ?thesis using f fin assms(2) log_pwrite_ok [of 0]
    by (simp add: psync_fs_crypto_mark_log_finalized_def master_prefix_def Let_def)
qed

subsection \<open>Properties\<close>

text \<open>C38: a log that has been written and finalized is replayed as it was meant.  The log is started, sectors,
  parts of the tree and the master authentication are appended to it (the list \<open>ws\<close> has the bytes of each
  with its offset), for a file that is not new also its intervals, and it is finalized for a file of
  \<open>filesize\<close> bytes.  Then a replay, by this or another processor, now or later, with or without the check
  of the hash, accepts the log; it brings the data file to that size and performs exactly the appended
  writes that lie inside of it, in order, and the index file becomes the list of the intervals.\<close>

theorem finalized_log_replays:
  assumes "env_ok env" and "env_ok env'" and "key_ok key" and "logfile fl0 = Some []" and "length (buff (loghashctx fl0)) = 64"
    and "psync_fs_crypto_init_log env r0 fl0 = (0, fl1, hashw)"
    and "log_run (env\<lparr>crc_hashw := hashw\<rparr>) key fl1 ws fl2"
    and "(if newfile fl2 then Some (0, fl2) else psync_fs_write_interval_tree_to_log (env\<lparr>crc_hashw := hashw\<rparr>) junk rs fl2) = Some (0, fl3)"
    and "psync_fs_crypto_mark_log_finalized (env\<lparr>crc_hashw := hashw\<rparr>) pad st r filesize fl3 = Some (0, fl4)"
    and "length pad = 4" and "filesize < 2 ^ 63"
    and "4096 + length (data_recs ws) + 16 * length (interval_list (writeintervals fl2)) < 2 ^ 32"
    and "newfile fl2 \<or> i \<noteq> None"
  shows "\<exists>lfd. logfile fl4 = Some lfd \<and>
    psync_fs_crypto_process_log env' lfd checkhash \<lparr>io = [], dfile = d, ifile = i\<rparr> =
      (Returned 0, \<lparr>io = [], dfile = write_all (file_truncate d filesize) (applied filesize ws),
         ifile = map_option (\<lambda>_. index_bytes (if newfile fl2 then []
           else map (\<lambda>(from, to). (from, sub64 to from)) (interval_list (writeintervals fl2)))) i\<rparr>)"
proof -
  let ?env = "env\<lparr>crc_hashw := hashw\<rparr>" and ?itvs = "map (\<lambda>(a, b). (a, sub64 b a)) (interval_list (writeintervals fl2))"
  let ?rs = "if newfile fl2 then [] else ?itvs"
  note init = init_log_holds [OF assms(4-6)]
  have env: "env_ok ?env" using assms(1) init(2) by (auto simp: env_ok_def split: if_splits)
  have h2: "log_holds fl2 (data_recs ws)" "\<forall>w \<in> set ws. write_fits w"
    using log_run_holds [OF assms(7) init(1) env assms(3)] assms(12) by simp_all
  have "\<exists>hs. log_holds fl3 (data_recs ws @ concat (map header_bytes hs)) \<and> list_all2 int_rec ?rs hs"
  proof (cases "newfile fl2")
    case True
    then show ?thesis using assms(8) h2(1) by auto
  next
    case False
    then have run: "interval_loop ?env junk rs (interval_list (writeintervals fl2)) [] fl2 = Some (0, fl3)"
      using assms(8) by (simp add: psync_fs_write_interval_tree_to_log_def)
    have "\<forall>(a, b) \<in> set (interval_list (writeintervals fl2)). a < 2 ^ 64"
      using unat_u64 by (auto simp: interval_list_def)
    with interval_loop_holds [OF env h2(1) run] assms(12) False show ?thesis by simp
  qed
  then obtain hs where hs: "log_holds fl3 (data_recs ws @ concat (map header_bytes hs))" "list_all2 int_rec ?rs hs" by blast
  have "4096 + length (data_recs ws) + 16 * length ?rs < 2 ^ 32" using assms(12) by auto
  moreover have "?rs = [] \<or> i \<noteq> None" using assms(13) by auto
  ultimately show ?thesis using replay_final_log [OF assms(2,10,11) _ h2(2) hs(2)] mark_log_finalized_log [OF hs(1) env assms(10,9)] by simp
qed


text \<open>C39: an interrupted replay can be repeated.  If the replay of a log succeeds from the files \<open>d\<close> and \<open>i\<close>
  when no system call fails, then after a run from these files in which the system calls fail or the
  program dies at any point, with any part of a write done, the replay from the files that are left
  succeeds and gives the same data file and the same index file.\<close>

theorem replay_crash_safe:
  assumes "psync_fs_crypto_process_log env lfd checkhash \<lparr>io = [], dfile = d, ifile = i\<rparr> = (Returned 0, s1)"
    and "psync_fs_crypto_process_log env lfd checkhash \<lparr>io = rs, dfile = d, ifile = i\<rparr> = (e, s2)"
  shows "psync_fs_crypto_process_log env lfd checkhash (s2\<lparr>io := []\<rparr>) = (Returned 0, s1)"
proof -
  obtain n where m: "master_size env lfd checkhash = Inr n" using process_log_zero_master [OF assms(1)] by auto
  let ?f = "(d, i)" and ?idx = "i \<noteq> None" and ?all = "all_effs lfd n (i \<noteq> None)"
  obtain e3 s3 where again: "psync_fs_crypto_process_log env lfd checkhash (s2\<lparr>io := []\<rparr>) = (e3, s3)" by fastforce
  have r1: "files s1 = foldl eff (prepared n ?f) ?all" "io s1 = []" "quiet_end lfd n ?idx = Returned 0"
    using process_log_run [OF m assms(1) refl] by (auto simp: files_def)
  have r2: "prepared n (files s2) = prepared n ?f \<or> (\<exists>ws. cut ws ?all \<and> files s2 = foldl eff (prepared n ?f) ws)"
    "(snd (files s2) \<noteq> None) = ?idx"
    using process_log_run [OF m assms(2) refl] by (auto simp: files_def)
  have same: "files (s2\<lparr>io := []\<rparr>) = files s2" by (simp add: files_def)
  have "e3 = Returned 0" "io s3 = []" "files s3 = foldl eff (prepared n (files s2)) ?all"
    using process_log_run [OF m again refl] r1(3) r2(2) same by auto
  moreover have "foldl eff (prepared n (files s2)) ?all = files s1"
    using r1(1) r2(1) replay_again by auto
  ultimately show ?thesis using again r1(2) by (auto simp: files_def)
qed

text \<open>A processor without the CRC instructions, and a small log.\<close>

definition sw_env :: crc_env where
  "sw_env = \<lparr>hw8 = (\<lambda>_ _. 0), hw64 = (\<lambda>_ _. 0), has_hw = False, crc_hashw = 1, crc_addr = 0,
     ctx_mem = \<lparr>state = [], length_ctx = 0, buff = replicate 64 0\<rparr>\<rparr>"

definition new_openfile :: psync_openfile_t where
  "new_openfile = \<lparr>logfile = Some [], datafile = [], logoffset = 0, loghashctx = \<lparr>state = [], length_ctx = 0, buff = replicate 64 0\<rparr>,
     currentsize = 0, newfile = True, writeintervals = empty_itree, sectorsinlog = PNull, sectorid = (\<lambda>_. 0), sectoroff = (\<lambda>_. 0),
     sectorauth = (\<lambda>_. [])\<rparr>"

lemma sw_env_ok: "env_ok sw_env" "env_ok (sw_env\<lparr>crc_hashw := 1\<rparr>)" "crc_hashw sw_env = 1"
  by (simp_all add: sw_env_def env_ok_def)

theorem finalized_log_replays_witness:
  "\<exists>lfd. psync_fs_crypto_process_log sw_env lfd True \<lparr>io = [], dfile = [9, 9], ifile = None\<rparr> =
     (Returned 0, \<lparr>io = [], dfile = [9, 9, 0, 0, 0, 0, 0, 0, 1, 2, 3, 0], ifile = None\<rparr>)"
proof -
  let ?key = "\<lparr>key_enc = rev, key_dec = rev, key_sha = (\<lambda>_. replicate 64 3), key_iv = []\<rparr>"
  have key: "key_ok ?key" by (simp add: key_ok_def aes_ok_def)
  have new: "logfile new_openfile = Some []" "length (buff (loghashctx new_openfile)) = 64" by (simp_all add: new_openfile_def)
  obtain fl1 h where i: "psync_fs_crypto_init_log sw_env Io_ok new_openfile = (0, fl1, h)" "newfile fl1" "writeintervals fl1 = empty_itree"
    using init_log_ok [OF new(1), of sw_env] by (auto simp: new_openfile_def)
  note h1 = init_log_holds [OF new i(1)]
  have h: "h = 1" using h1(2) sw_env_ok(3) by simp
  obtain fl2 where t: "write_tree_sector (sw_env\<lparr>crc_hashw := 1\<rparr>) 0 Io_ok Io_ok 8 [1, 2, 3] fl1 = Some (0, fl2)" "newfile fl2"
    "writeintervals fl2 = empty_itree"
    using tree_sector_ok [OF h1(1) _ i(2), of "sw_env\<lparr>crc_hashw := 1\<rparr>" 0 8 "[1, 2, 3]"] i(3) by auto
  have h2: "log_holds fl2 ([] @ data_rec (8, [1, 2, 3]))" by (rule tree_sector_holds [OF h1(1) sw_env_ok(2) _ t(1)]) simp
  obtain fl4 where f: "psync_fs_crypto_mark_log_finalized (sw_env\<lparr>crc_hashw := 1\<rparr>) [0, 0, 0, 0] True Io_ok 12 fl2 = Some (0, fl4)"
    using mark_log_finalized_ok [OF h2 _ sw_env_ok(2), of "[0, 0, 0, 0]"] by auto
  have run: "log_run (sw_env\<lparr>crc_hashw := h\<rparr>) ?key fl1 ([] @ [(8, [1, 2, 3])]) fl2"
    unfolding h by (rule run_tree [OF run_start _ _ t(1)]) simp_all
  have itv: "interval_list empty_itree = []" by (simp add: interval_list_def empty_itree_def)
  have "\<exists>lfd. logfile fl4 = Some lfd \<and> psync_fs_crypto_process_log sw_env lfd True \<lparr>io = [], dfile = [9, 9], ifile = None\<rparr> =
      (Returned 0, \<lparr>io = [], dfile = write_all (file_truncate [9, 9] 12) (applied 12 ([] @ [(8, [1, 2, 3])])),
         ifile = map_option (\<lambda>_. index_bytes (if newfile fl2 then []
           else map (\<lambda>(from, to). (from, sub64 to from)) (interval_list (writeintervals fl2)))) (None :: bytes option)\<rparr>)"
    by (rule finalized_log_replays [OF sw_env_ok(1) sw_env_ok(1) key new i(1) run, where ?fl3.0 = fl2 and pad = "[0, 0, 0, 0]"])
       (use t f h itv in \<open>simp_all add: data_rec_def\<close>)
  moreover have "write_all (file_truncate [9, 9] 12) (applied 12 ([] @ [(8, [1, 2, 3])])) = [9, 9, 0, 0, 0, 0, 0, 0, 1, 2, 3, 0]" by code_simp
  ultimately show ?thesis by auto
qed

theorem replay_crash_safe_witness:
  "\<exists>lfd s1 s2. psync_fs_crypto_process_log sw_env lfd False \<lparr>io = [], dfile = [9, 9], ifile = None\<rparr> = (Returned 0, s1) \<and>
     snd (psync_fs_crypto_process_log sw_env lfd False \<lparr>io = [Io_ok, Io_ok, Io_ok, Io_ok, Io_ok, Io_fail 1], dfile = [9, 9], ifile = None\<rparr>) = s2 \<and>
     psync_fs_crypto_process_log sw_env lfd False (s2\<lparr>io := []\<rparr>) = (Returned 0, s1)"
proof -
  let ?lfd = "final_log 12 [0, 0, 0, 0] (data_recs [(8, [1, 2, 3])] @ concat (map header_bytes []))"
  obtain s1 where s1: "psync_fs_crypto_process_log sw_env ?lfd False \<lparr>io = [], dfile = [9, 9], ifile = None\<rparr> = (Returned 0, s1)"
    using replay_final_log [OF sw_env_ok(1), of "[0, 0, 0, 0]" 12 "[(8, [1, 2, 3])]" "[]" "[]" None False "[9, 9]"]
    by (simp add: write_fits_def)
  obtain e s2 where s2: "psync_fs_crypto_process_log sw_env ?lfd False
      \<lparr>io = [Io_ok, Io_ok, Io_ok, Io_ok, Io_ok, Io_fail 1], dfile = [9, 9], ifile = None\<rparr> = (e, s2)" by fastforce
  from replay_crash_safe [OF s1 s2] s1 s2 show ?thesis
    by (intro exI [of _ ?lfd] exI [of _ s1] exI [of _ s2]) simp
qed

end
