(* ===== verification/Pkeytree.thy ===== *)
theory Pkeytree
  imports Ptree
begin

section \<open>Trees that are searched by a key\<close>

text \<open>
  Several components keep the nodes of a \<^verbatim>\<open>psync_tree\<close> ordered by a number stored in them, and walk from the
  root to the node with a given number or to the place where it belongs (the locked pages of
  \<^verbatim>\<open>src/src/psync/pmemlock.c\<close>, the sectors in the log of \<^verbatim>\<open>src/src/psync/pfscrypto.c\<close>).  This theory has that walk and
  what the components use of it: such a tree is a map from keys to nodes.
\<close>

fun key_search :: "('a \<Rightarrow> 'k :: linorder) \<Rightarrow> 'k \<Rightarrow> 'a crumb list \<Rightarrow> 'a ptree \<Rightarrow> 'a + 'a crumb list" where
  "key_search key k cs PNull = Inr cs"
| "key_search key k cs (PNode l x h r) =
     (if k < key x then key_search key k (InLeft x h r # cs) l
      else if key x < k then key_search key k (InRight l x h # cs) r
      else Inl x)"

definition keyed :: "('a \<Rightarrow> 'k :: linorder) \<Rightarrow> 'a ptree \<Rightarrow> bool" where
  "keyed key t \<longleftrightarrow> tree_ok t \<and> sorted_wrt (<) (map key (inorder t))"

lemma key_search_path:
  assumes "sorted_wrt (<) (map key (inorder t))"
  shows "case key_search key k cs t of
     Inl x \<Rightarrow> x \<in> set (inorder t) \<and> key x = k
   | Inr cs' \<Rightarrow> plug cs' PNull = plug cs t \<and> (\<exists>us vs. path_before cs' = path_before cs @ us \<and> path_after cs' = vs @ path_after cs
       \<and> inorder t = us @ vs \<and> (\<forall>u \<in> set us. key u < k) \<and> (\<forall>v \<in> set vs. k < key v))"
  using assms
proof (induction key k cs t rule: key_search.induct)
  case (1 key k cs)
  then show ?case by simp
next
  case (2 key k cs l x h r)
  have s: "sorted_wrt (<) (map key (inorder l))" "sorted_wrt (<) (map key (inorder r))"
    "\<forall>y \<in> set (inorder l). key y < key x" "\<forall>y \<in> set (inorder r). key x < key y"
    using 2(3) by (auto simp: sorted_wrt_append)
  consider "k < key x" | "key x < k" | "key x = k" by (rule linorder_cases)
  then show ?case
  proof cases
    case 1
    note IH = 2(1) [OF 1 s(1)]
    have gt: "\<forall>v \<in> set (x # inorder r). k < key v" using 1 s(4) by auto
    show ?thesis
    proof (cases "key_search key k (InLeft x h r # cs) l")
      case (Inr cs')
      with IH obtain us vs where "plug cs' PNull = plug cs (PNode l x h r)" "path_before cs' = path_before cs @ us"
        "path_after cs' = (vs @ x # inorder r) @ path_after cs" "inorder l = us @ vs" "\<forall>u \<in> set us. key u < k" "\<forall>v \<in> set vs. k < key v" by auto
      then show ?thesis using Inr gt 1 by (auto intro!: exI [of _ us] exI [of _ "vs @ x # inorder r"])
    qed (use IH 1 in auto)
  next
    case k: 2
    then have ne: "\<not> k < key x" by simp
    note IH = 2(2) [OF ne k s(2)]
    have lt: "\<forall>u \<in> set (inorder l @ [x]). key u < k" using k s(3) by auto
    show ?thesis
    proof (cases "key_search key k (InRight l x h # cs) r")
      case (Inr cs')
      with IH obtain us vs where "plug cs' PNull = plug cs (PNode l x h r)" "path_before cs' = path_before cs @ (inorder l @ x # us)"
        "path_after cs' = vs @ path_after cs" "inorder r = us @ vs" "\<forall>u \<in> set us. key u < k" "\<forall>v \<in> set vs. k < key v" by auto
      then show ?thesis using Inr lt k ne by (auto intro!: exI [of _ "inorder l @ x # us"] exI [of _ vs])
    qed (use IH k ne in auto)
  next
    case 3
    then show ?thesis by simp
  qed
qed

lemma keyed_inj: "keyed key t \<Longrightarrow> x \<in> set (inorder t) \<Longrightarrow> y \<in> set (inorder t) \<Longrightarrow> key x = key y \<Longrightarrow> x = y"
proof -
  assume a: "keyed key t" "x \<in> set (inorder t)" "y \<in> set (inorder t)" "key x = key y"
  have "distinct (map key (inorder t))" using a(1) strict_sorted_iff by (auto simp: keyed_def)
  then show "x = y" using a(2-4) by (auto simp: distinct_map inj_on_def)
qed

lemma key_search_spec:
  assumes "keyed key t"
  shows "case key_search key k [] t of
     Inl x \<Rightarrow> x \<in> set (inorder t) \<and> key x = k
   | Inr cs \<Rightarrow> plug cs PNull = t \<and> inorder t = path_before cs @ path_after cs
       \<and> (\<forall>u \<in> set (path_before cs). key u < k) \<and> (\<forall>v \<in> set (path_after cs). k < key v)"
  using key_search_path [of key t k "[]"] assms by (auto simp: keyed_def split: sum.splits)

lemma key_search_found: "keyed key t \<Longrightarrow> x \<in> set (inorder t) \<Longrightarrow> key_search key (key x) [] t = Inl x"
  using key_search_spec [of key t "key x"] keyed_inj [of key t] by (fastforce split: sum.splits)

lemma key_search_absent: "keyed key t \<Longrightarrow> key_search key k [] t = Inr cs \<Longrightarrow> x \<in> set (inorder t) \<Longrightarrow> key x \<noteq> k"
  using key_search_spec [of key t k] by auto

lemma key_added:
  assumes "keyed key t" and "key_search key k [] t = Inr cs" and "new \<notin> set (inorder t)"
  obtains t' where "psync_tree_get_added_at cs new = Some t'" "keyed (key(new := k)) t'" "set (inorder t') = insert new (set (inorder t))"
proof -
  have c: "plug cs PNull = t" "inorder t = path_before cs @ path_after cs" "\<forall>u \<in> set (path_before cs). key u < k" "\<forall>v \<in> set (path_after cs). k < key v"
    using key_search_spec [OF assms(1), of k] assms(2) by simp_all
  obtain t' where t: "psync_tree_get_added_at cs new = Some t'" "avl t'" "inorder t' = path_before cs @ new # path_after cs"
    using added_at_spec [of cs new] c(1) assms(1) by (auto simp: keyed_def tree_ok_def)
  have "map (key(new := k)) (path_before cs @ new # path_after cs) = map key (path_before cs) @ k # map key (path_after cs)"
    using assms(3) c(2) by auto
  moreover have "sorted_wrt (<) (map key (path_before cs) @ k # map key (path_after cs))"
    using assms(1) c(2-4) by (auto simp: keyed_def sorted_wrt_append)
  ultimately have "sorted_wrt (<) (map (key(new := k)) (path_before cs @ new # path_after cs))" by (simp only:)
  then have "keyed (key(new := k)) t'" using assms c t by (auto simp: keyed_def tree_ok_def)
  then show ?thesis using that t c(2) by auto
qed

lemma key_deleted:
  assumes "keyed key t" and "x \<in> set (inorder t)"
  obtains t' where "psync_tree_get_del t x = Some t'" "keyed key t'" "set (inorder t') = set (inorder t) - {x}"
proof -
  obtain us vs where s: "inorder t = us @ x # vs" using assms(2) by (rule in_set_splitE)
  obtain t' where t: "psync_tree_get_del t x = Some t'" "tree_ok t'" "inorder t' = us @ vs"
    using avl_seq.del_node [of t us x vs] s assms(1) by (auto simp: keyed_def)
  have "distinct (us @ x # vs)" using assms(1) s by (auto simp: keyed_def tree_ok_def)
  then have "set (inorder t') = set (inorder t) - {x}" using s t(3) by auto
  moreover have "keyed key t'" using assms(1) s t by (auto simp: keyed_def sorted_wrt_append)
  ultimately show ?thesis using that t(1) by simp
qed

end
