(* ===== verification/Pfscryptorw.thy ===== *)
theory Pfscryptorw
  imports Pfscryptofile Pkeytree
begin

section \<open>Reading and writing the contents of an encrypted file\<close>

text \<open>
  The functions of \<^verbatim>\<open>src/src/psync/pfscrypto.c\<close> that read and write a range of bytes of a file that is
  new or has been modified locally.  A sector that has been written since the log was started is read from
  the log, any other from the data file, where its authentication is in the lowest level of the hash tree.
  A write of a part of a sector reads the sector, changes it and appends it to the log.

  The buffer that a read fills is its second result.  The model is of a file without a background thread
  that extends it (\<^verbatim>\<open>of->extender\<close> is \<^verbatim>\<open>NULL\<close>), so the waits for it return at once.
\<close>

subsection \<open>Reading a sector\<close>

text \<open>
  The results of the calls of one read of a sector: the size of the data file, the first and the second
  read; \<open>rd_debug\<close> says whether this is a debug build, which checks the path to the root of the hash tree with
  the reads of \<open>rd_levels\<close>.
\<close>

record read_io =
  rd_stat :: bool
  rd_first :: io_result
  rd_second :: io_result
  rd_debug :: bool
  rd_levels :: "nat \<Rightarrow> io_result"

definition decoded :: "(bytes \<times> int) option \<Rightarrow> nat \<Rightarrow> (int \<times> bytes) option" where
  "decoded r n = map_option (\<lambda>(out, bad). (if bad \<noteq> 0 then - EIO else int n, out)) r"

definition psync_fs_crypto_read_newfile_full_sector_from_log :: "crypto_key \<Rightarrow> read_io \<Rightarrow> addr \<Rightarrow> psync_openfile_t \<Rightarrow> (int \<times> bytes) option" where
  "psync_fs_crypto_read_newfile_full_sector_from_log key rio se fl =
     (case log_pread (logfile fl) 16 (sectoroff fl se) (rd_first rio) of
        None \<Rightarrow> Some (- EIO, [])
      | Some bs \<Rightarrow>
          if length bs \<noteq> 16 then Some (- EIO, [])
          else let hdr = read_header bs in
            if rectype hdr \<noteq> PSYNC_CRYPTO_LOG_DATA then Some (- EIO, [])
            else if recoffset hdr \<noteq> uint64 (psync_fs_crypto_data_sectorid_by_sectorid (sectorid fl se) * PSYNC_CRYPTO_SECTOR_SIZE)
                 \<or> \<not> reclength hdr \<le> PSYNC_CRYPTO_SECTOR_SIZE then None
            else case log_pread (logfile fl) (reclength hdr) (sectoroff fl se + 16) (rd_second rio) of
                   None \<Rightarrow> Some (- EIO, [])
                 | Some data \<Rightarrow>
                     if length data \<noteq> reclength hdr then Some (- EIO, [])
                     else decoded (psync_crypto_aes256_decode_sector (key_dec key) (key_sha key) (key_iv key) data
                            (sectorauth fl se) (word_of_nat (sectorid fl se))) (length data))"

text \<open>
  The check of debug builds.  \<open>auth_place\<close> is the place of a sector of the tree; the loop goes up until it has
  compared the master authentication.
\<close>

definition auth_place :: "psync_crypto_offsets_t \<Rightarrow> nat \<Rightarrow> nat \<Rightarrow> nat \<Rightarrow> (nat \<times> nat) option" where
  "auth_place offsets level sid sizesect =
     (if sid = sizesect
      then if level < PSYNC_CRYPTO_MAX_HASH_TREE_LEVEL
           then Some (lastauthsectoroff offsets ! level, lastauthsectorlen offsets ! level) else None
      else case psync_fs_crypto_auth_offset level sid of Inl e \<Rightarrow> None | Inr off \<Rightarrow> Some (off, PSYNC_CRYPTO_SECTOR_SIZE))"

function tree_check_loop :: "crypto_key \<Rightarrow> read_io \<Rightarrow> bytes \<Rightarrow> psync_crypto_offsets_t \<Rightarrow> nat \<Rightarrow> nat \<Rightarrow> nat \<Rightarrow> bytes \<Rightarrow> int option" where
  "tree_check_loop key rio f offsets level sid sizesect auth =
     (if \<not> level < treelevels offsets then Some 0
      else let authoff = sid mod PSYNC_CRYPTO_HASH_TREE_SECTORS * PSYNC_CRYPTO_AUTH_SIZE;
               sid1 = sid div PSYNC_CRYPTO_HASH_TREE_SECTORS; sizesect1 = sizesect div PSYNC_CRYPTO_HASH_TREE_SECTORS in
        Option.bind (auth_place offsets (level + 1) sid1 sizesect1) (\<lambda>(off, ssize).
          case psync_file_pread f ssize off (rd_levels rio (level + 1)) of
            None \<Rightarrow> Some (-1)
          | Some sect \<Rightarrow>
              if length sect \<noteq> ssize then Some (-1)
              else if take PSYNC_CRYPTO_AUTH_SIZE (drop authoff sect) \<noteq> auth then Some (-1)
              else tree_check_loop key rio f offsets (level + 1) sid1 sizesect1
                     (psync_crypto_sign_auth_sector (key_enc key) (key_sha key) (key_iv key) sect)))"
  by pat_completeness auto
termination
  by (relation "measure (\<lambda>(key, rio, f, offsets, level, sid, sizesect, auth). treelevels offsets - level)") auto

declare tree_check_loop.simps [simp del]

definition psync_fs_crypto_do_local_tree_check :: "crypto_key \<Rightarrow> read_io \<Rightarrow> bytes \<Rightarrow> nat \<Rightarrow> psync_crypto_offsets_t \<Rightarrow> int option" where
  "psync_fs_crypto_do_local_tree_check key rio f sid offsets =
     (if \<not> needmasterauth offsets then Some 0
      else let sid1 = sid div PSYNC_CRYPTO_HASH_TREE_SECTORS;
               sizesect = get_last_sectorid_by_size (plainsize offsets) div PSYNC_CRYPTO_HASH_TREE_SECTORS in
        Option.bind (auth_place offsets 0 sid1 sizesect) (\<lambda>(off, ssize).
          case psync_file_pread f ssize off (rd_levels rio 0) of
            None \<Rightarrow> Some (-1)
          | Some sect \<Rightarrow>
              if length sect \<noteq> ssize then Some (-1)
              else tree_check_loop key rio f offsets 0 sid1 sizesect
                     (psync_crypto_sign_auth_sector (key_enc key) (key_sha key) (key_iv key) sect)))"

definition psync_fs_crypto_read_newfile_full_sector_from_datafile :: "crypto_key \<Rightarrow> read_io \<Rightarrow> nat \<Rightarrow> psync_openfile_t \<Rightarrow> (int \<times> bytes) option" where
  "psync_fs_crypto_read_newfile_full_sector_from_datafile key rio sid fl =
     (if \<not> rd_stat rio then Some (- EIO, [])
      else case psync_fs_crypto_offsets_by_cryptosize (length (datafile fl)) of
        Inl e \<Rightarrow> None
      | Inr offsets \<Rightarrow>
         (case data_sector offsets sid of
            None \<Rightarrow> Some (0, [])
          | Some (off, ssize) \<Rightarrow>
             (case psync_file_pread (datafile fl) ssize off (rd_first rio) of
                None \<Rightarrow> Some (- EIO, [])
              | Some sect \<Rightarrow>
                  if length sect \<noteq> ssize then Some (- EIO, [])
                  else Option.bind (auth_place offsets 0 (sid div PSYNC_CRYPTO_HASH_TREE_SECTORS)
                         (get_last_sectorid_by_size (plainsize offsets) div PSYNC_CRYPTO_HASH_TREE_SECTORS)) (\<lambda>(aoff, _).
                    let off = uint64 (aoff + sid mod PSYNC_CRYPTO_HASH_TREE_SECTORS * PSYNC_CRYPTO_AUTH_SIZE) in
                    case psync_file_pread (datafile fl) PSYNC_CRYPTO_AUTH_SIZE off (rd_second rio) of
                      None \<Rightarrow> Some (- EIO, [])
                    | Some auth \<Rightarrow>
                        if length auth \<noteq> PSYNC_CRYPTO_AUTH_SIZE then Some (- EIO, [])
                        else Option.bind (decoded (psync_crypto_aes256_decode_sector (key_dec key) (key_sha key) (key_iv key) sect auth
                                 (word_of_nat sid)) ssize) (\<lambda>(ret, out).
                          if ret < 0 \<or> \<not> rd_debug rio then Some (ret, out)
                          else map_option (\<lambda>bad. (if bad \<noteq> 0 then - EIO else ret, out))
                                 (psync_fs_crypto_do_local_tree_check key rio (datafile fl) sid offsets))))))"

definition psync_fs_crypto_read_newfile_full_sector :: "crypto_key \<Rightarrow> read_io \<Rightarrow> nat \<Rightarrow> psync_openfile_t \<Rightarrow> (int \<times> bytes) option" where
  "psync_fs_crypto_read_newfile_full_sector key rio sid fl =
     (case sector_search (sectorid fl) sid [] (sectorsinlog fl) of
        Inl se \<Rightarrow> psync_fs_crypto_read_newfile_full_sector_from_log key rio se fl
      | Inr cs \<Rightarrow> psync_fs_crypto_read_newfile_full_sector_from_datafile key rio sid fl)"

definition psync_fs_crypto_read_newfile_partial_sector :: "crypto_key \<Rightarrow> read_io \<Rightarrow> nat \<Rightarrow> nat \<Rightarrow> nat \<Rightarrow> psync_openfile_t \<Rightarrow> (int \<times> bytes) option" where
  "psync_fs_crypto_read_newfile_partial_sector key rio sid size0 offset fl =
     (if \<not> offset + size0 \<le> PSYNC_CRYPTO_SECTOR_SIZE then None
      else map_option (\<lambda>(rd, sect).
        if rd \<le> 0 then (rd, [])
        else if rd \<le> int offset then (0, [])
        else let n = (if nat rd - offset > size0 then size0 else nat rd - offset)
             in (int n, take n (drop offset sect)))
       (psync_fs_crypto_read_newfile_full_sector key rio sid fl))"

subsection \<open>Reading a range\<close>

definition EINVAL :: int where "EINVAL = 22"

definition PSYNC_CRYPTO_MAX_SECTORID :: nat where [simp]: "PSYNC_CRYPTO_MAX_SECTORID = 4294967294"

definition past_last_sector :: "nat \<Rightarrow> nat \<Rightarrow> bool" where
  "past_last_sector size0 offset \<longleftrightarrow>
     uint64 (size0 + offset + PSYNC_CRYPTO_SECTOR_SIZE - 1) div PSYNC_CRYPTO_SECTOR_SIZE > PSYNC_CRYPTO_MAX_SECTORID"

text \<open>A count of bytes as the \<^verbatim>\<open>int\<close> in which it is returned.\<close>

definition int32 :: "nat \<Rightarrow> int" where
  "int32 n = signed_take_bit 31 (int n)"

text \<open>The whole sectors of a range and the part of the last one; \<open>rd\<close> is the number of bytes read so far, \<open>acc\<close> these
  bytes, and \<open>rios\<close> gives the results of the calls by the number of the sector.\<close>

function read_sectors :: "crypto_key \<Rightarrow> (nat \<Rightarrow> read_io) \<Rightarrow> nat \<Rightarrow> nat \<Rightarrow> nat \<Rightarrow> bytes \<Rightarrow> psync_openfile_t \<Rightarrow> (int \<times> bytes) option" where
  "read_sectors key rios sid size0 rd acc fl =
     (if PSYNC_CRYPTO_SECTOR_SIZE \<le> size0
      then Option.bind (psync_fs_crypto_read_newfile_full_sector key (rios sid) sid fl) (\<lambda>(ret, buf).
        if ret \<noteq> int PSYNC_CRYPTO_SECTOR_SIZE then Some (if ret < 0 then ret else ret + int32 rd, acc @ buf)
        else read_sectors key rios (uint32 (sid + 1)) (size0 - PSYNC_CRYPTO_SECTOR_SIZE) (rd + PSYNC_CRYPTO_SECTOR_SIZE) (acc @ buf) fl)
      else if size0 \<noteq> 0
      then map_option (\<lambda>(ret, buf).
        if ret \<noteq> int size0 then (if ret < 0 then ret else ret + int32 rd, acc @ buf) else (int32 (rd + size0), acc @ buf))
        (psync_fs_crypto_read_newfile_partial_sector key (rios sid) sid size0 0 fl)
      else Some (int32 rd, acc))"
  by pat_completeness auto
termination
  by (relation "measure (\<lambda>(key, rios, sid, size0, rd, acc, fl). size0)") auto

declare read_sectors.simps [simp del]

definition psync_fs_crypto_read_newfile_locked :: "crypto_key \<Rightarrow> (nat \<Rightarrow> read_io) \<Rightarrow> nat \<Rightarrow> nat \<Rightarrow> psync_openfile_t \<Rightarrow> (int \<times> bytes) option" where
  "psync_fs_crypto_read_newfile_locked key rios size0 offset fl =
     (if past_last_sector size0 offset then Some (- EINVAL, [])
      else if size0 = 0 \<or> currentsize fl \<le> offset then Some (0, [])
      else let size0 = (if uint64 (offset + size0) > currentsize fl then currentsize fl - offset else size0);
               sid = uint32 (offset div PSYNC_CRYPTO_SECTOR_SIZE);
               off2 = offset mod PSYNC_CRYPTO_SECTOR_SIZE in
        if off2 \<noteq> 0
        then let offdiff = (if PSYNC_CRYPTO_SECTOR_SIZE - off2 < size0 then PSYNC_CRYPTO_SECTOR_SIZE - off2 else size0) in
             Option.bind (psync_fs_crypto_read_newfile_partial_sector key (rios sid) sid offdiff off2 fl) (\<lambda>(ret, buf).
               if ret \<noteq> int offdiff then Some (ret, buf)
               else read_sectors key rios (uint32 (sid + 1)) (size0 - offdiff) offdiff buf fl)
        else read_sectors key rios sid size0 0 [] fl)"

subsection \<open>Writing a range\<close>

text \<open>What one write of a sector takes from outside: the random bytes, the alignment, the addresses for the nodes
  of the two trees, the results of the calls of the write, of resetting the log when it fails, and of reading the old sector.\<close>

record write_io =
  w_rnd :: bytes
  w_al :: bool
  w_node :: addr
  w_inode :: addr
  w_res :: io_result
  w_reset :: reset_io
  w_read :: read_io

definition write_full :: "crc_env \<Rightarrow> crypto_key \<Rightarrow> write_io \<Rightarrow> bytes \<Rightarrow> nat \<Rightarrow> psync_openfile_t \<Rightarrow> (int \<times> psync_openfile_t) option" where
  "write_full env key w buf sid fl =
     psync_fs_crypto_write_newfile_full_sector env key (w_rnd w) (w_al w) (w_node w) (w_inode w) (w_res w) (w_reset w) buf sid fl"

definition psync_fs_crypto_write_newfile_partial_sector :: "crc_env \<Rightarrow> crypto_key \<Rightarrow> write_io \<Rightarrow> bytes \<Rightarrow> nat \<Rightarrow> nat \<Rightarrow> psync_openfile_t
    \<Rightarrow> (int \<times> psync_openfile_t) option" where
  "psync_fs_crypto_write_newfile_partial_sector env key w buf sid offset fl =
     (if \<not> offset + length buf \<le> PSYNC_CRYPTO_SECTOR_SIZE then None
      else Option.bind (psync_fs_crypto_read_newfile_full_sector key (w_read w) sid fl) (\<lambda>(rd, old).
        if rd < 0 then Some (rd, fl)
        else let sect = old @ replicate (PSYNC_CRYPTO_SECTOR_SIZE - length old) 0;
                 sect = take offset sect @ buf @ drop (offset + length buf) sect;
                 n = (if nat rd < length buf + offset then length buf + offset else nat rd)
             in write_full env key w (take n sect) sid fl))"

definition grow_to :: "nat \<Rightarrow> psync_openfile_t \<Rightarrow> psync_openfile_t" where
  "grow_to offset fl = (if currentsize fl < offset then fl\<lparr>currentsize := offset\<rparr> else fl)"

text \<open>The \<open>k\<close>-th write of a call uses \<open>ws k\<close>; the loops return the number of the next one.\<close>

function fillzero_loop :: "crc_env \<Rightarrow> crypto_key \<Rightarrow> (nat \<Rightarrow> write_io) \<Rightarrow> nat \<Rightarrow> nat \<Rightarrow> nat \<Rightarrow> nat \<Rightarrow> psync_openfile_t
    \<Rightarrow> (int \<times> psync_openfile_t \<times> nat) option" where
  "fillzero_loop env key ws k size0 offset sid fl =
     (if size0 = 0 then Some (0, fl, k)
      else let wr = (if size0 > PSYNC_CRYPTO_SECTOR_SIZE then PSYNC_CRYPTO_SECTOR_SIZE else size0) in
        Option.bind (write_full env key (ws k) (replicate wr 0) sid fl) (\<lambda>(ret, fl).
          if ret < 0 then Some (ret, fl, k + 1)
          else fillzero_loop env key ws (k + 1) (size0 - wr) (uint64 (offset + wr)) (uint32 (sid + 1)) (grow_to (uint64 (offset + wr)) fl)))"
  by pat_completeness auto
termination
  by (relation "measure (\<lambda>(env, key, ws, k, size0, offset, sid, fl). size0)") auto

declare fillzero_loop.simps [simp del]

definition psync_fs_newfile_fillzero :: "crc_env \<Rightarrow> crypto_key \<Rightarrow> (nat \<Rightarrow> write_io) \<Rightarrow> nat \<Rightarrow> nat \<Rightarrow> nat \<Rightarrow> psync_openfile_t
    \<Rightarrow> (int \<times> psync_openfile_t \<times> nat) option" where
  "psync_fs_newfile_fillzero env key ws k size0 offset fl =
     (let sid = uint32 (offset div PSYNC_CRYPTO_SECTOR_SIZE); off2 = offset mod PSYNC_CRYPTO_SECTOR_SIZE in
      if off2 \<noteq> 0
      then let wr = (if PSYNC_CRYPTO_SECTOR_SIZE - off2 > size0 then size0 else PSYNC_CRYPTO_SECTOR_SIZE - off2) in
           Option.bind (psync_fs_crypto_write_newfile_partial_sector env key (ws k) (replicate wr 0) sid off2 fl) (\<lambda>(ret, fl).
             if ret < 0 then Some (ret, fl, k + 1)
             else fillzero_loop env key ws (k + 1) (size0 - wr) (uint64 (offset + wr)) (uint32 (sid + 1)) (grow_to (uint64 (offset + wr)) fl))
      else fillzero_loop env key ws k size0 offset sid fl)"

text \<open>The whole sectors of a write and the part of the last one.\<close>

function write_sectors :: "crc_env \<Rightarrow> crypto_key \<Rightarrow> (nat \<Rightarrow> write_io) \<Rightarrow> nat \<Rightarrow> bytes \<Rightarrow> nat \<Rightarrow> nat \<Rightarrow> nat \<Rightarrow> psync_openfile_t
    \<Rightarrow> (int \<times> psync_openfile_t) option" where
  "write_sectors env key ws k buf offset sid wrt fl =
     (if PSYNC_CRYPTO_SECTOR_SIZE \<le> length buf
      then Option.bind (write_full env key (ws k) (take PSYNC_CRYPTO_SECTOR_SIZE buf) sid fl) (\<lambda>(ret, fl).
        if ret \<noteq> 0 then Some (ret, fl)
        else write_sectors env key ws (k + 1) (drop PSYNC_CRYPTO_SECTOR_SIZE buf) (uint64 (offset + PSYNC_CRYPTO_SECTOR_SIZE))
               (uint32 (sid + 1)) (wrt + PSYNC_CRYPTO_SECTOR_SIZE) (grow_to (uint64 (offset + PSYNC_CRYPTO_SECTOR_SIZE)) fl))
      else if buf \<noteq> []
      then Option.bind (if offset = currentsize fl then write_full env key (ws k) buf sid fl
                        else psync_fs_crypto_write_newfile_partial_sector env key (ws k) buf sid 0 fl) (\<lambda>(ret, fl).
        if ret \<noteq> 0 then Some (ret, fl)
        else Some (int32 (wrt + length buf), grow_to (uint64 (offset + length buf)) fl))
      else Some (int32 wrt, fl))"
  by pat_completeness auto
termination
  by (relation "measure (\<lambda>(env, key, ws, k, buf, offset, sid, wrt, fl). length buf)") auto

declare write_sectors.simps [simp del]

definition write_range :: "crc_env \<Rightarrow> crypto_key \<Rightarrow> (nat \<Rightarrow> write_io) \<Rightarrow> nat \<Rightarrow> bytes \<Rightarrow> nat \<Rightarrow> psync_openfile_t
    \<Rightarrow> (int \<times> psync_openfile_t) option" where
  "write_range env key ws k buf offset fl =
     (let sid = uint32 (offset div PSYNC_CRYPTO_SECTOR_SIZE); off2 = offset mod PSYNC_CRYPTO_SECTOR_SIZE in
      if off2 \<noteq> 0
      then let offdiff = (if PSYNC_CRYPTO_SECTOR_SIZE - off2 < length buf then PSYNC_CRYPTO_SECTOR_SIZE - off2 else length buf) in
           Option.bind (psync_fs_crypto_write_newfile_partial_sector env key (ws k) (take offdiff buf) sid off2 fl) (\<lambda>(ret, fl).
             if ret \<noteq> 0 then Some (ret, fl)
             else write_sectors env key ws (k + 1) (drop offdiff buf) (uint64 (offset + offdiff)) (uint32 (sid + 1)) offdiff
                    (grow_to (uint64 (offset + offdiff)) fl))
      else write_sectors env key ws k buf offset sid 0 fl)"

text \<open>The function up to the test of the size of the log.\<close>

definition write_newfile :: "crc_env \<Rightarrow> crypto_key \<Rightarrow> (nat \<Rightarrow> write_io) \<Rightarrow> bytes \<Rightarrow> nat \<Rightarrow> psync_openfile_t \<Rightarrow> (int \<times> psync_openfile_t) option" where
  "write_newfile env key ws buf offset fl =
     (if past_last_sector (length buf) offset then Some (- EINVAL, fl)
      else if buf = [] then Some (0, fl)
      else if currentsize fl < offset
      then Option.bind (psync_fs_newfile_fillzero env key ws 0 (offset - currentsize fl) (currentsize fl) fl) (\<lambda>(ret, fl, k).
        if ret \<noteq> 0 then Some (ret, fl)
        else if currentsize fl \<noteq> offset then None
        else write_range env key ws k buf offset fl)
      else write_range env key ws 0 buf offset fl)"

subsection \<open>The sectors in the log as a map\<close>

definition sectors_ok :: "psync_openfile_t \<Rightarrow> bool" where
  "sectors_ok fl \<longleftrightarrow> keyed (sectorid fl) (sectorsinlog fl) \<and> (\<forall>x \<in> set (inorder (sectorsinlog fl)). sectorid fl x < 2 ^ 31)"

definition in_log :: "psync_openfile_t \<Rightarrow> nat \<Rightarrow> (nat \<times> bytes) option" where
  "in_log fl sid = (case sector_search (sectorid fl) sid [] (sectorsinlog fl) of
     Inl x \<Rightarrow> Some (sectoroff fl x, sectorauth fl x) | Inr cs \<Rightarrow> None)"

text \<open>The signed difference of two sector numbers below \<^term>\<open>2 ^ 31 :: nat\<close> has the sign of their comparison.\<close>

lemma sub32_signed:
  assumes "x < 2 ^ 31" and "y < 2 ^ 31"
  shows "2 ^ 31 \<le> sub32 x y \<longleftrightarrow> x < y" "\<not> x < y \<Longrightarrow> 0 < sub32 x y \<longleftrightarrow> y < x"
proof -
  have "sub32 x y = x + 2 ^ 32 - y" if "x < y" using that assms by (simp add: sub32_def fits)
  moreover have "sub32 x y = x - y" if "y \<le> x"
  proof -
    have y: "uint32 y = y" and le: "y \<le> 4294967296" and lt: "x - y < 4294967296" using assms that by (simp_all add: fits)
    have "x + (4294967296 - y) = (x - y) + 4294967296" using that le by linarith
    then have "sub32 x y = ((x - y) + 4294967296) mod 4294967296" by (simp only: sub32_def y) simp
    then show ?thesis using lt by (simp only: mod_add_self2 mod_less)
  qed
  ultimately show "2 ^ 31 \<le> sub32 x y \<longleftrightarrow> x < y" "\<not> x < y \<Longrightarrow> 0 < sub32 x y \<longleftrightarrow> y < x"
    using assms by (cases "x < y"; simp; linarith)+
qed

lemma sector_search_key:
  assumes "sid < 2 ^ 31" and "\<forall>x \<in> set (inorder t). ids x < 2 ^ 31"
  shows "sector_search ids sid cs t = key_search ids sid cs t"
  using assms(2)
proof (induction t arbitrary: cs)
  case (PNode l x h r)
  then have "ids x < 2 ^ 31" by simp
  with PNode show ?case using sub32_signed [OF assms(1), of "ids x"] by (simp add: Let_def)
qed simp

lemma sectors_search: "sectors_ok fl \<Longrightarrow> sid < 2 ^ 31 \<Longrightarrow> sector_search (sectorid fl) sid [] (sectorsinlog fl) = key_search (sectorid fl) sid [] (sectorsinlog fl)"
  by (simp add: sectors_ok_def sector_search_key)

lemma search_ok:
  assumes "sectors_ok fl" and "sid < 2 ^ 31" and "sector_search (sectorid fl) sid [] (sectorsinlog fl) = Inl x"
  shows "x \<in> set (inorder (sectorsinlog fl))" "sectorid fl x = sid"
proof -
  have "key_search (sectorid fl) sid [] (sectorsinlog fl) = Inl x" using sectors_search [OF assms(1,2)] assms(3) by simp
  then show "x \<in> set (inorder (sectorsinlog fl))" "sectorid fl x = sid"
    using key_search_spec [of "sectorid fl" "sectorsinlog fl" sid] assms(1) by (simp_all add: sectors_ok_def)
qed

lemma in_log_node:
  assumes "sectors_ok fl" and "x \<in> set (inorder (sectorsinlog fl))"
  shows "in_log fl (sectorid fl x) = Some (sectoroff fl x, sectorauth fl x)"
  using assms key_search_found [of "sectorid fl" "sectorsinlog fl" x] sectors_search [OF assms(1), of "sectorid fl x"]
  by (simp add: in_log_def sectors_ok_def)

lemma in_log_absent:
  assumes "sectors_ok fl" and "s < 2 ^ 31" and "\<forall>x \<in> set (inorder (sectorsinlog fl)). sectorid fl x \<noteq> s"
  shows "in_log fl s = None"
  using assms search_ok [OF assms(1,2)] by (auto simp: in_log_def split: sum.splits)

lemma set_sector_spec:
  assumes "sectors_ok fl" and "sid < 2 ^ 31" and "new \<notin> set (inorder (sectorsinlog fl))"
  shows "\<exists>fl'. psync_fs_crypto_set_sector_log_offset new sid off auth fl = Some fl' \<and> sectors_ok fl'
    \<and> set (inorder (sectorsinlog fl')) \<subseteq> insert new (set (inorder (sectorsinlog fl)))
    \<and> (\<forall>s < 2 ^ 31. in_log fl' s = (if s = sid then Some (off, auth) else in_log fl s))
    \<and> datafile fl' = datafile fl \<and> currentsize fl' = currentsize fl"
proof (cases "sector_search (sectorid fl) sid [] (sectorsinlog fl)")
  case (Inl x)
  let ?fl = "fl\<lparr>sectoroff := (sectoroff fl)(x := off), sectorauth := (sectorauth fl)(x := auth)\<rparr>"
  have "sectors_ok ?fl" using assms(1) by (simp add: sectors_ok_def)
  moreover have "in_log ?fl s = (if s = sid then Some (off, auth) else in_log fl s)" if "s < 2 ^ 31" for s
    using Inl search_ok [OF assms(1,2) Inl] search_ok [OF assms(1) that] by (auto simp: in_log_def split: sum.splits)
  ultimately show ?thesis using Inl by (auto simp: psync_fs_crypto_set_sector_log_offset_def)
next
  case (Inr cs)
  then have k: "keyed (sectorid fl) (sectorsinlog fl)" "key_search (sectorid fl) sid [] (sectorsinlog fl) = Inr cs"
    using assms(1) sectors_search [OF assms(1,2)] by (simp_all add: sectors_ok_def)
  obtain t where t: "psync_tree_get_added_at cs new = Some t" "keyed ((sectorid fl)(new := sid)) t" "set (inorder t) = insert new (set (inorder (sectorsinlog fl)))"
    by (rule key_added [OF k assms(3)])
  let ?fl = "fl\<lparr>sectorsinlog := t, sectorid := (sectorid fl)(new := sid), sectoroff := (sectoroff fl)(new := off),
    sectorauth := (sectorauth fl)(new := auth)\<rparr>"
  have ok: "sectors_ok ?fl" using assms(1,2) t by (auto simp: sectors_ok_def)
  have "in_log ?fl s = (if s = sid then Some (off, auth) else in_log fl s)" if s: "s < 2 ^ 31" for s
  proof (cases "\<exists>x \<in> set (inorder (sectorsinlog ?fl)). sectorid ?fl x = s")
    case True
    then obtain x where x: "x \<in> set (inorder (sectorsinlog ?fl))" "sectorid ?fl x = s" by blast
    show ?thesis
    proof (cases "x = new")
      case True
      then show ?thesis using in_log_node [OF ok x(1)] x(2) by simp
    next
      case False
      then have "x \<in> set (inorder (sectorsinlog fl))" "sectorid fl x = s" using x t(3) by auto
      with key_search_absent [OF k] in_log_node [OF assms(1)] False show ?thesis using in_log_node [OF ok x(1)] x(2) by auto
    qed
  next
    case False
    then have "s \<noteq> sid" "\<forall>x \<in> set (inorder (sectorsinlog fl)). sectorid fl x \<noteq> s" using t(3) assms(3) by (auto split: if_splits)
    then show ?thesis using in_log_absent [OF ok s] in_log_absent [OF assms(1) s] False by simp
  qed
  then show ?thesis using Inr t ok by (auto simp: psync_fs_crypto_set_sector_log_offset_def)
qed

subsection \<open>Records of the log\<close>

text \<open>Without failing calls, reading from the log is a function of the log, the place of the record and the authentication.\<close>

definition quiet_io :: "bool \<Rightarrow> read_io" where
  "quiet_io dbg = \<lparr>rd_stat = True, rd_first = Io_ok, rd_second = Io_ok, rd_debug = dbg, rd_levels = (\<lambda>_. Io_ok)\<rparr>"

definition record_at :: "bytes \<Rightarrow> nat \<Rightarrow> nat \<Rightarrow> bytes \<Rightarrow> bool" where
  "record_at f off sid out \<longleftrightarrow>
     (\<exists>rest. drop off f = data_rec (psync_fs_crypto_data_offset_by_sectorid sid, out) @ rest) \<and> length out \<le> 4096"

definition sector_in_log :: "crypto_key \<Rightarrow> psync_openfile_t \<Rightarrow> nat \<Rightarrow> bytes \<Rightarrow> bool" where
  "sector_in_log key fl sid d \<longleftrightarrow> (\<exists>f off auth out. logfile fl = Some f \<and> in_log fl sid = Some (off, auth) \<and> record_at f off sid out
     \<and> psync_crypto_aes256_decode_sector (key_dec key) (key_sha key) (key_iv key) out auth (word_of_nat sid) = Some (d, 0)
     \<and> length d = length out)"

lemma tree_sum_31: "sid < 2 ^ 31 \<Longrightarrow> tree_sum sid < 2 ^ 32"
  using tree_sum_le [of sid] by simp

lemma record_at_append: "record_at f off sid out \<Longrightarrow> off \<le> length f \<Longrightarrow> record_at (f @ g) off sid out"
  by (auto simp: record_at_def)

lemma record_at_le: "record_at f off sid out \<Longrightarrow> off \<le> length f"
proof (rule ccontr)
  assume r: "record_at f off sid out" "\<not> off \<le> length f"
  then obtain rest where "[] = data_rec (psync_fs_crypto_data_offset_by_sectorid sid, out) @ rest" by (auto simp: record_at_def)
  then have "length (data_rec (psync_fs_crypto_data_offset_by_sectorid sid, out)) = 0" by simp
  then show False by simp
qed

lemma read_from_log:
  assumes "sectors_ok fl" and "sid < 2 ^ 31" and "sector_in_log key fl sid d"
  shows "psync_fs_crypto_read_newfile_full_sector key (quiet_io dbg) sid fl = Some (int (length d), d)"
proof -
  obtain f off auth out where s: "logfile fl = Some f" "in_log fl sid = Some (off, auth)" "record_at f off sid out"
    "psync_crypto_aes256_decode_sector (key_dec key) (key_sha key) (key_iv key) out auth (word_of_nat sid) = Some (d, 0)" "length d = length out"
    using assms(3) by (auto simp: sector_in_log_def)
  obtain x where x: "sector_search (sectorid fl) sid [] (sectorsinlog fl) = Inl x" "sectoroff fl x = off" "sectorauth fl x = auth" "sectorid fl x = sid"
    using s(2) search_ok(2) [OF assms(1,2)] by (auto simp: in_log_def split: sum.splits)
  let ?o = "psync_fs_crypto_data_offset_by_sectorid sid" and ?h = "data_header (length out) (psync_fs_crypto_data_offset_by_sectorid sid)"
  obtain rest where rest: "drop off f = header_bytes ?h @ out @ rest" "length out \<le> 4096" using s(3) by (auto simp: record_at_def data_rec_def)
  have o: "?o = psync_fs_crypto_data_sectorid_by_sectorid sid * 4096" "?o < 2 ^ 64"
    using data_sectorid_offset [OF tree_sum_31 [OF assms(2)]] data_offset_by_sectorid [of sid] tree_sum_31 [OF assms(2)] assms(2) by simp_all
  then have h: "rectype (read_header (header_bytes ?h)) = 1" "reclength (read_header (header_bytes ?h)) = length out"
    "recoffset (read_header (header_bytes ?h)) = ?o"
    using read_header_bytes [of ?h] rest(2) by (simp_all add: data_header_def fits)
  have rd: "take 16 (drop off f) = header_bytes ?h" "take (length out) (drop (off + 16) f) = out"
    using rest(1) drop_append_eq [OF rest(1)] by simp_all
  have u: "uint64 (psync_fs_crypto_data_sectorid_by_sectorid sid * 4096) = ?o" using o by (simp add: fits)
  have "psync_fs_crypto_read_newfile_full_sector_from_log key (quiet_io dbg) x fl = Some (int (length d), d)"
    using s rest(2) by (simp add: psync_fs_crypto_read_newfile_full_sector_from_log_def log_pread_def psync_file_pread_def quiet_io_def x rd h u decoded_def Let_def)
  then show ?thesis using x(1) by (simp add: psync_fs_crypto_read_newfile_full_sector_def)
qed

lemma read_not_in_log:
  assumes "sectors_ok fl" and "sid < 2 ^ 31" and "in_log fl sid = None"
  shows "psync_fs_crypto_read_newfile_full_sector key rio sid fl = psync_fs_crypto_read_newfile_full_sector_from_datafile key rio sid fl"
  using assms(3) by (auto simp: psync_fs_crypto_read_newfile_full_sector_def in_log_def split: sum.splits)

lemma read_from_datafile_cong:
  assumes "datafile fl' = datafile fl"
  shows "psync_fs_crypto_read_newfile_full_sector_from_datafile key rio sid fl' =
     psync_fs_crypto_read_newfile_full_sector_from_datafile key rio sid fl"
  unfolding psync_fs_crypto_read_newfile_full_sector_from_datafile_def assms ..

subsection \<open>The contents of a file\<close>

definition sec :: "bytes \<Rightarrow> nat \<Rightarrow> bytes" where
  "sec data s = take 4096 (drop (4096 * s) data)"

definition sector_holds :: "crypto_key \<Rightarrow> bool \<Rightarrow> psync_openfile_t \<Rightarrow> nat \<Rightarrow> bytes \<Rightarrow> bool" where
  "sector_holds key dbg fl sid d \<longleftrightarrow> (if in_log fl sid = None
     then psync_fs_crypto_read_newfile_full_sector_from_datafile key (quiet_io dbg) sid fl = Some (int (length d), d)
     else sector_in_log key fl sid d)"

text \<open>The state of an open new file whose contents are \<open>data\<close>.\<close>

definition file_holds :: "crypto_key \<Rightarrow> bool \<Rightarrow> psync_openfile_t \<Rightarrow> bytes \<Rightarrow> bool" where
  "file_holds key dbg fl data \<longleftrightarrow> currentsize fl = length data \<and> newfile fl \<and> sectors_ok fl
     \<and> (\<exists>f. logfile fl = Some f \<and> logoffset fl = length f)
     \<and> (\<forall>s. 4096 * s < length data \<longrightarrow> sector_holds key dbg fl s (sec data s))"

lemma read_sector_holds:
  assumes "file_holds key dbg fl data" and "4096 * s < length data" and "s < 2 ^ 31"
  shows "psync_fs_crypto_read_newfile_full_sector key (quiet_io dbg) s fl = Some (int (length (sec data s)), sec data s)"
proof -
  have h: "sector_holds key dbg fl s (sec data s)" "sectors_ok fl" using assms(1,2) by (simp_all add: file_holds_def)
  show ?thesis
  proof (cases "in_log fl s = None")
    case True
    then show ?thesis using h read_not_in_log [OF h(2) assms(3) True] by (simp add: sector_holds_def)
  next
    case False
    then show ?thesis using h read_from_log [OF h(2) assms(3)] by (simp add: sector_holds_def)
  qed
qed

text \<open>Cutting the data into sectors and writing inside of one sector.\<close>

lemma length_sec: "length (sec data s) = min 4096 (length data - 4096 * s)"
  by (simp add: sec_def min.commute)

lemma file_write_inside: "off \<le> length f \<Longrightarrow> file_write f off data = take off f @ data @ drop (off + length data) f"
  by (auto simp: file_write_def)

lemma length_file_write_le: "length (file_write f off data) \<le> max (length f) (off + length data)" "length f \<le> length (file_write f off data)"
  by (auto simp: file_write_def)

lemma length_written: "data \<noteq> [] \<Longrightarrow> length (file_write f off data) = max (length f) (off + length data)"
  by (auto simp: file_write_def)

lemma sec_file_write_same:
  assumes "o2 + length b \<le> 4096" and "4096 * s + o2 \<le> length data"
  shows "sec (file_write data (4096 * s + o2) b) s = file_write (sec data s) o2 b"
proof -
  let ?X = "drop (4096 * s) data"
  have X: "o2 \<le> length ?X" "o2 \<le> length (take 4096 ?X)" using assms by simp_all
  have e: "drop (4096 * s) (file_write data (4096 * s + o2) b) = take o2 ?X @ b @ drop (o2 + length b) ?X"
    using assms(2) by (simp add: file_write_inside drop_take ac_simps)
  have "take 4096 (take o2 ?X @ b @ drop (o2 + length b) ?X) = take o2 ?X @ b @ take (4096 - (o2 + length b)) (drop (o2 + length b) ?X)"
    using X(1) assms(1) by simp
  also have "\<dots> = take o2 (take 4096 ?X) @ b @ drop (o2 + length b) (take 4096 ?X)"
    using assms(1) by (simp add: drop_take min_absorb1)
  finally show ?thesis using X(2) by (simp only: sec_def e file_write_inside)
qed

lemma sec_prefix: "sec data s = drop (4096 * s) (take (4096 * s + 4096) data)"
  by (simp add: sec_def take_drop add.commute)

lemma take_file_write: "n \<le> off \<Longrightarrow> off \<le> length f \<Longrightarrow> take n (file_write f off b) = take n f"
  by (simp add: file_write_inside)

lemma drop_file_write:
  assumes "off + length b \<le> n" and "off \<le> length f"
  shows "drop n (file_write f off b) = drop n f"
proof -
  obtain m where "n = off + length b + m" using assms(1) le_Suc_ex by blast
  then show ?thesis using assms(2) by (simp add: file_write_inside add.commute)
qed

lemma sec_file_write_other:
  assumes "o2 + length b \<le> 4096" and "4096 * s + o2 \<le> length data" and "s' \<noteq> s" and "4096 * s' < length (file_write data (4096 * s + o2) b)"
  shows "4096 * s' < length data \<and> sec (file_write data (4096 * s + o2) b) s' = sec data s'"
proof (cases "s' < s")
  case True
  then have "4096 * s' + 4096 \<le> 4096 * s + o2" by simp
  then show ?thesis using assms(2) take_file_write [of "4096 * s' + 4096" "4096 * s + o2" data b] by (simp add: sec_prefix)
next
  case False
  then have le: "4096 * s + o2 + length b \<le> 4096 * s'" using assms(1,3) by simp
  then have "4096 * s' < length data" using assms(4) by (cases "b = []") (auto simp: length_written file_write_def)
  then show ?thesis using drop_file_write [OF le assms(2)] by (simp add: sec_def)
qed

subsection \<open>Writing a sector\<close>

text \<open>The calls of a write: the random bytes are a block, the read of the old sector and cutting the log back work.  The
  write itself may fail.\<close>

definition write_io_ok :: "bool \<Rightarrow> write_io \<Rightarrow> bool" where
  "write_io_ok dbg w \<longleftrightarrow> length (w_rnd w) = BS \<and> w_read w = quiet_io dbg \<and> log_stat (w_reset w) \<and> log_cut (w_reset w) = Io_ok"

lemma encode_sector:
  assumes "key_ok key" and "length rnd = BS"
  obtains out auth where "psync_crypto_aes256_encode_sector (key_enc key) (key_sha key) (key_iv key) rnd al buf sid = Some (out, auth)"
    "psync_crypto_aes256_decode_sector (key_dec key) (key_sha key) (key_iv key) out auth sid = Some (buf, 0)" "length out = length buf"
proof -
  have k: "aes_ok (key_enc key) (key_dec key)" "\<forall>x. length (key_sha key x) = 64" using assms(1) by (simp_all add: key_ok_def)
  note r = sector_short [OF k assms(2)] sector_whole [OF k assms(2)] sector_steal [OF k assms(2)]
  have "Option.bind (psync_crypto_aes256_encode_sector (key_enc key) (key_sha key) (key_iv key) rnd al buf sid)
      (\<lambda>(out, auth). psync_crypto_aes256_decode_sector (key_dec key) (key_sha key) (key_iv key) out auth sid) = Some (buf, 0)"
    using r by (cases "length buf < BS"; cases "length buf mod 16 = 0") simp_all
  then obtain out auth where "psync_crypto_aes256_encode_sector (key_enc key) (key_sha key) (key_iv key) rnd al buf sid = Some (out, auth)"
    "psync_crypto_aes256_decode_sector (key_dec key) (key_sha key) (key_iv key) out auth sid = Some (buf, 0)" by (auto simp: bind_eq_Some_conv)
  then show ?thesis using that encode_sector_length [OF k assms(2)] by blast
qed

lemma log_pwrite_fails:
  assumes "log_pwrite (Some f) rec (length f) (Io_fail k) = (wrt, f')"
  shows "wrt \<noteq> int (length rec)" "\<exists>g. f' = Some (f @ g)"
  using assms by (auto simp: log_pwrite_def psync_file_pwrite_def file_write_end intro: exI [of _ "[]"] split: if_splits)

lemma reset_log_restores:
  assumes "logfile fl = Some f" and "log_stat rio" and "log_cut rio = Io_ok" and "length f < 2 ^ 63"
  shows "psync_fs_crypto_reset_log_to_off env rio (length f) (fl\<lparr>logfile := Some (f @ g)\<rparr>) = Some fl"
proof -
  have "fl\<lparr>logfile := Some f\<rparr> = fl" using assms(1) by simp
  then show ?thesis using assms
    by (cases "g = []") (simp_all add: psync_fs_crypto_reset_log_to_off_def seek_truncate_def file_truncate_def Let_def)
qed

lemma write_full_fails:
  assumes "key_ok key" and "write_io_ok dbg w" and "w_res w = Io_fail k" and "logfile fl = Some f" and "logoffset fl = length f"
    and "length f < 2 ^ 63" and "length buf \<le> 4096"
  shows "write_full env key w buf sid fl = Some (- EIO, fl)"
proof -
  obtain out auth where e: "psync_crypto_aes256_encode_sector (key_enc key) (key_sha key) (key_iv key) (w_rnd w) (w_al w) buf (word_of_nat sid) = Some (out, auth)"
    using encode_sector [OF assms(1)] assms(2) by (metis write_io_ok_def)
  let ?rec = "header_bytes (data_header (length buf) (psync_fs_crypto_data_offset_by_sectorid sid)) @ out"
  obtain wrt f' where w: "log_pwrite (Some f) ?rec (length f) (Io_fail k) = (wrt, f')" by fastforce
  obtain g where g: "f' = Some (f @ g)" using log_pwrite_fails(2) [OF w] by blast
  show ?thesis using e w log_pwrite_fails(1) [OF w] assms g reset_log_restores [OF assms(4) _ _ assms(6), of "w_reset w" env g]
    by (simp add: write_full_def psync_fs_crypto_write_newfile_full_sector_def write_io_ok_def Let_def)
qed

lemma in_log_upd [simp]: "in_log (fl\<lparr>currentsize := n\<rparr>) s = in_log fl s" "in_log (log_appended env g data fl) s = in_log fl s"
  by (auto simp: in_log_def log_appended_def split: sum.splits)

lemma sectors_ok_upd [simp]: "sectors_ok (fl\<lparr>currentsize := n\<rparr>) = sectors_ok fl" "sectors_ok (log_appended env g data fl) = sectors_ok fl"
  by (simp_all add: sectors_ok_def log_appended_def)

lemma write_full_appends:
  assumes "key_ok key" and "write_io_ok dbg w" and "w_res w = Io_ok" and "logfile fl = Some f" and "logoffset fl = length f"
    and "length f + 16 + length buf < 2 ^ 32" and "length buf \<le> 4096" and "newfile fl" and "sectors_ok fl" and "sid < 2 ^ 31"
    and "w_node w \<notin> set (inorder (sectorsinlog fl))"
  obtains fl' out auth where "write_full env key w buf sid fl = Some (0, fl')" "length out = length buf"
    "psync_crypto_aes256_decode_sector (key_dec key) (key_sha key) (key_iv key) out auth (word_of_nat sid) = Some (buf, 0)"
    "logfile fl' = Some (f @ data_rec (psync_fs_crypto_data_offset_by_sectorid sid, out))" "logoffset fl' = length f + 16 + length buf"
    "newfile fl'" "sectors_ok fl'" "datafile fl' = datafile fl" "currentsize fl' = currentsize fl"
    "set (inorder (sectorsinlog fl')) \<subseteq> insert (w_node w) (set (inorder (sectorsinlog fl)))"
    "\<forall>s < 2 ^ 31. in_log fl' s = (if s = sid then Some (length f, auth) else in_log fl s)"
proof -
  obtain out auth where e: "psync_crypto_aes256_encode_sector (key_enc key) (key_sha key) (key_iv key) (w_rnd w) (w_al w) buf (word_of_nat sid) = Some (out, auth)"
    "psync_crypto_aes256_decode_sector (key_dec key) (key_sha key) (key_iv key) out auth (word_of_nat sid) = Some (buf, 0)" "length out = length buf"
    by (rule encode_sector [OF assms(1)]) (use assms(2) in \<open>auto simp: write_io_ok_def\<close>)
  let ?rec = "data_rec (psync_fs_crypto_data_offset_by_sectorid sid, out)"
  have rec: "header_bytes (data_header (length buf) (psync_fs_crypto_data_offset_by_sectorid sid)) @ out = ?rec"
    using e(3) by (simp add: data_rec_def)
  obtain fl1 where s: "psync_fs_crypto_set_sector_log_offset (w_node w) sid (length f) auth fl = Some fl1" "sectors_ok fl1"
    "set (inorder (sectorsinlog fl1)) \<subseteq> insert (w_node w) (set (inorder (sectorsinlog fl)))"
    "\<forall>s < 2 ^ 31. in_log fl1 s = (if s = sid then Some (length f, auth) else in_log fl s)"
    "datafile fl1 = datafile fl" "currentsize fl1 = currentsize fl"
    using set_sector_spec [OF assms(9-11), of "length f" auth] by blast
  note keep = set_sector_log [OF s(1)]
  have wr: "log_pwrite (Some f) ?rec (length f) Io_ok = (int (length ?rec), Some (f @ ?rec))"
    using assms(6) log_pwrite_ok [of "length f" f ?rec] by (simp add: file_write_end)
  let ?fl = "log_appended env (Some (f @ ?rec)) ?rec fl1"
  have fit: "logfile ?fl = Some (f @ ?rec)" "logoffset ?fl = length f + 16 + length buf" "newfile ?fl" "datafile ?fl = datafile fl1"
      "currentsize ?fl = currentsize fl1" "sectorsinlog ?fl = sectorsinlog fl1"
    using e(3) keep assms(5,6,8) by (simp_all add: log_appended_def fits)
  have "write_full env key w buf sid fl = Some (0, ?fl)"
    using e(1) wr assms(3-5,7,8) s(1) keep by (simp add: write_full_def psync_fs_crypto_write_newfile_full_sector_def Let_def rec log_appended_def)
  then show ?thesis using that [of ?fl out auth] e s keep assms(5,6,8) fit
    by simp
qed

lemma sector_in_log_append:
  assumes "sector_in_log key fl s d" and "logfile fl = Some f" and "logfile fl' = Some (f @ g)" and "in_log fl' s = in_log fl s"
  shows "sector_in_log key fl' s d"
  using assms record_at_append record_at_le unfolding sector_in_log_def by fastforce

text \<open>A sector is replaced in the contents of the file, or the call fails and leaves them as they are.\<close>

definition replaces :: "bytes \<Rightarrow> nat \<Rightarrow> bytes \<Rightarrow> bytes \<Rightarrow> bool" where
  "replaces data s b data' \<longleftrightarrow> length data \<le> length data' \<and> sec data' s = b
     \<and> (\<forall>s'. s' \<noteq> s \<longrightarrow> 4096 * s' < length data' \<longrightarrow> 4096 * s' < length data \<and> sec data' s' = sec data s')"

lemma write_full_step:
  assumes "key_ok key" and "write_io_ok dbg w" and "file_holds key dbg fl data" and "w_node w \<notin> set (inorder (sectorsinlog fl))"
    and "logoffset fl + 4112 < 2 ^ 32" and "length buf \<le> 4096" and "sid < 2 ^ 31" and "replaces data sid buf data'" and "length data' \<le> 2 ^ 43"
  obtains ret fl' where "write_full env key w buf sid fl = Some (ret, fl')" "currentsize fl' = currentsize fl"
    "ret = 0 \<and> file_holds key dbg (fl'\<lparr>currentsize := length data'\<rparr>) data' \<or> ret = - EIO \<and> w_res w \<noteq> Io_ok \<and> fl' = fl"
    "set (inorder (sectorsinlog fl')) \<subseteq> insert (w_node w) (set (inorder (sectorsinlog fl)))" "logoffset fl' \<le> logoffset fl + 4112"
proof -
  obtain f where f: "logfile fl = Some f" "logoffset fl = length f" "newfile fl" "sectors_ok fl" "currentsize fl = length data"
    "\<And>s. 4096 * s < length data \<Longrightarrow> sector_holds key dbg fl s (sec data s)"
    using assms(3) by (auto simp: file_holds_def)
  show ?thesis
  proof (cases "w_res w")
    case (Io_fail k)
    then show ?thesis using that write_full_fails [OF assms(1,2) Io_fail f(1,2)] assms(5,6) f(2) by force
  next
    case Io_ok
    have room: "length f + 16 + length buf < 2 ^ 32" using assms(5,6) f(2) by simp
    obtain fl' out auth where w: "write_full env key w buf sid fl = Some (0, fl')" "length out = length buf"
      "psync_crypto_aes256_decode_sector (key_dec key) (key_sha key) (key_iv key) out auth (word_of_nat sid) = Some (buf, 0)"
      "logfile fl' = Some (f @ data_rec (psync_fs_crypto_data_offset_by_sectorid sid, out))" "logoffset fl' = length f + 16 + length buf"
      "newfile fl'" "sectors_ok fl'" "datafile fl' = datafile fl" "currentsize fl' = currentsize fl"
      "set (inorder (sectorsinlog fl')) \<subseteq> insert (w_node w) (set (inorder (sectorsinlog fl)))"
      "\<forall>s < 2 ^ 31. in_log fl' s = (if s = sid then Some (length f, auth) else in_log fl s)"
      by (rule write_full_appends [OF assms(1,2) Io_ok f(1,2) room assms(6) f(3,4) assms(7,4)])
    let ?fl = "fl'\<lparr>currentsize := length data'\<rparr>"
    have "sector_holds key dbg ?fl s (sec data' s)" if s: "4096 * s < length data'" for s
    proof -
      have s31: "s < 2 ^ 31" using s assms(9) by simp
      have il: "in_log ?fl s = (if s = sid then Some (length f, auth) else in_log fl s)" using w(11) s31 by simp
      have log: "logfile ?fl = Some (f @ data_rec (psync_fs_crypto_data_offset_by_sectorid sid, out))" using w(4) by simp
      show ?thesis
      proof (cases "s = sid")
        case True
        have "record_at (f @ data_rec (psync_fs_crypto_data_offset_by_sectorid sid, out)) (length f) sid out"
          using w(2) assms(6) by (simp add: record_at_def)
        then have "sector_in_log key ?fl sid buf" using w(2,3) il log True unfolding sector_in_log_def by auto
        then show ?thesis using True il assms(8) by (simp add: sector_holds_def replaces_def)
      next
        case False
        then have d: "4096 * s < length data" "sec data' s = sec data s" using assms(8) s by (auto simp: replaces_def)
        note h = f(6) [OF d(1)]
        show ?thesis
        proof (cases "in_log fl s = None")
          case True
          have "datafile ?fl = datafile fl" using w(8) by simp
          from read_from_datafile_cong [OF this] show ?thesis using h True il False d(2) by (simp add: sector_holds_def)
        next
          case in_l: False
          then have "sector_in_log key ?fl s (sec data s)"
            using sector_in_log_append [OF _ f(1) log, of key s] h il False by (simp add: sector_holds_def)
          then show ?thesis using in_l il False d(2) by (auto simp: sector_holds_def)
        qed
      qed
    qed
    then have "file_holds key dbg ?fl data'" using w(2,4,5,6,7) by (simp add: file_holds_def)
    then show ?thesis using that [OF w(1) w(9)] w(5,10) assms(6) f(2) by simp
  qed
qed

text \<open>The outcome of a call that writes one sector, with the contents that a success leaves.\<close>

definition sector_result :: "crypto_key \<Rightarrow> bool \<Rightarrow> write_io \<Rightarrow> psync_openfile_t \<Rightarrow> bytes \<Rightarrow> (int \<times> psync_openfile_t) option \<Rightarrow> bool" where
  "sector_result key dbg w fl data' r \<longleftrightarrow> (\<exists>ret fl'. r = Some (ret, fl') \<and> currentsize fl' = currentsize fl
     \<and> (ret = 0 \<and> file_holds key dbg (fl'\<lparr>currentsize := length data'\<rparr>) data' \<or> ret = - EIO \<and> w_res w \<noteq> Io_ok \<and> fl' = fl)
     \<and> set (inorder (sectorsinlog fl')) \<subseteq> insert (w_node w) (set (inorder (sectorsinlog fl))) \<and> logoffset fl' \<le> logoffset fl + 4112)"

lemma replaces_file_write:
  assumes "o2 + length b \<le> 4096" and "4096 * s + o2 \<le> length data"
  shows "replaces data s (file_write (sec data s) o2 b) (file_write data (4096 * s + o2) b)"
proof -
  show ?thesis using sec_file_write_same [OF assms] sec_file_write_other [OF assms] length_file_write_le(2) by (auto simp: replaces_def)
qed

lemma write_full_result:
  assumes "key_ok key" and "write_io_ok dbg w" and "file_holds key dbg fl data" and "w_node w \<notin> set (inorder (sectorsinlog fl))"
    and "logoffset fl + 4112 < 2 ^ 32" and "o2 + length b \<le> 4096" and "4096 * sid + o2 \<le> length data" and "length data \<le> 2 ^ 43"
    and "4096 * sid + o2 + length b \<le> 2 ^ 43" and "buf = file_write (sec data sid) o2 b" and "sid < 2 ^ 31"
  shows "sector_result key dbg w fl (file_write data (4096 * sid + o2) b) (write_full env key w buf sid fl)"
proof -
  let ?d = "file_write data (4096 * sid + o2) b"
  have "length ?d \<le> 2 ^ 43" using assms(8,9) length_file_write_le(1) [of data "4096 * sid + o2" b] by linarith
  moreover have "length buf \<le> 4096" unfolding assms(10) sec_file_write_same [OF assms(6,7), symmetric] by (simp add: length_sec)
  moreover have "replaces data sid buf ?d" unfolding assms(10) by (rule replaces_file_write [OF assms(6,7)])
  ultimately obtain ret fl' where "write_full env key w buf sid fl = Some (ret, fl')" "currentsize fl' = currentsize fl"
    "ret = 0 \<and> file_holds key dbg (fl'\<lparr>currentsize := length ?d\<rparr>) ?d \<or> ret = - EIO \<and> w_res w \<noteq> Io_ok \<and> fl' = fl"
    "set (inorder (sectorsinlog fl')) \<subseteq> insert (w_node w) (set (inorder (sectorsinlog fl)))" "logoffset fl' \<le> logoffset fl + 4112"
    using write_full_step [OF assms(1-5) _ assms(11)] by metis
  then show ?thesis by (auto simp: sector_result_def)
qed

lemma patch_sector:
  fixes old :: bytes
  assumes "off \<le> length old" and "length old \<le> 4096" and "off + length b \<le> 4096"
  shows "take (if length old < length b + off then length b + off else length old)
      (take off (old @ replicate (4096 - length old) 0) @ b @ drop (off + length b) (old @ replicate (4096 - length old) 0)) = file_write old off b"
  using assms by (simp add: file_write_inside) arith

lemma write_partial_result:
  assumes "key_ok key" and "write_io_ok dbg w" and "file_holds key dbg fl data" and "w_node w \<notin> set (inorder (sectorsinlog fl))"
    and "logoffset fl + 4112 < 2 ^ 32" and "o2 + length b \<le> 4096" and "4096 * sid + o2 \<le> length data" and "length data \<le> 2 ^ 43"
    and "4096 * sid < length data" and "b \<noteq> []"
  shows "sector_result key dbg w fl (file_write data (4096 * sid + o2) b) (psync_fs_crypto_write_newfile_partial_sector env key w b sid o2 fl)"
proof -
  have sid: "sid < 2 ^ 31" using assms(8,9) by simp
  have rd: "psync_fs_crypto_read_newfile_full_sector key (w_read w) sid fl = Some (int (length (sec data sid)), sec data sid)"
    using read_sector_holds [OF assms(3,9) sid] assms(2) by (simp add: write_io_ok_def)
  have "o2 \<le> length (sec data sid)" "length (sec data sid) \<le> 4096" using assms(6,7) by (simp_all add: length_sec)
  note patch = patch_sector [OF this assms(6)]
  have "psync_fs_crypto_write_newfile_partial_sector env key w b sid o2 fl = write_full env key w (file_write (sec data sid) o2 b) sid fl"
    by (simp only: psync_fs_crypto_write_newfile_partial_sector_def PSYNC_CRYPTO_SECTOR_SIZE_def rd assms(6) bind.bind_lunit prod.case nat_int
      Let_def patch if_False of_nat_less_0_iff not_True_eq_False)
  moreover have "4096 * sid + o2 + length b \<le> 2 ^ 43"
  proof -
    have "4096 * sid + 4096 \<le> 2 ^ 43" using sid by simp
    then show ?thesis using assms(6) by simp
  qed
  ultimately show ?thesis using write_full_result [OF assms(1-8) _ refl sid] by simp
qed

subsection \<open>Writing a range of sectors\<close>

definition nodes_fresh :: "(nat \<Rightarrow> write_io) \<Rightarrow> nat \<Rightarrow> psync_openfile_t \<Rightarrow> bool" where
  "nodes_fresh ws k fl \<longleftrightarrow> (\<forall>j \<ge> k. w_node (ws j) \<notin> set (inorder (sectorsinlog fl)))"

text \<open>The allocator returns different addresses for the nodes of one call, and the calls behave.\<close>

definition supply_ok :: "bool \<Rightarrow> (nat \<Rightarrow> write_io) \<Rightarrow> bool" where
  "supply_ok dbg ws \<longleftrightarrow> inj (\<lambda>j. w_node (ws j)) \<and> (\<forall>j. write_io_ok dbg (ws j))"

definition sectors_of :: "nat \<Rightarrow> nat" where
  "sectors_of n = (n + 4095) div 4096"

lemma sectors_of_simps [simp]: "sectors_of 0 = 0" "0 < n \<Longrightarrow> n \<le> 4096 \<Longrightarrow> sectors_of n = 1"
  "4096 \<le> n \<Longrightarrow> sectors_of n = Suc (sectors_of (n - 4096))"
  by (auto simp: sectors_of_def div_nat_eqI)

lemma fresh_step:
  assumes "supply_ok dbg ws" and "nodes_fresh ws k fl" and "set (inorder (sectorsinlog fl')) \<subseteq> insert (w_node (ws k)) (set (inorder (sectorsinlog fl)))"
  shows "nodes_fresh ws (k + 1) fl'"
  unfolding nodes_fresh_def
proof (intro allI impI)
  fix j assume j: "k + 1 \<le> j"
  then have "w_node (ws j) \<noteq> w_node (ws k)" using assms(1) unfolding supply_ok_def inj_def by fastforce
  then show "w_node (ws j) \<notin> set (inorder (sectorsinlog fl'))" using assms(2,3) j unfolding nodes_fresh_def by auto
qed

lemma grow_to_eq: "grow_to m fl = fl\<lparr>currentsize := max (currentsize fl) m\<rparr>"
  by (simp add: grow_to_def max_def)

lemma nodes_fresh_upd [simp]: "nodes_fresh ws k (fl\<lparr>currentsize := n\<rparr>) = nodes_fresh ws k fl"
  by (simp add: nodes_fresh_def)

text \<open>One sector has been written: the state with which the loops go on.\<close>

lemma sector_result_cases:
  assumes "sector_result key dbg (ws k) fl (file_write data off b) r" and "supply_ok dbg ws" and "nodes_fresh ws k fl"
    and "currentsize fl = length data" and "b \<noteq> []" and "off + length b < 2 ^ 64"
  obtains (ok) fl' where "r = Some (0, fl')" "file_holds key dbg (grow_to (uint64 (off + length b)) fl') (file_write data off b)"
      "nodes_fresh ws (k + 1) (grow_to (uint64 (off + length b)) fl')" "logoffset (grow_to (uint64 (off + length b)) fl') \<le> logoffset fl + 4112"
    | (failed) "r = Some (- EIO, fl)" "w_res (ws k) \<noteq> Io_ok"
proof -
  obtain ret fl' where r: "r = Some (ret, fl')" "currentsize fl' = currentsize fl"
    "ret = 0 \<and> file_holds key dbg (fl'\<lparr>currentsize := length (file_write data off b)\<rparr>) (file_write data off b) \<or> ret = - EIO \<and> w_res (ws k) \<noteq> Io_ok \<and> fl' = fl"
    "set (inorder (sectorsinlog fl')) \<subseteq> insert (w_node (ws k)) (set (inorder (sectorsinlog fl)))" "logoffset fl' \<le> logoffset fl + 4112"
    using assms(1) by (auto simp: sector_result_def)
  have "grow_to (uint64 (off + length b)) fl' = fl'\<lparr>currentsize := length (file_write data off b)\<rparr>"
    using r(2) assms(4-6) by (simp add: grow_to_eq length_written fits)
  then show ?thesis using r(1,3,5) ok [of fl'] failed fresh_step [OF assms(2,3) r(4)] by auto
qed

lemma file_write_append: "off \<le> length f \<Longrightarrow> file_write (file_write f off a) (off + length a) b = file_write f off (a @ b)"
  by (simp add: file_write_inside ac_simps)

lemma fillzero_loop_step:
  assumes "size0 \<noteq> 0" and "wr = (if size0 > 4096 then 4096 else size0)" and "write_full env key (ws k) (replicate wr 0) sid fl = Some (ret, fl')"
  shows "fillzero_loop env key ws k size0 offset sid fl = (if ret < 0 then Some (ret, fl', k + 1)
    else fillzero_loop env key ws (k + 1) (size0 - wr) (uint64 (offset + wr)) (uint32 (sid + 1)) (grow_to (uint64 (offset + wr)) fl'))"
  using assms(1,3) unfolding assms(2) by (cases "size0 > 4096") (simp_all add: fillzero_loop.simps [of _ _ _ _ size0] Let_def)

text \<open>The outcome of filling with zeros: all of them, or some of them and an error.\<close>

definition fill_result :: "crypto_key \<Rightarrow> bool \<Rightarrow> (nat \<Rightarrow> write_io) \<Rightarrow> psync_openfile_t \<Rightarrow> bytes \<Rightarrow> nat \<Rightarrow> nat
    \<Rightarrow> (int \<times> psync_openfile_t \<times> nat) option \<Rightarrow> bool" where
  "fill_result key dbg ws fl data size0 n r \<longleftrightarrow> (\<exists>ret fl' k'. r = Some (ret, fl', k') \<and> nodes_fresh ws k' fl' \<and>
     (ret = 0 \<and> file_holds key dbg fl' (data @ replicate size0 0) \<and> logoffset fl' \<le> logoffset fl + 4112 * n
      \<or> ret = - EIO \<and> (\<exists>j. w_res (ws j) \<noteq> Io_ok) \<and> (\<exists>m < size0. file_holds key dbg fl' (data @ replicate m 0))))"

lemma fill_result_step:
  assumes "fill_result key dbg ws fl1 (data @ replicate wr 0) (size0 - wr) n r" and "wr \<le> size0" and "logoffset fl1 \<le> logoffset fl + 4112"
  shows "fill_result key dbg ws fl data size0 (n + 1) r"
proof -
  have app: "(data @ replicate wr 0) @ replicate m 0 = data @ replicate (wr + m) 0" for m by (simp add: replicate_add)
  obtain ret fl' k' where r: "r = Some (ret, fl', k')" "nodes_fresh ws k' fl'"
    "ret = 0 \<and> file_holds key dbg fl' (data @ replicate (wr + (size0 - wr)) 0) \<and> logoffset fl' \<le> logoffset fl1 + 4112 * n
     \<or> ret = - EIO \<and> (\<exists>j. w_res (ws j) \<noteq> Io_ok) \<and> (\<exists>m < size0 - wr. file_holds key dbg fl' (data @ replicate (wr + m) 0))"
    using assms(1) unfolding fill_result_def app by blast
  moreover have "wr + (size0 - wr) = size0" "m < size0 - wr \<Longrightarrow> wr + m < size0" for m using assms(2) by simp_all
  moreover have "logoffset fl' \<le> logoffset fl1 + 4112 * n \<Longrightarrow> logoffset fl' \<le> logoffset fl + 4112 * (n + 1)" using assms(3) by simp
  ultimately show ?thesis unfolding fill_result_def by metis
qed

lemma fill_result_mono:
  assumes "fill_result key dbg ws fl data size0 n r" and "n \<le> n'"
  shows "fill_result key dbg ws fl data size0 n' r"
proof -
  have "logoffset x \<le> logoffset fl + 4112 * n \<Longrightarrow> logoffset x \<le> logoffset fl + 4112 * n'" for x :: psync_openfile_t
    using assms(2) by simp
  with assms(1) show ?thesis unfolding fill_result_def by metis
qed

lemma fill_result_failed:
  assumes "file_holds key dbg fl data" and "nodes_fresh ws k fl" and "w_res (ws j) \<noteq> Io_ok" and "0 < size0"
  shows "fill_result key dbg ws fl data size0 n (Some (- EIO, fl, k + 1))"
proof -
  have "nodes_fresh ws (k + 1) fl" using assms(2) by (simp add: nodes_fresh_def)
  moreover have "file_holds key dbg fl (data @ replicate 0 0)" using assms(1) by simp
  ultimately show ?thesis unfolding fill_result_def using assms(3,4) by blast
qed

lemma fillzero_loop_result:
  assumes "key_ok key" and "supply_ok dbg ws" and "file_holds key dbg fl data" and "nodes_fresh ws k fl" and "size0 = 0 \<or> length data = 4096 * sid"
    and "length data + size0 \<le> 2 ^ 43" and "logoffset fl + 4112 * sectors_of size0 < 2 ^ 32"
  shows "fill_result key dbg ws fl data size0 (sectors_of size0) (fillzero_loop env key ws k size0 (length data) sid fl)"
  using assms(3-7)
proof (induction size0 arbitrary: k fl data sid rule: less_induct)
  case (less size0)
  show ?case
  proof (cases "size0 = 0")
    case True
    then show ?thesis using less.prems by (simp add: fillzero_loop.simps fill_result_def)
  next
    case False
    define wr where "wr = (if size0 > 4096 then 4096 else size0)"
    let ?b = "replicate wr (0 :: u8)"
    have wr: "0 < wr" "wr \<le> 4096" "wr \<le> size0" using False by (auto simp: wr_def)
    have sid: "length data = 4096 * sid" "sid < 2 ^ 31" using less.prems(3,4) False by auto
    have cs: "currentsize fl = length data" using less.prems(1) by (simp add: file_holds_def)
    have so: "sectors_of size0 = sectors_of (size0 - wr) + 1" using False by (simp add: wr_def)
    have "sec data sid = []" using sid(1) by (simp add: sec_def)
    then have "sector_result key dbg (ws k) fl (file_write data (4096 * sid + 0) ?b) (write_full env key (ws k) ?b sid fl)"
      using less.prems(1,2,4,5) wr sid so assms(2)
      by (intro write_full_result [OF assms(1)]) (auto simp: supply_ok_def nodes_fresh_def file_write_def)
    then have res: "sector_result key dbg (ws k) fl (file_write data (length data) ?b) (write_full env key (ws k) ?b sid fl)" using sid(1) by simp
    have eq: "file_write data (length data) ?b = data @ ?b" by (rule file_write_end)
    have small: "length data + length ?b < 2 ^ 64" using less.prems(4) wr by simp
    have ne: "?b \<noteq> []" using wr(1) by simp
    show ?thesis
      using res assms(2) less.prems(2) cs ne small
    proof (cases rule: sector_result_cases)
      case failed
      have "fillzero_loop env key ws k size0 (length data) sid fl = Some (- EIO, fl, k + 1)"
        using fillzero_loop_step [where ws = ws and k = k, OF False wr_def failed(1)] by (simp add: EIO_def)
      then show ?thesis using fill_result_failed [OF less.prems(1,2) failed(2)] False by simp
    next
      case (ok fl1)
      let ?fl = "grow_to (uint64 (length data + wr)) fl1"
      have step: "fillzero_loop env key ws k size0 (length data) sid fl = fillzero_loop env key ws (k + 1) (size0 - wr) (length (data @ ?b)) (uint32 (sid + 1)) ?fl"
        using fillzero_loop_step [where ws = ws and k = k, OF False wr_def ok(1)] small by (simp add: fits)
      have "fill_result key dbg ws ?fl (data @ ?b) (size0 - wr) (sectors_of (size0 - wr))
          (fillzero_loop env key ws (k + 1) (size0 - wr) (length (data @ ?b)) (uint32 (sid + 1)) ?fl)"
      proof (rule less.IH)
        show "size0 - wr < size0" using wr False by simp
        show "file_holds key dbg ?fl (data @ ?b)" "nodes_fresh ws (k + 1) ?fl" using ok(2,3) eq by simp_all
        show "size0 - wr = 0 \<or> length (data @ ?b) = 4096 * uint32 (sid + 1)" using sid by (auto simp: wr_def fits)
        show "length (data @ ?b) + (size0 - wr) \<le> 2 ^ 43" using less.prems(4) wr by simp
        show "logoffset ?fl + 4112 * sectors_of (size0 - wr) < 2 ^ 32" using less.prems(5) so ok(4) by simp
      qed
      then show ?thesis unfolding step so by (rule fill_result_step) (use wr ok(4) in simp_all)
    qed
  qed
qed

lemma fillzero_unfold:
  assumes "length data = 4096 * sid + o2" and "0 < o2" and "o2 < 4096" and "sid < 2 ^ 31" and "wr = (if 4096 - o2 > size0 then size0 else 4096 - o2)"
    and "psync_fs_crypto_write_newfile_partial_sector env key (ws k) (replicate wr 0) sid o2 fl = Some (ret, fl')"
  shows "psync_fs_newfile_fillzero env key ws k size0 (length data) fl = (if ret < 0 then Some (ret, fl', k + 1)
    else fillzero_loop env key ws (k + 1) (size0 - wr) (uint64 (length data + wr)) (uint32 (sid + 1)) (grow_to (uint64 (length data + wr)) fl'))"
proof -
  have "length data div 4096 = sid" "length data mod 4096 = o2" "uint32 sid = sid" using assms(1-4) by (simp_all add: fits)
  then show ?thesis using assms(2,6) unfolding assms(5) psync_fs_newfile_fillzero_def
    by (cases "4096 - o2 > size0") (simp_all add: Let_def)
qed

lemma fillzero_result:
  assumes "key_ok key" and "supply_ok dbg ws" and "file_holds key dbg fl data" and "nodes_fresh ws k fl" and "0 < size0"
    and "length data + size0 \<le> 2 ^ 43" and "logoffset fl + 4112 * (sectors_of size0 + 1) < 2 ^ 32"
  shows "fill_result key dbg ws fl data size0 (sectors_of size0 + 1) (psync_fs_newfile_fillzero env key ws k size0 (length data) fl)"
proof -
  define sid o2 where so: "sid = length data div 4096" "o2 = length data mod 4096"
  have len: "length data = 4096 * sid + o2" "o2 < 4096" by (simp_all add: so)
  have sid: "uint32 sid = sid" "sid < 2 ^ 31" using assms(5,6) len(1) by (simp_all add: fits)
  have cs: "currentsize fl = length data" using assms(3) by (simp add: file_holds_def)
  show ?thesis
  proof (cases "o2 = 0")
    case True
    then have e: "psync_fs_newfile_fillzero env key ws k size0 (length data) fl = fillzero_loop env key ws k size0 (length data) sid fl"
      using sid by (simp add: psync_fs_newfile_fillzero_def flip: so)
    have "size0 = 0 \<or> length data = 4096 * sid" "logoffset fl + 4112 * sectors_of size0 < 2 ^ 32" using len True assms(7) by simp_all
    from fillzero_loop_result [OF assms(1-4) this(1) assms(6) this(2)] have "fill_result key dbg ws fl (data @ replicate 0 0) (size0 - 0) (sectors_of size0)
        (psync_fs_newfile_fillzero env key ws k size0 (length data) fl)" unfolding e by simp
    then show ?thesis by (rule fill_result_step) simp_all
  next
    case False
    define wr where "wr = (if 4096 - o2 > size0 then size0 else 4096 - o2)"
    let ?b = "replicate wr (0 :: u8)"
    have wr: "0 < wr" "o2 + wr \<le> 4096" "wr \<le> size0" using False len assms(5) by (auto simp: wr_def)
    have "sector_result key dbg (ws k) fl (file_write data (4096 * sid + o2) ?b)
        (psync_fs_crypto_write_newfile_partial_sector env key (ws k) ?b sid o2 fl)"
      using assms(2-7) wr len False by (intro write_partial_result [OF assms(1)]) (auto simp: supply_ok_def nodes_fresh_def)
    then have res: "sector_result key dbg (ws k) fl (file_write data (length data) ?b)
        (psync_fs_crypto_write_newfile_partial_sector env key (ws k) ?b sid o2 fl)" by (simp only: len)
    have eq: "file_write data (length data) ?b = data @ ?b" by (rule file_write_end)
    have small: "length data + length ?b < 2 ^ 64" using assms(6) wr by simp
    have ne: "?b \<noteq> []" using wr(1) by simp
    have pos: "0 < o2" using False by simp
    note step = fillzero_unfold [where ws = ws and k = k, OF len(1) pos len(2) sid(2) wr_def]
    show ?thesis
      using res assms(2,4) cs ne small
    proof (cases rule: sector_result_cases)
      case failed
      have "psync_fs_newfile_fillzero env key ws k size0 (length data) fl = Some (- EIO, fl, k + 1)"
        unfolding step [OF failed(1)] by (simp add: EIO_def)
      then show ?thesis using fill_result_failed [OF assms(3,4) failed(2)] assms(5) by simp
    next
      case (ok fl1)
      let ?fl = "grow_to (uint64 (length data + wr)) fl1"
      have e: "psync_fs_newfile_fillzero env key ws k size0 (length data) fl =
          fillzero_loop env key ws (k + 1) (size0 - wr) (length (data @ ?b)) (uint32 (sid + 1)) ?fl"
        unfolding step [OF ok(1)] using small by (simp add: fits)
      have mono: "sectors_of (size0 - wr) \<le> sectors_of size0" by (simp add: sectors_of_def div_le_mono)
      have "fill_result key dbg ws ?fl (data @ ?b) (size0 - wr) (sectors_of (size0 - wr))
          (fillzero_loop env key ws (k + 1) (size0 - wr) (length (data @ ?b)) (uint32 (sid + 1)) ?fl)"
      proof (rule fillzero_loop_result [OF assms(1,2)])
        show "file_holds key dbg ?fl (data @ ?b)" "nodes_fresh ws (k + 1) ?fl" using ok(2,3) eq by simp_all
        show "size0 - wr = 0 \<or> length (data @ ?b) = 4096 * uint32 (sid + 1)" using sid len by (auto simp: wr_def fits)
        show "length (data @ ?b) + (size0 - wr) \<le> 2 ^ 43" using assms(6) wr by simp
        show "logoffset ?fl + 4112 * sectors_of (size0 - wr) < 2 ^ 32" using assms(7) mono ok(4) by simp
      qed
      from fill_result_step [OF this wr(3), of fl] ok(4) have "fill_result key dbg ws fl data size0 (sectors_of (size0 - wr) + 1)
          (psync_fs_newfile_fillzero env key ws k size0 (length data) fl)" unfolding e by simp
      then show ?thesis by (rule fill_result_mono) (use mono in simp)
    qed
  qed
qed

text \<open>The outcome of writing \<open>buf\<close> at \<open>off\<close>: all of it, or a part of it and an error.\<close>

definition write_result :: "crypto_key \<Rightarrow> bool \<Rightarrow> (nat \<Rightarrow> write_io) \<Rightarrow> bytes \<Rightarrow> nat \<Rightarrow> bytes \<Rightarrow> int \<Rightarrow> (int \<times> psync_openfile_t) option \<Rightarrow> bool" where
  "write_result key dbg ws data off buf n r \<longleftrightarrow> (\<exists>ret fl'. r = Some (ret, fl') \<and>
     (ret = n \<and> file_holds key dbg fl' (file_write data off buf)
      \<or> ret = - EIO \<and> (\<exists>j. w_res (ws j) \<noteq> Io_ok) \<and> (\<exists>m < length buf. file_holds key dbg fl' (file_write data off (take m buf)))))"

lemma write_result_step:
  assumes "write_result key dbg ws (file_write data off a) (off + length a) b n r" and "off \<le> length data"
  shows "write_result key dbg ws data off (a @ b) n r"
proof -
  have "file_write (file_write data off a) (off + length a) (take m b) = file_write data off (take (length a + m) (a @ b))" for m
    using file_write_append [OF assms(2), of a "take m b"] by simp
  moreover have "m < length b \<Longrightarrow> length a + m < length (a @ b)" for m by simp
  ultimately show ?thesis using assms(1) unfolding write_result_def file_write_append [OF assms(2)] by metis
qed

lemma write_result_failed:
  assumes "file_holds key dbg fl data" and "w_res (ws j) \<noteq> Io_ok" and "buf \<noteq> []"
  shows "write_result key dbg ws data off buf n (Some (- EIO, fl))"
proof -
  have "file_holds key dbg fl (file_write data off (take 0 buf))" using assms(1) by (simp add: file_write_def)
  moreover have "0 < length buf" using assms(3) by simp
  ultimately show ?thesis unfolding write_result_def using assms(2) by blast
qed

lemma sector_31:
  assumes "4096 * sid + n \<le> 2 ^ 43" and "0 < n"
  shows "sid < (2 :: nat) ^ 31"
proof -
  have "4096 * sid < 4096 * 2147483648" using assms by simp
  then show ?thesis by simp
qed

lemma write_sectors_result:
  assumes "key_ok key" and "supply_ok dbg ws" and "file_holds key dbg fl data" and "nodes_fresh ws k fl" and "offset \<le> length data"
    and "buf = [] \<or> offset = 4096 * sid" and "length data \<le> 2 ^ 43" and "offset + length buf \<le> 2 ^ 43"
    and "logoffset fl + 4112 * sectors_of (length buf) < 2 ^ 32"
  shows "write_result key dbg ws data offset buf (int32 (wrt + length buf)) (write_sectors env key ws k buf offset sid wrt fl)"
  using assms(3-9)
proof (induction "length buf" arbitrary: buf k fl data offset sid wrt rule: less_induct)
  case less
  have cs: "currentsize fl = length data" using less.prems(1) by (simp add: file_holds_def)
  consider "buf = []" | "4096 \<le> length buf" | "buf \<noteq> []" "length buf < 4096" by linarith
  then show ?case
  proof cases
    case 1
    then show ?thesis using less.prems by (simp add: write_sectors.simps [of _ _ _ _ "[]"] write_result_def file_write_def)
  next
    case 2
    let ?a = "take 4096 buf" and ?b = "drop 4096 buf"
    have a: "length ?a = 4096" "?a \<noteq> []" using 2 by auto
    have sid: "offset = 4096 * sid" "sid < 2 ^ 31" using less.prems(4,6) 2 by auto
    have so: "sectors_of (length buf) = Suc (sectors_of (length buf - 4096))" using 2 by simp
    have "length (sec data sid) \<le> 4096" by (simp add: length_sec)
    then have sect: "?a = file_write (sec data sid) 0 ?a" using a by (simp add: file_write_def)
    have "sector_result key dbg (ws k) fl (file_write data (4096 * sid + 0) ?a) (write_full env key (ws k) ?a sid fl)"
      by (rule write_full_result [OF assms(1) _ less.prems(1) _ _ _ _ less.prems(5) _ sect sid(2)])
        (use less.prems sid so assms(2) a in \<open>auto simp: supply_ok_def nodes_fresh_def\<close>)
    then have res: "sector_result key dbg (ws k) fl (file_write data offset ?a) (write_full env key (ws k) ?a sid fl)" using sid(1) by simp
    have small: "offset + length ?a < 2 ^ 64" using less.prems(6) 2 by simp
    show ?thesis
      using res assms(2) less.prems(2) cs a(2) small
    proof (cases rule: sector_result_cases)
      case failed
      then have "write_sectors env key ws k buf offset sid wrt fl = Some (- EIO, fl)"
        using 2 by (simp add: write_sectors.simps [of _ _ _ _ buf] EIO_def)
      moreover have "buf \<noteq> []" using a(2) by auto
      ultimately show ?thesis using write_result_failed [where ws = ws and j = k, OF less.prems(1) failed(2)] by simp
    next
      case (ok fl1)
      let ?fl = "grow_to (uint64 (offset + length ?a)) fl1"
      have e: "write_sectors env key ws k buf offset sid wrt fl = write_sectors env key ws (k + 1) ?b (offset + 4096) (uint32 (sid + 1)) (wrt + 4096) ?fl"
        using ok(1) 2 small a(1) by (simp add: write_sectors.simps [of _ _ _ _ buf] fits)
      have "write_result key dbg ws (file_write data offset ?a) (offset + 4096) ?b (int32 (wrt + 4096 + length ?b))
          (write_sectors env key ws (k + 1) ?b (offset + 4096) (uint32 (sid + 1)) (wrt + 4096) ?fl)"
      proof (rule less.hyps)
        show "length ?b < length buf" using 2 by simp
        show "file_holds key dbg ?fl (file_write data offset ?a)" "nodes_fresh ws (k + 1) ?fl" by (rule ok(2,3))+
        show "offset + 4096 \<le> length (file_write data offset ?a)" using a by (simp add: length_written)
        show "?b = [] \<or> offset + 4096 = 4096 * uint32 (sid + 1)" using sid by (simp add: fits)
        show "length (file_write data offset ?a) \<le> 2 ^ 43" using less.prems(5,6) a 2 by (simp add: length_written)
        show "offset + 4096 + length ?b \<le> 2 ^ 43" using less.prems(6) 2 by simp
        show "logoffset ?fl + 4112 * sectors_of (length ?b) < 2 ^ 32" using ok(4) less.prems(7) so by simp
      qed
      then have "write_result key dbg ws (file_write data offset ?a) (offset + length ?a) ?b (int32 (wrt + length buf)) (write_sectors env key ws k buf offset sid wrt fl)"
        unfolding e using a(1) 2 by simp
      from write_result_step [OF this less.prems(3)] show ?thesis by simp
    qed
  next
    case 3
    have pos: "0 < length buf" using 3 by simp
    have "offset = 4096 * sid" using less.prems(4) 3(1) by simp
    moreover from this have "sid < 2 ^ 31" using less.prems(6) pos by (intro sector_31 [of sid "length buf"]) simp_all
    ultimately have sid: "offset = 4096 * sid" "sid < 2 ^ 31" .
    let ?r = "if offset = currentsize fl then write_full env key (ws k) buf sid fl
              else psync_fs_crypto_write_newfile_partial_sector env key (ws k) buf sid 0 fl"
    have so: "sectors_of (length buf) = 1" using pos 3(2) by simp
    have "sector_result key dbg (ws k) fl (file_write data (4096 * sid + 0) buf) ?r"
    proof (cases "offset = currentsize fl")
      case True
      then have "sec data sid = []" using cs sid(1) by (simp add: sec_def)
      then have sect: "buf = file_write (sec data sid) 0 buf" by (simp add: file_write_def)
      show ?thesis unfolding if_P [OF True]
        by (rule write_full_result [OF assms(1) _ less.prems(1) _ _ _ _ less.prems(5) _ sect sid(2)])
          (use less.prems sid so assms(2) 3 in \<open>auto simp: supply_ok_def nodes_fresh_def\<close>)
    next
      case False
      then have "4096 * sid < length data" using less.prems(3) cs sid(1) by simp
      then show ?thesis unfolding if_not_P [OF False]
        by (intro write_partial_result [OF assms(1) _ less.prems(1) _ _ _ _ less.prems(5)])
          (use less.prems sid so assms(2) 3 in \<open>auto simp: supply_ok_def nodes_fresh_def\<close>)
    qed
    then have res: "sector_result key dbg (ws k) fl (file_write data offset buf) ?r" using sid(1) by simp
    have small: "offset + length buf < 2 ^ 64" using less.prems(6) by simp
    have e: "write_sectors env key ws k buf offset sid wrt fl = Option.bind ?r (\<lambda>(ret, fl).
        if ret \<noteq> 0 then Some (ret, fl) else Some (int32 (wrt + length buf), grow_to (uint64 (offset + length buf)) fl))"
      using 3 by (simp add: write_sectors.simps [of _ _ _ _ buf])
    show ?thesis
      using res assms(2) less.prems(2) cs 3(1) small
    proof (cases rule: sector_result_cases)
      case failed
      then have "write_sectors env key ws k buf offset sid wrt fl = Some (- EIO, fl)" unfolding e failed(1) by (simp add: EIO_def)
      then show ?thesis using write_result_failed [where ws = ws and j = k, OF less.prems(1) failed(2) 3(1)] by simp
    next
      case (ok fl1)
      then show ?thesis unfolding e ok(1) write_result_def by auto
    qed
  qed
qed

lemma write_range_result:
  assumes "key_ok key" and "supply_ok dbg ws" and "file_holds key dbg fl data" and "nodes_fresh ws k fl" and "offset \<le> length data"
    and "length data \<le> 2 ^ 43" and "offset + length buf \<le> 2 ^ 43" and "logoffset fl + 4112 * (sectors_of (length buf) + 1) < 2 ^ 32" and "buf \<noteq> []"
  shows "write_result key dbg ws data offset buf (int32 (length buf)) (write_range env key ws k buf offset fl)"
proof -
  define sid o2 where so: "sid = offset div 4096" "o2 = offset mod 4096"
  have len: "offset = 4096 * sid + o2" "o2 < 4096" by (simp_all add: so)
  have "0 < length buf" using assms(9) by simp
  then have "sid < 2 ^ 31" using assms(7) len(1) by (intro sector_31 [of sid "o2 + length buf"]) simp_all
  then have sid: "uint32 sid = sid" "sid < 2 ^ 31" by (simp_all add: fits)
  have cs: "currentsize fl = length data" using assms(3) by (simp add: file_holds_def)
  show ?thesis
  proof (cases "o2 = 0")
    case True
    then have e: "write_range env key ws k buf offset fl = write_sectors env key ws k buf offset sid 0 fl"
      using sid by (simp add: write_range_def flip: so)
    show ?thesis unfolding e using write_sectors_result [OF assms(1-5) _ assms(6,7), of sid 0 env] assms(8) len True by simp
  next
    case False
    define m where "m = (if 4096 - o2 < length buf then 4096 - o2 else length buf)"
    let ?a = "take m buf" and ?b = "drop m buf"
    have m: "0 < m" "o2 + m \<le> 4096" "length ?a = m" "?a \<noteq> []" using False len(2) assms(9) by (auto simp: m_def)
    have "sector_result key dbg (ws k) fl (file_write data (4096 * sid + o2) ?a)
        (psync_fs_crypto_write_newfile_partial_sector env key (ws k) ?a sid o2 fl)"
      using assms(2-8) m len False by (intro write_partial_result [OF assms(1)]) (auto simp: supply_ok_def nodes_fresh_def)
    then have res: "sector_result key dbg (ws k) fl (file_write data offset ?a)
        (psync_fs_crypto_write_newfile_partial_sector env key (ws k) ?a sid o2 fl)" by (simp only: len)
    have small: "offset + length ?a < 2 ^ 64" using assms(7) by simp
    have unfold: "write_range env key ws k buf offset fl =
        Option.bind (psync_fs_crypto_write_newfile_partial_sector env key (ws k) ?a sid o2 fl) (\<lambda>(ret, fl).
             if ret \<noteq> 0 then Some (ret, fl)
             else write_sectors env key ws (k + 1) ?b (uint64 (offset + m)) (uint32 (sid + 1)) m (grow_to (uint64 (offset + m)) fl))"
      by (simp only: write_range_def PSYNC_CRYPTO_SECTOR_SIZE_def Let_def so [symmetric] sid(1) m_def [symmetric] False if_True not_False_eq_True)
    show ?thesis
      using res assms(2,4) cs m(4) small
    proof (cases rule: sector_result_cases)
      case failed
      have "write_range env key ws k buf offset fl = Some (- EIO, fl)" unfolding unfold failed(1) by (simp add: EIO_def)
      then show ?thesis using write_result_failed [where ws = ws and j = k, OF assms(3) failed(2) assms(9)] by simp
    next
      case (ok fl1)
      let ?fl = "grow_to (uint64 (offset + length ?a)) fl1"
      have e: "write_range env key ws k buf offset fl = write_sectors env key ws (k + 1) ?b (offset + length ?a) (uint32 (sid + 1)) m ?fl"
        unfolding unfold ok(1) using small m(3) by (simp add: fits)
      have mono: "sectors_of (length ?b) \<le> sectors_of (length buf)" by (simp add: sectors_of_def div_le_mono)
      have "write_result key dbg ws (file_write data offset ?a) (offset + length ?a) ?b (int32 (m + length ?b)) (write_range env key ws k buf offset fl)"
        unfolding e
      proof (rule write_sectors_result [OF assms(1,2) ok(2,3)])
        show "offset + length ?a \<le> length (file_write data offset ?a)" using m(4) by (simp add: length_written)
        show "?b = [] \<or> offset + length ?a = 4096 * uint32 (sid + 1)" using sid len by (auto simp: m_def fits)
        show "length (file_write data offset ?a) \<le> 2 ^ 43" using assms(6,7) m(4) by (simp add: length_written)
        show "offset + length ?a + length ?b \<le> 2 ^ 43" using assms(7) m(3) by simp
        show "logoffset ?fl + 4112 * sectors_of (length ?b) < 2 ^ 32" using ok(4) assms(8) mono by simp
      qed
      from write_result_step [OF this assms(5)] m(3) show ?thesis by (simp add: m_def)
    qed
  qed
qed

lemma not_past_last_sector:
  assumes "offset + n \<le> 2 ^ 43"
  shows "\<not> past_last_sector n offset"
proof -
  have "uint64 (n + offset + 4096 - 1) = n + offset + 4095" using assms by (simp add: fits)
  moreover have "(n + offset + 4095) div 4096 \<le> (2 ^ 43 + 4095) div 4096" using assms by (intro div_le_mono) simp
  ultimately show ?thesis by (simp add: past_last_sector_def)
qed

text \<open>A write behind the end of the file starts with zeros up to its offset.\<close>

lemma file_write_beyond: "length data \<le> offset \<Longrightarrow> file_write (data @ replicate (offset - length data) 0) offset buf =
    (if buf = [] then data @ replicate (offset - length data) 0 else file_write data offset buf)"
  by (simp add: file_write_def)

lemma write_newfile_result:
  assumes "key_ok key" and "supply_ok dbg ws" and "file_holds key dbg fl data" and "nodes_fresh ws 0 fl" and "buf \<noteq> []"
    and "length data \<le> 2 ^ 43" and "offset + length buf \<le> 2 ^ 43" and "length buf < 2 ^ 31"
    and "logoffset fl + 4112 * (sectors_of (offset - length data) + sectors_of (length buf) + 2) < 2 ^ 32"
  shows "\<exists>ret fl'. write_newfile env key ws buf offset fl = Some (ret, fl') \<and>
    (ret = int (length buf) \<and> file_holds key dbg fl' (file_write data offset buf)
     \<or> ret = - EIO \<and> (\<exists>j. w_res (ws j) \<noteq> Io_ok) \<and>
         ((\<exists>m. length data + m \<le> offset \<and> file_holds key dbg fl' (data @ replicate m 0))
          \<or> (\<exists>m < length buf. file_holds key dbg fl' (file_write data offset (take m buf)))))"
proof -
  have cs: "currentsize fl = length data" using assms(3) by (simp add: file_holds_def)
  have n: "int32 (length buf) = int (length buf)" using assms(8) by (simp add: int32_def signed_take_bit_int_eq_self)
  note in_range = not_past_last_sector [OF assms(7)]
  show ?thesis
  proof (cases "length data < offset")
    case False
    then have "write_newfile env key ws buf offset fl = write_range env key ws 0 buf offset fl"
      using in_range assms(5) cs by (simp add: write_newfile_def)
    moreover have "write_result key dbg ws data offset buf (int (length buf)) (write_range env key ws 0 buf offset fl)"
      using write_range_result [OF assms(1-4) _ assms(6,7) _ assms(5), of env] assms(9) False n by simp
    ultimately show ?thesis unfolding write_result_def by metis
  next
    case True
    let ?z = "data @ replicate (offset - length data) 0"
    have "fill_result key dbg ws fl data (offset - length data) (sectors_of (offset - length data) + 1)
        (psync_fs_newfile_fillzero env key ws 0 (offset - length data) (length data) fl)"
      using True assms(6,7,9) by (intro fillzero_result [OF assms(1-4)]) simp_all
    then obtain ret fl1 k where f: "psync_fs_newfile_fillzero env key ws 0 (offset - length data) (length data) fl = Some (ret, fl1, k)" "nodes_fresh ws k fl1"
      "ret = 0 \<and> file_holds key dbg fl1 ?z \<and> logoffset fl1 \<le> logoffset fl + 4112 * (sectors_of (offset - length data) + 1)
       \<or> ret = - EIO \<and> (\<exists>j. w_res (ws j) \<noteq> Io_ok) \<and> (\<exists>m < offset - length data. file_holds key dbg fl1 (data @ replicate m 0))"
      unfolding fill_result_def by blast
    from f(3) show ?thesis
    proof (elim disjE conjE exE)
      assume z: "ret = 0" "file_holds key dbg fl1 ?z" "logoffset fl1 \<le> logoffset fl + 4112 * (sectors_of (offset - length data) + 1)"
      have "currentsize fl1 = offset" using z(2) True by (simp add: file_holds_def)
      then have "write_newfile env key ws buf offset fl = write_range env key ws k buf offset fl1"
        using in_range assms(5) cs True f(1) z(1) by (simp add: write_newfile_def)
      moreover have "write_result key dbg ws ?z offset buf (int (length buf)) (write_range env key ws k buf offset fl1)"
        using write_range_result [OF assms(1,2) z(2) f(2) _ _ assms(7) _ assms(5), of env] assms(7,9) True n z(3) by simp
      ultimately obtain ret fl' where w: "write_newfile env key ws buf offset fl = Some (ret, fl')"
        "ret = int (length buf) \<and> file_holds key dbg fl' (file_write ?z offset buf)
         \<or> ret = - EIO \<and> (\<exists>j. w_res (ws j) \<noteq> Io_ok) \<and> (\<exists>m < length buf. file_holds key dbg fl' (file_write ?z offset (take m buf)))"
        unfolding write_result_def by metis
      have beyond: "file_write ?z offset b = (if b = [] then ?z else file_write data offset b)" for b
        using file_write_beyond [of data offset b] True by simp
      from w(2) show ?thesis
      proof (elim disjE conjE exE)
        assume "ret = int (length buf)" "file_holds key dbg fl' (file_write ?z offset buf)"
        then show ?thesis using w(1) assms(5) by (simp add: beyond)
      next
        fix j m assume "ret = - EIO" "w_res (ws j) \<noteq> Io_ok" "m < length buf" "file_holds key dbg fl' (file_write ?z offset (take m buf))"
        moreover have "length data + (offset - length data) \<le> offset" using True by simp
        ultimately show ?thesis using w(1) assms(5) unfolding beyond by (cases "m = 0") (auto split: if_splits)
      qed
    next
      fix j m assume e: "ret = - EIO" "w_res (ws j) \<noteq> Io_ok" "m < offset - length data" "file_holds key dbg fl1 (data @ replicate m 0)"
      have "write_newfile env key ws buf offset fl = Some (- EIO, fl1)"
        using in_range assms(5) cs True f(1) e(1) by (simp add: write_newfile_def EIO_def)
      moreover have "length data + m \<le> offset" using e(3) by simp
      ultimately show ?thesis using e(2,4) by blast
    qed
  qed
qed

subsection \<open>Reading a range of a file\<close>

lemma take_sec: "off + n \<le> 4096 \<Longrightarrow> take n (drop off (sec data s)) = take n (drop (4096 * s + off) data)"
  by (simp add: sec_def drop_take min_absorb1 add.commute)

lemma read_partial_result:
  assumes "file_holds key dbg fl data" and "off + n \<le> 4096" and "4096 * sid + off + n \<le> length data" and "0 < n" and "sid < 2 ^ 31"
  shows "psync_fs_crypto_read_newfile_partial_sector key (quiet_io dbg) sid n off fl = Some (int n, take n (drop (4096 * sid + off) data))"
proof -
  have "4096 * sid < length data" using assms(3,4) by simp
  note rd = read_sector_holds [OF assms(1) this assms(5)]
  have le: "off + n \<le> length (sec data sid)" using assms(2,3) by (simp add: length_sec)
  then have "(if nat (int (length (sec data sid))) - off > n then n else nat (int (length (sec data sid))) - off) = n" by auto
  moreover have "\<not> int (length (sec data sid)) \<le> 0" "\<not> int (length (sec data sid)) \<le> int off" using le assms(4) by linarith+
  ultimately show ?thesis using assms(2)
    by (simp only: psync_fs_crypto_read_newfile_partial_sector_def PSYNC_CRYPTO_SECTOR_SIZE_def rd option.map prod.case Let_def if_False
        not_True_eq_False take_sec)
qed

lemma read_sectors_result:
  assumes "file_holds key dbg fl data" and "4096 * sid + size0 \<le> length data" and "length data \<le> 2 ^ 43"
  shows "read_sectors key (\<lambda>_. quiet_io dbg) sid size0 rd acc fl = Some (int32 (rd + size0), acc @ take size0 (drop (4096 * sid) data))"
  using assms(2)
proof (induction size0 arbitrary: sid rd acc rule: less_induct)
  case (less size0)
  have sid: "sid < 2 ^ 31" if "0 < size0" using less.prems assms(3) that by (intro sector_31 [of sid size0]) simp_all
  consider "size0 = 0" | "4096 \<le> size0" | "0 < size0" "size0 < 4096" by linarith
  then show ?case
  proof cases
    case 1
    then show ?thesis by (simp add: read_sectors.simps)
  next
    case 2
    have s: "sid < 2 ^ 31" using sid 2 by simp
    have lt: "4096 * sid < length data" using less.prems 2 by simp
    have len: "length (sec data sid) = 4096" using less.prems 2 by (simp add: length_sec)
    have u: "uint32 (sid + 1) = sid + 1" using s by (simp add: fits)
    have "read_sectors key (\<lambda>_. quiet_io dbg) sid size0 rd acc fl =
        read_sectors key (\<lambda>_. quiet_io dbg) (sid + 1) (size0 - 4096) (rd + 4096) (acc @ sec data sid) fl"
      using 2 read_sector_holds [OF assms(1) lt s] u by (subst read_sectors.simps) (simp add: len)
    also have "\<dots> = Some (int32 (rd + 4096 + (size0 - 4096)), (acc @ sec data sid) @ take (size0 - 4096) (drop (4096 * (sid + 1)) data))"
      using less.prems 2 by (intro less.IH) simp_all
    finally have "read_sectors key (\<lambda>_. quiet_io dbg) sid size0 rd acc fl =
        Some (int32 (rd + 4096 + (size0 - 4096)), acc @ sec data sid @ take (size0 - 4096) (drop (4096 * (sid + 1)) data))" by simp
    moreover have "sec data sid @ take (size0 - 4096) (drop (4096 * (sid + 1)) data) = take size0 (drop (4096 * sid) data)"
      using 2 take_add [of 4096 "size0 - 4096" "drop (4096 * sid) data"] by (simp add: sec_def add.commute)
    ultimately show ?thesis using 2 by simp
  next
    case 3
    then show ?thesis using read_partial_result [OF assms(1), of 0 size0 sid] less.prems sid
      by (simp add: read_sectors.simps [of _ _ _ size0])
  qed
qed

lemma read_newfile_result:
  assumes "file_holds key dbg fl data" and "length data \<le> 2 ^ 43" and "offset + n \<le> 2 ^ 43" and "n < 2 ^ 31"
  shows "psync_fs_crypto_read_newfile_locked key (\<lambda>_. quiet_io dbg) n offset fl =
    Some (int (length (take n (drop offset data))), take n (drop offset data))"
proof (cases "n = 0 \<or> length data \<le> offset")
  case True
  then show ?thesis using assms not_past_last_sector [OF assms(3)] by (auto simp: psync_fs_crypto_read_newfile_locked_def file_holds_def)
next
  case False
  define m sid o2 where def: "m = (if uint64 (offset + n) > length data then length data - offset else n)" "sid = offset div 4096" "o2 = offset mod 4096"
  have cs: "currentsize fl = length data" using assms(1) by (simp add: file_holds_def)
  have len: "offset = 4096 * sid + o2" "o2 < 4096" by (simp_all add: def)
  have "uint64 (offset + n) = offset + n" using assms(3) by (simp add: fits)
  then have m: "0 < m" "offset + m \<le> length data" "m \<le> n" "take n (drop offset data) = take m (drop offset data)" using False by (auto simp: def(1))
  then have s: "sid < 2 ^ 31" using len assms(2) by (intro sector_31 [of sid "o2 + m"]) simp_all
  then have u: "uint32 sid = sid" "uint32 (sid + 1) = sid + 1" by (simp_all add: fits)
  have i32: "int32 m = int m" using m(3) assms(4) by (simp add: int32_def signed_take_bit_int_eq_self)
  let ?d = "if 4096 - o2 < m then 4096 - o2 else m"
  have e: "psync_fs_crypto_read_newfile_locked key (\<lambda>_. quiet_io dbg) n offset fl =
    (if o2 \<noteq> 0 then Option.bind (psync_fs_crypto_read_newfile_partial_sector key (quiet_io dbg) sid ?d o2 fl) (\<lambda>(ret, buf).
               if ret \<noteq> int ?d then Some (ret, buf) else read_sectors key (\<lambda>_. quiet_io dbg) (sid + 1) (m - ?d) ?d buf fl)
     else read_sectors key (\<lambda>_. quiet_io dbg) sid m 0 [] fl)"
    using False not_past_last_sector [OF assms(3)]
    by (simp only: psync_fs_crypto_read_newfile_locked_def PSYNC_CRYPTO_SECTOR_SIZE_def Let_def cs def [symmetric] u if_False)
  show ?thesis
  proof (cases "o2 = 0")
    case True
    then show ?thesis using e read_sectors_result [OF assms(1) _ assms(2), of sid m 0 "[]"] m len i32 by simp
  next
    case o: False
    let ?a = "take ?d (drop offset data)"
    have d: "0 < ?d" "o2 + ?d \<le> 4096" "?d \<le> m" using m(1) len(2) by auto
    have p: "psync_fs_crypto_read_newfile_partial_sector key (quiet_io dbg) sid ?d o2 fl = Some (int ?d, ?a)"
      using read_partial_result [OF assms(1) d(2) _ d(1) s] m(2) d(3) by (simp add: len(1))
    have r: "read_sectors key (\<lambda>_. quiet_io dbg) (sid + 1) (m - ?d) ?d ?a fl = Some (int32 (?d + (m - ?d)), ?a @ take (m - ?d) (drop (4096 * (sid + 1)) data))"
      if "4096 - o2 < m" using that m(2) len by (intro read_sectors_result [OF assms(1) _ assms(2)]) simp
    show ?thesis
    proof (cases "4096 - o2 < m")
      case True
      have "4096 * (sid + 1) = offset + (4096 - o2)" using len by simp
      then have "take (m - (4096 - o2)) (drop (4096 * (sid + 1)) data) = take (m - (4096 - o2)) (drop (4096 - o2) (drop offset data))" by (simp add: add.commute)
      then have "take (4096 - o2) (drop offset data) @ take (m - (4096 - o2)) (drop (4096 * (sid + 1)) data) = take m (drop offset data)"
        using take_add [of "4096 - o2" "m - (4096 - o2)" "drop offset data"] True by simp
      then show ?thesis using e p r [OF True] o True m i32 by simp
    next
      case nle: False
      then show ?thesis using e p o m i32 by (simp add: read_sectors.simps)
    qed
  qed
qed

subsection \<open>Properties\<close>



text \<open>A new file with an empty log, written at offset 5 with a sector cipher that reverses blocks.\<close>

definition toy_key :: crypto_key where
  "toy_key = \<lparr>key_enc = rev, key_dec = rev, key_sha = (\<lambda>_. replicate 64 3), key_iv = []\<rparr>"

definition toy_writes :: "(nat \<Rightarrow> io_result) \<Rightarrow> nat \<Rightarrow> write_io" where
  "toy_writes rs j = \<lparr>w_rnd = replicate 16 9, w_al = False, w_node = j, w_inode = 0, w_res = rs j,
     w_reset = \<lparr>log_stat = True, log_cut = Io_ok, data_stat = True, log_open = True, log_init = Io_ok\<rparr>, w_read = quiet_io True\<rparr>"

definition empty_openfile :: psync_openfile_t where
  "empty_openfile = new_openfile\<lparr>logfile := Some (replicate 4096 0xff), logoffset := 4096\<rparr>"

lemma toy_ok: "key_ok toy_key" "supply_ok True (toy_writes rs)" "file_holds toy_key True empty_openfile []" "nodes_fresh (toy_writes rs) 0 empty_openfile"
  "logoffset empty_openfile = 4096"
  by (simp_all add: toy_key_def key_ok_def aes_ok_def supply_ok_def inj_def write_io_ok_def toy_writes_def file_holds_def sectors_ok_def keyed_def tree_ok_def
    nodes_fresh_def empty_openfile_def new_openfile_def)



end
