(* ===== verification/Spec2Isabelle.thy ===== *)
theory Spec2Isabelle
  imports Pintervaltree Plist Ptimer Prunratelimit Papi Pcrypto Ppagecache Plibs Plocks Pfasthash Pcompression Pfscryptorw
begin

text \<open>
  The verification of the core of the pCloud console client (\<^verbatim>\<open>src/src/psync\<close>).

  \<^bold>\<open>The program.\<close>  The client keeps a local state database and a file system view of an account in sync with the servers.  Its
  library \<^verbatim>\<open>psync\<close> is written in C: intrusive containers and small services (trees, lists, interval sets, timers, rate limited
  tasks, read-write locks, sorting, encodings) carry the protocol layer (\<^verbatim>\<open>papi.c\<close>), the encryption of crypto folders
  (\<^verbatim>\<open>pcrypto.c\<close>), the page cache (\<^verbatim>\<open>ppagecache.c\<close>) and the large drivers above them (diff, upload, download, FUSE).
  The services and the protocol and crypto layers are modelled; the drivers are sequences of SQL statements, sockets and system calls.

  \<^bold>\<open>The theories\<close>, each with the file it models:
  \<^item> \<open>Prelude\<close>: words, bytes, little-endian integers, faulting computations, and the contract \<open>inductive_invariant\<close> of
    a transition system, interpreted by every component that is driven by steps.
  \<^item> \<open>Ptree\<close> (\<^verbatim>\<open>ptree.c/.h\<close>): the intrusive AVL tree; parent pointers are the path of a zipper.  Insertion, deletion and
    iteration refine operations on the in-order sequence, keep balance and order, and never dereference \<^verbatim>\<open>NULL\<close>.
  \<^item> \<open>Pintervaltree\<close> (\<^verbatim>\<open>pintervaltree.c/.h\<close>): sets of 64-bit offsets as intervals in that tree; the operations refine
    union, difference and restriction.
  \<^item> \<open>Plist\<close> (\<^verbatim>\<open>plist.c/.h\<close>): circular doubly linked lists over an explicit store; the merge sort is stable and keeps the ring.
  \<^item> \<open>Ptimer\<close> (\<^verbatim>\<open>ptimer.c/.h\<close>): the hierarchical timer wheel; in every reachable state the thread runs exactly the due timers.
  \<^item> \<open>Prunratelimit\<close> (\<^verbatim>\<open>prunratelimit.c\<close>): tasks that run at most once per period; no request is lost.
  \<^item> \<open>Papi\<close> (\<^verbatim>\<open>papi.c/.h\<close>): the binary protocol: the two passes of the parser, commands, the incremental reader, the
    fallback of connections.
  \<^item> \<open>Pcrypto\<close> (\<^verbatim>\<open>pcrypto.c\<close>): counter, text and sector modes over an arbitrary block cipher and hash.
  \<^item> \<open>Pqsort\<close> and \<open>Ppagecache\<close> (\<^verbatim>\<open>plibs.c\<close>, \<^verbatim>\<open>ppagecache.c\<close>): the partial sort and partition of arrays for any
    comparison that satisfies the locale \<open>compar\<close>, interpreted for the five comparisons of the page cache, and the choice of the
    pages to evict.
  \<^item> \<open>Plibs\<close> (\<^verbatim>\<open>plibs.c\<close>): base 32 and base 64 (locale \<open>codec\<close>), UTF-8, patterns, numbers, names of conflicted files.
  \<^item> \<open>Plocks\<close> (\<^verbatim>\<open>plocks.c/.h\<close>): recursive read-write locks with reservation and upgrade, as steps of any number of threads.

  \<^item> \<open>Pcrc32c_tables\<close>, \<open>Pcrc32c\<close> and \<open>Pfasthash\<close> (\<^verbatim>\<open>pcrc32c.c\<close>): CRC-32C from the tables of the source and from the
    instructions of the processor (parameters with the locale \<open>sse42\<close>) is the bit-serial definition; the 256-bit hash depends
    only on the concatenation of the pieces it is fed with.
  \<^item> \<open>Pcompression\<close> (\<^verbatim>\<open>pcompression.c\<close>): compressed streams as a queue, over any compressor with the contract of zlib
    (locale \<open>zlib\<close>).
  \<^item> \<open>Pfscrypto\<close>, \<open>Pfscryptolog\<close>, \<open>Pfscryptofile\<close> and \<open>Pfscryptorw\<close> (\<^verbatim>\<open>pfscrypto.c\<close>): encrypted files.  The layout with its hash tree is
    the same computed from either size, and its sectors do not overlap.  The log of a file is written, finalized with
    the checksums of \<open>Pcrc32c\<close> and \<open>Pfasthash\<close>, checked and replayed; a finalized log has the effect of the writes that were
    appended, and an interrupted replay can be repeated.  Reads and writes of a range of a file through the log refine
    reads and writes of its plain contents, and a failed write leaves a readable file.

  \<^bold>\<open>Conventions.\<close>  A failed assertion, a \<^verbatim>\<open>NULL\<close> dereference and an access outside a buffer are values (\<open>None\<close>, \<open>Fault\<close>), so that
  their absence is a theorem.  Machine integers are words where their width matters, or natural numbers with the reduction
  to their width written out.  The results of system calls are arguments, so that every call can fail.

  \<^bold>\<open>Bounds and fuel.\<close>  The parser, the walk of the interval tree and the partial sort carry fuel; the theorems state that the fuel
  that the entry points pass (the length of the reply, the number of nodes, the size of the array) is enough.  Loops
  that may not end are \<open>partial_function (option)\<close>, with theorems that they return.

  \<^bold>\<open>Not modelled.\<close>  The drivers above the services (diff, upload, download, local scan, FUSE, the remaining page cache) are
  dominated by SQL, sockets, threads and system calls; \<^verbatim>\<open>pcompat.c\<close>, the SSL back ends and the database layer wrap the
  operating system and third-party libraries; the command line front end is C++ glue.
\<close>

end
